(* ===== verification/Prelude.thy ===== *)
theory Prelude
  imports Main "HOL-Library.Word"
begin

text \<open>
  Shared vocabulary of the development.

  \<^item> Machine integers are words; the checked and saturating operations of Rust are
    defined once, for every width, and characterised through \<open>unat\<close>. The shipped
    profile (\<open>Cargo.toml\<close>, \<open>[profile.release]\<close>) leaves overflow checks off, so the
    plain operators \<open>+\<close>, \<open>-\<close>, \<open>*\<close> wrap, as they do on words.
  \<^item> A fallible computation returns \<open>'e + 'a\<close>: \<open>Inl\<close> is the error branch of a Rust
    \<open>Result\<close>, \<open>Inr\<close> the success branch; \<open>bind_res\<close> is the \<open>?\<close> operator and
    \<open>collect_res\<close> is \<open>collect::<Result<Vec<_>>>()\<close>.
  \<^item> A Rust \<open>str\<close> is its UTF-8 byte sequence, a \<open>string\<close>. The string functions below
    are those of the Rust standard library that the sources call.
\<close>

named_theorems res_simps \<open>unfolding of the error monad\<close>
named_theorems guard_defs \<open>definitions of validation predicates\<close>

section \<open>Machine integers\<close>

type_synonym u8 = "8 word"
type_synonym u16 = "16 word"
type_synonym u32 = "32 word"
type_synonym u64 = "64 word"

definition checked_add :: "'a::len word \<Rightarrow> 'a word \<Rightarrow> 'a word option" where
  "checked_add a b = (if unat a + unat b < 2 ^ LENGTH('a) then Some (a + b) else None)"

definition saturating_add :: "'a::len word \<Rightarrow> 'a word \<Rightarrow> 'a word" where
  "saturating_add a b = (if unat a + unat b < 2 ^ LENGTH('a) then a + b else - 1)"

definition saturating_sub :: "'a::len word \<Rightarrow> 'a word \<Rightarrow> 'a word" where
  "saturating_sub a b = (if b \<le> a then a - b else 0)"

lemma checked_add_code [code]: "checked_add a b = (if a \<le> a + b then Some (a + b) else None)"
  by (simp add: checked_add_def no_olen_add_nat)

lemma saturating_add_code [code]: "saturating_add a b = (if a \<le> a + b then a + b else - 1)"
  by (simp add: saturating_add_def no_olen_add_nat)

lemma unat_add_no_overflow:
  fixes a b :: "'a::len word"
  assumes "unat a + unat b < 2 ^ LENGTH('a)"
  shows "unat (a + b) = unat a + unat b"
  using assms by (simp add: unat_word_ariths)

lemma checked_add_SomeI:
  fixes a b :: "'a::len word"
  shows "unat a + unat b < 2 ^ LENGTH('a) \<Longrightarrow> checked_add a b = Some (a + b)"
  by (simp add: checked_add_def)

lemma checked_add_SomeD:
  "checked_add a b = Some c \<Longrightarrow> unat c = unat a + unat b \<and> c = a + b"
  by (auto simp: checked_add_def unat_add_no_overflow split: if_splits)

lemma checked_add_None_iff:
  fixes a b :: "'a::len word"
  shows "checked_add a b = None \<longleftrightarrow> 2 ^ LENGTH('a) \<le> unat a + unat b"
  by (auto simp: checked_add_def)

lemma unat_saturating_sub: "unat (saturating_sub a b) = unat a - unat b"
  by (simp add: saturating_sub_def unat_sub_if' word_le_nat_alt)

lemma unat_saturating_add:
  fixes a b :: "'a::len word"
  shows "unat (saturating_add a b) = min (unat a + unat b) (2 ^ LENGTH('a) - 1)"
proof -
  have "unat (- 1 :: 'a word) = 2 ^ LENGTH('a) - 1"
    by (simp add: unsigned_minus_1_eq_mask mask_eq_exp_minus_1)
  then show ?thesis
    by (auto simp: saturating_add_def unat_add_no_overflow min_def)
qed

section \<open>The error monad\<close>

definition bind_res :: "'e + 'a \<Rightarrow> ('a \<Rightarrow> 'e + 'b) \<Rightarrow> 'e + 'b" where
  "bind_res m f = (case m of Inl e \<Rightarrow> Inl e | Inr a \<Rightarrow> f a)"

definition ensure :: "bool \<Rightarrow> 'e \<Rightarrow> 'e + unit" where
  "ensure b e = (if b then Inr () else Inl e)"

fun collect_res :: "('a \<Rightarrow> 'e + 'b) \<Rightarrow> 'a list \<Rightarrow> 'e + 'b list" where
  "collect_res f [] = Inr []"
| "collect_res f (x # xs) =
     (case f x of Inl e \<Rightarrow> Inl e
      | Inr y \<Rightarrow> (case collect_res f xs of Inl e \<Rightarrow> Inl e | Inr ys \<Rightarrow> Inr (y # ys)))"

fun all_res :: "('a \<Rightarrow> 'e + unit) \<Rightarrow> 'a list \<Rightarrow> 'e + unit" where
  "all_res f [] = Inr ()"
| "all_res f (x # xs) = (case f x of Inl e \<Rightarrow> Inl e | Inr _ \<Rightarrow> all_res f xs)"

lemma bind_res_simps [simp]:
  "bind_res (Inl e) f = Inl e"
  "bind_res (Inr a) f = f a"
  by (simp_all add: bind_res_def)

lemma not_isl_InrD: "\<not> isl x \<Longrightarrow> \<exists>y. x = Inr y"
  by (cases x) simp_all

lemma isl_unit_iff: "isl (x :: 'e + unit) \<longleftrightarrow> x \<noteq> Inr ()"
  by (cases x) simp_all

lemma bind_res_Inr_iff [res_simps]:
  "bind_res m f = Inr b \<longleftrightarrow> (\<exists>a. m = Inr a \<and> f a = Inr b)"
  by (cases m) simp_all

lemma bind_res_Inl_iff:
  "bind_res m f = Inl e \<longleftrightarrow> m = Inl e \<or> (\<exists>a. m = Inr a \<and> f a = Inl e)"
  by (cases m) simp_all

lemma bind_res_Inr_eq [res_simps]:
  "Inr b = bind_res m f \<longleftrightarrow> (\<exists>a. m = Inr a \<and> f a = Inr b)"
  by (cases m) auto

lemma ensure_Inr_iff [simp]: "ensure b e = Inr u \<longleftrightarrow> b"
  by (simp add: ensure_def)

lemma ensure_Inl_iff [simp]: "ensure b e = Inl e' \<longleftrightarrow> \<not> b \<and> e = e'"
  by (simp add: ensure_def)

lemma all_res_Inr_iff [simp]:
  "all_res f xs = Inr u \<longleftrightarrow> (\<forall>x \<in> set xs. f x = Inr ())"
  by (induction xs) (auto split: sum.splits)

lemma collect_res_InrD:
  "collect_res f xs = Inr ys \<Longrightarrow> list_all2 (\<lambda>x y. f x = Inr y) xs ys"
  by (induction xs arbitrary: ys) (auto split: sum.splits)

lemma collect_res_Inr_iff:
  "collect_res f xs = Inr ys \<longleftrightarrow> list_all2 (\<lambda>x y. f x = Inr y) xs ys"
proof
  show "list_all2 (\<lambda>x y. f x = Inr y) xs ys \<Longrightarrow> collect_res f xs = Inr ys"
    by (induction xs ys rule: list_all2_induct) simp_all
qed (rule collect_res_InrD)

lemma collect_res_cong [fundef_cong]:
  "xs = ys \<Longrightarrow> (\<And>x. x \<in> set ys \<Longrightarrow> f x = g x) \<Longrightarrow> collect_res f xs = collect_res g ys"
proof (induction ys arbitrary: xs)
  case (Cons y ys)
  then have "collect_res f ys = collect_res g ys" "f y = g y" by simp_all
  then show ?case using Cons.prems(1) by (simp split: sum.splits)
qed simp

lemma collect_res_InlD: "collect_res f xs = Inl e \<Longrightarrow> \<exists>x \<in> set xs. f x = Inl e"
  by (induction xs) (auto split: sum.splits)

lemma collect_res_append:
  "collect_res f (xs @ ys) =
     bind_res (collect_res f xs) (\<lambda>us. bind_res (collect_res f ys) (\<lambda>vs. Inr (us @ vs)))"
  by (induction xs) (auto simp: bind_res_def split: sum.splits)

lemma collect_res_set:
  "collect_res f xs = Inr ys \<Longrightarrow> set ys = {y. \<exists>x \<in> set xs. f x = Inr y}"
  by (induction xs arbitrary: ys) (auto split: sum.splits)

text \<open>
  The value of an expression the source marks \<open>unreachable!\<close>: unspecified, so nothing can
  be proved of a computation that gets there, and a theorem about its result shows that it
  does not.
\<close>

definition unreachable :: "'a" where
  "unreachable = undefined"

section \<open>Strings\<close>

type_synonym rstr = string

definition starts_with :: "rstr \<Rightarrow> rstr \<Rightarrow> bool" where
  "starts_with s p \<longleftrightarrow> take (length p) s = p"

definition ends_with :: "rstr \<Rightarrow> rstr \<Rightarrow> bool" where
  "ends_with s q \<longleftrightarrow> length q \<le> length s \<and> drop (length s - length q) s = q"

fun contains_str :: "rstr \<Rightarrow> rstr \<Rightarrow> bool" where
  "contains_str [] p \<longleftrightarrow> p = []"
| "contains_str (c # s) p \<longleftrightarrow> starts_with (c # s) p \<or> contains_str s p"

definition strip_prefix :: "rstr \<Rightarrow> rstr \<Rightarrow> rstr option" where
  "strip_prefix p s = (if starts_with s p then Some (drop (length p) s) else None)"

definition strip_suffix :: "rstr \<Rightarrow> rstr \<Rightarrow> rstr option" where
  "strip_suffix q s = (if ends_with s q then Some (take (length s - length q) s) else None)"

text \<open>\<open>str::rsplit_once(c)\<close>: split at the last occurrence of a character.\<close>

definition rsplit_once :: "char \<Rightarrow> rstr \<Rightarrow> (rstr \<times> rstr) option" where
  "rsplit_once c s =
     (if c \<in> set s
      then Some (rev (tl (dropWhile (\<lambda>x. x \<noteq> c) (rev s))), rev (takeWhile (\<lambda>x. x \<noteq> c) (rev s)))
      else None)"

text \<open>\<open>str::split(c)\<close>: the pieces between the occurrences of a character.\<close>

fun split_on :: "char \<Rightarrow> rstr \<Rightarrow> rstr list" where
  "split_on c [] = [[]]"
| "split_on c (x # s) =
     (if x = c then [] # split_on c s
      else (case split_on c s of [] \<Rightarrow> [[x]] | p # ps \<Rightarrow> (x # p) # ps))"

definition ascii_lower :: "char \<Rightarrow> char" where
  "ascii_lower c =
     (let n = (of_char c :: nat) in if 65 \<le> n \<and> n \<le> 90 then char_of (n + 32) else c)"

definition to_ascii_lowercase :: "rstr \<Rightarrow> rstr" where
  "to_ascii_lowercase s = map ascii_lower s"

definition eq_ignore_ascii_case :: "rstr \<Rightarrow> rstr \<Rightarrow> bool" where
  "eq_ignore_ascii_case a b \<longleftrightarrow> to_ascii_lowercase a = to_ascii_lowercase b"

definition is_ascii_digit :: "char \<Rightarrow> bool" where
  "is_ascii_digit c \<longleftrightarrow> 48 \<le> (of_char c :: nat) \<and> (of_char c :: nat) \<le> 57"

definition is_ascii_lowercase :: "char \<Rightarrow> bool" where
  "is_ascii_lowercase c \<longleftrightarrow> 97 \<le> (of_char c :: nat) \<and> (of_char c :: nat) \<le> 122"

definition is_ascii_uppercase :: "char \<Rightarrow> bool" where
  "is_ascii_uppercase c \<longleftrightarrow> 65 \<le> (of_char c :: nat) \<and> (of_char c :: nat) \<le> 90"

definition is_ascii_alphanumeric :: "char \<Rightarrow> bool" where
  "is_ascii_alphanumeric c \<longleftrightarrow> is_ascii_digit c \<or> is_ascii_lowercase c \<or> is_ascii_uppercase c"

definition is_ascii_hexdigit :: "char \<Rightarrow> bool" where
  "is_ascii_hexdigit c \<longleftrightarrow>
     is_ascii_digit c \<or> (97 \<le> (of_char c :: nat) \<and> (of_char c :: nat) \<le> 102)
     \<or> (65 \<le> (of_char c :: nat) \<and> (of_char c :: nat) \<le> 70)"

text \<open>
  The characters with the Unicode property \<open>White_Space\<close>, as UTF-8 sequences:
  what \<open>str::trim\<close> removes from both ends. In valid UTF-8 a lead byte never occurs
  inside another character, so a byte-level match is a character-level match.
\<close>

definition white_space :: "rstr list" where
  "white_space =
     [[CHR 0x09], [CHR 0x0A], [CHR 0x0B], [CHR 0x0C], [CHR 0x0D], [CHR 0x20],
      [CHR 0xC2, CHR 0x85], [CHR 0xC2, CHR 0xA0], [CHR 0xE1, CHR 0x9A, CHR 0x80],
      [CHR 0xE2, CHR 0x80, CHR 0x80], [CHR 0xE2, CHR 0x80, CHR 0x81],
      [CHR 0xE2, CHR 0x80, CHR 0x82], [CHR 0xE2, CHR 0x80, CHR 0x83],
      [CHR 0xE2, CHR 0x80, CHR 0x84], [CHR 0xE2, CHR 0x80, CHR 0x85],
      [CHR 0xE2, CHR 0x80, CHR 0x86], [CHR 0xE2, CHR 0x80, CHR 0x87],
      [CHR 0xE2, CHR 0x80, CHR 0x88], [CHR 0xE2, CHR 0x80, CHR 0x89],
      [CHR 0xE2, CHR 0x80, CHR 0x8A], [CHR 0xE2, CHR 0x80, CHR 0xA8],
      [CHR 0xE2, CHR 0x80, CHR 0xA9], [CHR 0xE2, CHR 0x80, CHR 0xAF],
      [CHR 0xE2, CHR 0x81, CHR 0x9F], [CHR 0xE3, CHR 0x80, CHR 0x80]]"

function drop_any :: "rstr list \<Rightarrow> rstr \<Rightarrow> rstr" where
  "drop_any ws s =
     (case find (\<lambda>w. w \<noteq> [] \<and> starts_with s w) ws of
        None \<Rightarrow> s
      | Some w \<Rightarrow> drop_any ws (drop (length w) s))"
  by pat_completeness auto
termination
proof (relation "measure (\<lambda>(ws, s). length s)")
  fix ws s w
  assume "find (\<lambda>w. w \<noteq> [] \<and> starts_with s w) ws = Some w"
  then have "w \<noteq> []" and "take (length w) s = w"
    by (auto simp: find_Some_iff starts_with_def)
  then have "s \<noteq> []" by (cases s) auto
  with \<open>w \<noteq> []\<close> show "((ws, drop (length w) s), ws, s) \<in> measure (\<lambda>(ws, s). length s)"
    by simp
qed simp

declare drop_any.simps [simp del]

definition trim :: "rstr \<Rightarrow> rstr" where
  "trim s = rev (drop_any (map rev white_space) (rev (drop_any white_space s)))"

definition trim_matches :: "(char \<Rightarrow> bool) \<Rightarrow> rstr \<Rightarrow> rstr" where
  "trim_matches p s = rev (dropWhile p (rev (dropWhile p s)))"

definition trim_end_matches :: "char \<Rightarrow> rstr \<Rightarrow> rstr" where
  "trim_end_matches c s = rev (dropWhile (\<lambda>x. x = c) (rev s))"

definition digit_char :: "nat \<Rightarrow> char" where
  "digit_char d = char_of (if d < 10 then 48 + d else 87 + d)"

fun show_nat :: "nat \<Rightarrow> rstr" where
  "show_nat n = (if n < 10 then [digit_char n] else show_nat (n div 10) @ [digit_char (n mod 10)])"

declare show_nat.simps [simp del]

fun join_on :: "rstr \<Rightarrow> rstr list \<Rightarrow> rstr" where
  "join_on sep [] = []"
| "join_on sep [x] = x"
| "join_on sep (x # xs) = x @ sep @ join_on sep xs"

lemma starts_with_iff: "starts_with s p \<longleftrightarrow> (\<exists>r. s = p @ r)"
  by (metis append_take_drop_id append_eq_conv_conj starts_with_def)

lemma ends_with_iff: "ends_with s q \<longleftrightarrow> (\<exists>r. s = r @ q)"
proof
  assume "ends_with s q"
  then have "s = take (length s - length q) s @ q"
    by (metis append_take_drop_id ends_with_def)
  then show "\<exists>r. s = r @ q" by blast
qed (auto simp: ends_with_def)

lemma drop_any_Nil [simp]: "drop_any ws [] = []"
  by (subst drop_any.simps) (auto simp: starts_with_def find_Some_iff split: option.splits)

lemma drop_any_suffix: "\<exists>r. s = r @ drop_any ws s"
proof (induction ws s rule: drop_any.induct)
  case (1 ws s)
  show ?case
  proof (cases "find (\<lambda>w. w \<noteq> [] \<and> starts_with s w) ws")
    case (Some w)
    then obtain r where "drop (length w) s = r @ drop_any ws (drop (length w) s)"
      using 1 by blast
    then have "s = (take (length w) s @ r) @ drop_any ws (drop (length w) s)"
      by (metis append.assoc append_take_drop_id)
    moreover have "drop_any ws s = drop_any ws (drop (length w) s)"
      using Some by (simp add: drop_any.simps [of ws s])
    ultimately show ?thesis by metis
  qed (simp add: drop_any.simps [of ws s])
qed

lemma drop_any_clean: "w \<in> set ws \<Longrightarrow> w \<noteq> [] \<Longrightarrow> \<not> starts_with (drop_any ws s) w"
proof (induction ws s rule: drop_any.induct)
  case (1 ws s)
  then show ?case
    by (subst drop_any.simps) (auto simp: find_None_iff split: option.splits)
qed

lemma drop_any_id: "(\<And>w. w \<in> set ws \<Longrightarrow> w \<noteq> [] \<Longrightarrow> \<not> starts_with s w) \<Longrightarrow> drop_any ws s = s"
  by (subst drop_any.simps) (auto split: option.splits simp: find_Some_iff)

lemma trim_idem [simp]: "trim (trim s) = trim s"
proof -
  let ?front = "drop_any white_space s" and ?ends = "map rev white_space"
  obtain r where "rev ?front = r @ drop_any ?ends (rev ?front)"
    using drop_any_suffix by blast
  then have front: "?front = trim s @ rev r"
    by (metis rev_append rev_rev_ident trim_def)
  have "drop_any white_space (trim s) = trim s"
  proof (rule drop_any_id)
    fix w assume "w \<in> set white_space" "w \<noteq> []"
    then have "\<not> starts_with ?front w" by (rule drop_any_clean)
    then show "\<not> starts_with (trim s) w"
      unfolding front by (auto simp: starts_with_iff)
  qed
  moreover have "drop_any ?ends (rev (trim s)) = rev (trim s)"
    using drop_any_clean [of _ ?ends "rev ?front"] by (intro drop_any_id) (auto simp: trim_def)
  ultimately show ?thesis by (simp add: trim_def [of "trim s"])
qed

section \<open>Byte streams\<close>

abbreviation newline :: char where
  "newline \<equiv> CHR 0x0A"

text \<open>
  \<open>reader.take(n).read_until(b'\n', ..)\<close>: bytes up to and including the first newline, at
  most \<open>n\<close> of them, less at the end of the stream.
\<close>

fun read_until :: "int \<Rightarrow> rstr \<Rightarrow> rstr" where
  "read_until n [] = []"
| "read_until n (c # s) =
     (if n \<le> 0 then [] else if c = newline then [c] else c # read_until (n - 1) s)"

lemma read_until_length: "int (length (read_until n s)) \<le> max 0 n"
  by (induction n s rule: read_until.induct) auto

lemma read_until_prefix: "read_until n s @ drop (length (read_until n s)) s = s"
  by (induction n s rule: read_until.induct) auto

lemma read_until_line:
  "newline \<notin> set l \<Longrightarrow> int (length l) < n \<Longrightarrow> read_until n (l @ newline # rest) = l @ [newline]"
  by (induction l arbitrary: n) auto

lemma read_until_tail: "newline \<notin> set l \<Longrightarrow> int (length l) \<le> n \<Longrightarrow> read_until n l = l"
  by (induction l arbitrary: n) auto

lemma read_until_Nil_iff: "0 < n \<Longrightarrow> read_until n s = [] \<longleftrightarrow> s = []"
  by (cases s) auto

section \<open>State machines\<close>

text \<open>
  The contract every stateful component is held to: what may be an initial state, what a
  step is, and an invariant that initial states have and steps keep. The lemmas lift it to
  every state that some sequence of steps leads to.
\<close>

locale state_machine =
  fixes init :: "'s \<Rightarrow> bool"
    and step :: "'s \<Rightarrow> 's \<Rightarrow> bool"
    and inv :: "'s \<Rightarrow> bool"
  assumes inv_init: "init s \<Longrightarrow> inv s"
    and inv_step: "inv s \<Longrightarrow> step s t \<Longrightarrow> inv t"
begin

lemma inv_steps: "inv s \<Longrightarrow> step\<^sup>*\<^sup>* s t \<Longrightarrow> inv t"
  by (erule rtranclp_induct [where P = inv]) (auto intro: inv_step)

lemma inv_reachable: "init s \<Longrightarrow> step\<^sup>*\<^sup>* s t \<Longrightarrow> inv t"
  by (blast intro: inv_init inv_steps)

lemma inv_along:
  "inv s \<Longrightarrow> successively step (s # ts) \<Longrightarrow> t \<in> set (s # ts) \<Longrightarrow> inv t"
proof (induction ts arbitrary: s)
  case (Cons u ts)
  then have "step s u" and "successively step (u # ts)" by simp_all
  with Cons show ?case by (cases "t = s") (auto intro: inv_step)
qed simp

end

section \<open>Lists\<close>

lemma list_ex_permute: "set xs = set ys \<Longrightarrow> list_ex P xs = list_ex P ys"
  by (simp add: list_ex_iff)

lemma dropWhile_idem [simp]: "dropWhile p (dropWhile p xs) = dropWhile p xs"
  by (induction xs) auto

lemma distinct_successively: "distinct (map f xs) \<Longrightarrow> successively (\<lambda>a b. f a \<noteq> f b) xs"
  by (induction xs rule: induct_list012) auto

lemma foldl_max_Max:
  fixes a :: "'a :: linorder"
  shows "foldl max a xs = Max (insert a (set xs))"
proof (induction xs arbitrary: a)
  case (Cons x xs)
  have "Max (insert (max a x) (set xs)) = Max (insert a (insert x (set xs)))"
    by (cases "xs = []") (simp_all add: Max_insert max.assoc)
  then show ?case using Cons by simp
qed simp

lemma find_SomeD: "find p xs = Some x \<Longrightarrow> x \<in> set xs \<and> p x"
  by (auto simp: find_Some_iff)

lemma find_None_iff_all: "find p xs = None \<longleftrightarrow> (\<forall>x \<in> set xs. \<not> p x)"
  by (induction xs) auto

end
