(* ===== verification/Net_Addr.thy ===== *)
theory Net_Addr
  imports Prelude "HOL-Library.Monad_Syntax"
begin

unbundle bit_operations_syntax

text \<open>
  Network addresses: \<open>std::net::IpAddr\<close> with the parser and the classifying methods of
  the standard library that the policy code calls, and the address classifiers and host
  normalisation of \<open>crates/pvisor-core/src/policy.rs\<close>.
\<close>

section \<open>The standard library's addresses\<close>

datatype ip_addr =
    V4 u8 u8 u8 u8
  | V6 u16 u16 u16 u16 u16 u16 u16 u16

definition v4_is_loopback :: "u8 \<Rightarrow> bool" where
  "v4_is_loopback a \<longleftrightarrow> a = 127"

definition v4_is_private :: "u8 \<Rightarrow> u8 \<Rightarrow> bool" where
  "v4_is_private a b \<longleftrightarrow>
     a = 10 \<or> (a = 172 \<and> 16 \<le> b \<and> b \<le> 31) \<or> (a = 192 \<and> b = 168)"

definition v4_is_link_local :: "u8 \<Rightarrow> u8 \<Rightarrow> bool" where
  "v4_is_link_local a b \<longleftrightarrow> a = 169 \<and> b = 254"

definition v4_is_multicast :: "u8 \<Rightarrow> bool" where
  "v4_is_multicast a \<longleftrightarrow> 224 \<le> a \<and> a \<le> 239"

definition v4_is_broadcast :: "u8 \<Rightarrow> u8 \<Rightarrow> u8 \<Rightarrow> u8 \<Rightarrow> bool" where
  "v4_is_broadcast a b c d \<longleftrightarrow> a = 255 \<and> b = 255 \<and> c = 255 \<and> d = 255"

definition v4_is_unspecified :: "u8 \<Rightarrow> u8 \<Rightarrow> u8 \<Rightarrow> u8 \<Rightarrow> bool" where
  "v4_is_unspecified a b c d \<longleftrightarrow> a = 0 \<and> b = 0 \<and> c = 0 \<and> d = 0"

lemmas v4_class_defs = v4_is_loopback_def v4_is_private_def v4_is_link_local_def
  v4_is_multicast_def v4_is_broadcast_def v4_is_unspecified_def

definition hi_byte :: "u16 \<Rightarrow> u8" where
  "hi_byte w = ucast (drop_bit 8 w)"

definition lo_byte :: "u16 \<Rightarrow> u8" where
  "lo_byte w = ucast w"

definition be_bytes :: "u8 \<Rightarrow> u8 \<Rightarrow> u16" where
  "be_bytes a b = push_bit 8 (ucast a) OR ucast b"

text \<open>\<open>Ipv6Addr::to_ipv4_mapped\<close> and \<open>Ipv4Addr::to_ipv6_mapped\<close>.\<close>

fun to_ipv4_mapped :: "ip_addr \<Rightarrow> ip_addr option" where
  "to_ipv4_mapped (V6 a b c d e f g h) =
     (if a = 0 \<and> b = 0 \<and> c = 0 \<and> d = 0 \<and> e = 0 \<and> f = 0xffff
      then Some (V4 (hi_byte g) (lo_byte g) (hi_byte h) (lo_byte h)) else None)"
| "to_ipv4_mapped (V4 _ _ _ _) = None"

fun to_ipv6_mapped :: "ip_addr \<Rightarrow> ip_addr" where
  "to_ipv6_mapped (V4 a b c d) = V6 0 0 0 0 0 0xffff (be_bytes a b) (be_bytes c d)"
| "to_ipv6_mapped (V6 a b c d e f g h) = V6 a b c d e f g h"

lemma hi_be_bytes [simp]: "hi_byte (be_bytes a b) = a"
  unfolding hi_byte_def be_bytes_def
  by (rule bit_word_eqI) (auto simp: bit_simps dest: bit_imp_le_length)

lemma lo_be_bytes [simp]: "lo_byte (be_bytes a b) = b"
  unfolding lo_byte_def be_bytes_def
  by (rule bit_word_eqI) (auto simp: bit_simps)

lemma mapped_roundtrip: "to_ipv4_mapped (to_ipv6_mapped (V4 a b c d)) = Some (V4 a b c d)"
  by simp

section \<open>Parsing\<close>

text \<open>
  The recursive-descent parser behind \<open>IpAddr::from_str\<close>: a reader returns the value
  and the unread rest, or \<open>None\<close> with nothing consumed.
\<close>

definition digit_val :: "nat \<Rightarrow> char \<Rightarrow> nat option" where
  "digit_val radix c =
     (let n = (of_char c :: nat);
          v = (if 48 \<le> n \<and> n \<le> 57 then n - 48
               else if 97 \<le> n \<and> n \<le> 122 then n - 87
               else if 65 \<le> n \<and> n \<le> 90 then n - 55 else 36)
      in if v < radix then Some v else None)"

fun read_digits :: "nat \<Rightarrow> rstr \<Rightarrow> nat list \<times> rstr" where
  "read_digits radix [] = ([], [])"
| "read_digits radix (c # s) =
     (case digit_val radix c of
        None \<Rightarrow> ([], c # s)
      | Some d \<Rightarrow> (let (ds, r) = read_digits radix s in (d # ds, r)))"

definition read_number :: "nat \<Rightarrow> nat \<Rightarrow> bool \<Rightarrow> int \<Rightarrow> rstr \<Rightarrow> (int \<times> rstr) option" where
  "read_number radix max_digits allow_zero_prefix bound s =
     (let (ds, r) = read_digits radix s;
          v = foldl (\<lambda>acc d. acc * int radix + int d) 0 ds
      in if ds = [] \<or> max_digits < length ds
            \<or> (\<not> allow_zero_prefix \<and> hd s = CHR ''0'' \<and> 1 < length ds)
            \<or> bound \<le> v
         then None else Some (v, r))"

definition read_sep :: "char \<Rightarrow> bool \<Rightarrow> (rstr \<Rightarrow> ('a \<times> rstr) option) \<Rightarrow> rstr \<Rightarrow> ('a \<times> rstr) option" where
  "read_sep sep first inner s =
     (if first then inner s
      else (case s of [] \<Rightarrow> None | c # t \<Rightarrow> if c = sep then inner t else None))"

definition read_octet :: "bool \<Rightarrow> rstr \<Rightarrow> (int \<times> rstr) option" where
  "read_octet first s = read_sep CHR ''.'' first (read_number 10 3 False 256) s"

definition read_ipv4 :: "rstr \<Rightarrow> ((u8 \<times> u8 \<times> u8 \<times> u8) \<times> rstr) option" where
  "read_ipv4 s = do {
     (a, s) \<leftarrow> read_octet True s;
     (b, s) \<leftarrow> read_octet False s;
     (c, s) \<leftarrow> read_octet False s;
     (d, s) \<leftarrow> read_octet False s;
     Some ((of_int a, of_int b, of_int c, of_int d), s)
   }"

fun read_groups :: "nat \<Rightarrow> bool \<Rightarrow> rstr \<Rightarrow> u16 list \<times> bool \<times> rstr" where
  "read_groups 0 first s = ([], False, s)"
| "read_groups (Suc left) first s =
     (case (if 0 < left then read_sep CHR '':'' first read_ipv4 s else None) of
        Some ((a, b, c, d), r) \<Rightarrow> ([be_bytes a b, be_bytes c d], True, r)
      | None \<Rightarrow>
          (case read_sep CHR '':'' first (read_number 16 4 True 65536) s of
             None \<Rightarrow> ([], False, s)
           | Some (g, r) \<Rightarrow>
               (let (gs, v4, r') = read_groups left False r in (of_int g # gs, v4, r'))))"

fun segments_addr :: "u16 list \<Rightarrow> ip_addr option" where
  "segments_addr [a, b, c, d, e, f, g, h] = Some (V6 a b c d e f g h)"
| "segments_addr _ = None"

definition read_ipv6 :: "rstr \<Rightarrow> (ip_addr \<times> rstr) option" where
  "read_ipv6 s =
     (let (head, head_v4, s1) = read_groups 8 True s in
      if length head = 8 then map_option (\<lambda>a. (a, s1)) (segments_addr head)
      else if head_v4 then None
      else if take 2 s1 \<noteq> ''::'' then None
      else
        (let (tail, _, s2) = read_groups (8 - (length head + 1)) True (drop 2 s1)
         in map_option (\<lambda>a. (a, s2))
              (segments_addr (head @ replicate (8 - length head - length tail) 0 @ tail))))"

definition parse_ip :: "rstr \<Rightarrow> ip_addr option" where
  "parse_ip s =
     (case read_ipv4 s of
        Some ((a, b, c, d), r) \<Rightarrow> if r = [] then Some (V4 a b c d) else None
      | None \<Rightarrow> (case read_ipv6 s of
                   Some (a, r) \<Rightarrow> if r = [] then Some a else None
                 | None \<Rightarrow> None))"

section \<open>Printing an address\<close>

text \<open>
  \<open>Display\<close> of the standard library: dotted decimal for IPv4; for IPv6 the mapped form,
  or lower-case hexadecimal groups with the first longest run of at least two zero groups
  written \<open>::\<close>.
\<close>

definition show_u8 :: "u8 \<Rightarrow> rstr" where
  "show_u8 w =
     (let n = unat w; ds = [n div 100, n div 10 mod 10]
      in map digit_char (dropWhile (\<lambda>d. d = 0) ds @ [n mod 10]))"

definition show_u16_hex :: "u16 \<Rightarrow> rstr" where
  "show_u16_hex w =
     (let nib = (\<lambda>k. unat (drop_bit k w AND 0xf))
      in map digit_char (dropWhile (\<lambda>d. d = 0) [nib 12, nib 8, nib 4] @ [nib 0]))"

definition show_v4 :: "u8 \<Rightarrow> u8 \<Rightarrow> u8 \<Rightarrow> u8 \<Rightarrow> rstr" where
  "show_v4 a b c d = join_on ''.'' (map show_u8 [a, b, c, d])"

fun longest_zeroes :: "nat \<Rightarrow> u16 list \<Rightarrow> nat \<times> nat \<Rightarrow> nat \<times> nat \<Rightarrow> nat \<times> nat" where
  "longest_zeroes i [] current longest = longest"
| "longest_zeroes i (s # ss) (start, len) longest =
     (if s = 0
      then (let current = (if len = 0 then i else start, len + 1)
            in longest_zeroes (i + 1) ss current (if snd longest < snd current then current else longest))
      else longest_zeroes (i + 1) ss (0, 0) longest)"

definition show_v6_groups :: "u16 list \<Rightarrow> rstr" where
  "show_v6_groups ss =
     (let (start, len) = longest_zeroes 0 ss (0, 0) (0, 0);
          part = (\<lambda>gs. join_on '':'' (map show_u16_hex gs))
      in if 1 < len then part (take start ss) @ ''::'' @ part (drop (start + len) ss)
         else part ss)"

fun show_ip :: "ip_addr \<Rightarrow> rstr" where
  "show_ip (V4 a b c d) = show_v4 a b c d"
| "show_ip (V6 a b c d e f g h) =
     (case to_ipv4_mapped (V6 a b c d e f g h) of
        Some (V4 x y z w) \<Rightarrow> ''::ffff:'' @ show_v4 x y z w
      | _ \<Rightarrow> show_v6_groups [a, b, c, d, e, f, g, h])"

section \<open>Address classes of the policy\<close>

definition v4_is_public_egress :: "u8 \<Rightarrow> u8 \<Rightarrow> u8 \<Rightarrow> u8 \<Rightarrow> bool" where
  "v4_is_public_egress a b c d \<longleftrightarrow>
     a \<noteq> 0
     \<and> \<not> v4_is_loopback a
     \<and> \<not> v4_is_private a b
     \<and> \<not> v4_is_link_local a b
     \<and> \<not> v4_is_multicast a
     \<and> \<not> v4_is_broadcast a b c d
     \<and> \<not> (a = 100 \<and> 64 \<le> b \<and> b \<le> 127)
     \<and> \<not> (a = 192 \<and> b = 0 \<and> c = 0)
     \<and> \<not> (a = 192 \<and> b = 0 \<and> c = 2)
     \<and> \<not> (a = 198 \<and> 18 \<le> b \<and> b \<le> 19)
     \<and> \<not> (a = 198 \<and> b = 51 \<and> c = 100)
     \<and> \<not> (a = 203 \<and> b = 0 \<and> c = 113)
     \<and> a < 240"

definition v6_is_public_egress :: "u16 \<Rightarrow> u16 \<Rightarrow> bool" where
  "v6_is_public_egress s0 s1 \<longleftrightarrow>
     s0 AND 0xe000 = 0x2000
     \<and> \<not> (s0 = 0x2001 \<and> s1 \<le> 0x01ff)
     \<and> \<not> (s0 = 0x2001 \<and> s1 = 0x0db8)
     \<and> s0 \<noteq> 0x2002
     \<and> \<not> (s0 = 0x3fff \<and> s1 AND 0xf000 = 0)"

fun is_public_egress_ip :: "ip_addr \<Rightarrow> bool" where
  "is_public_egress_ip (V4 a b c d) = v4_is_public_egress a b c d"
| "is_public_egress_ip (V6 a b c d e f g h) =
     (case to_ipv4_mapped (V6 a b c d e f g h) of
        Some (V4 x y z w) \<Rightarrow> v4_is_public_egress x y z w
      | _ \<Rightarrow> v6_is_public_egress a b)"

definition v4_is_opt_in_private :: "u8 \<Rightarrow> u8 \<Rightarrow> bool" where
  "v4_is_opt_in_private a b \<longleftrightarrow> v4_is_private a b \<or> v4_is_loopback a"

fun is_opt_in_private_ip :: "ip_addr \<Rightarrow> bool" where
  "is_opt_in_private_ip (V4 a b c d) = v4_is_opt_in_private a b"
| "is_opt_in_private_ip (V6 a b c d e f g h) =
     (case to_ipv4_mapped (V6 a b c d e f g h) of
        Some (V4 x y z w) \<Rightarrow> v4_is_opt_in_private x y
      | _ \<Rightarrow> (a = 0 \<and> b = 0 \<and> c = 0 \<and> d = 0 \<and> e = 0 \<and> f = 0 \<and> g = 0 \<and> h = 1)
             \<or> a AND 0xfe00 = 0xfc00)"

fun forbidden_vm_egress_address :: "ip_addr \<Rightarrow> bool" where
  "forbidden_vm_egress_address (V4 a b c d) \<longleftrightarrow>
     v4_is_unspecified a b c d
     \<or> v4_is_broadcast a b c d
     \<or> v4_is_multicast a
     \<or> v4_is_link_local a b
     \<or> a = 0
     \<or> 224 \<le> a
     \<or> (a = 192 \<and> b = 0 \<and> c = 0)
     \<or> (a = 192 \<and> b = 0 \<and> c = 2)
     \<or> (a = 198 \<and> (b = 18 \<or> b = 19))
     \<or> (a = 198 \<and> b = 51 \<and> c = 100)
     \<or> (a = 203 \<and> b = 0 \<and> c = 113)"
| "forbidden_vm_egress_address (V6 _ _ _ _ _ _ _ _) \<longleftrightarrow> True"

definition is_host_connector_alias :: "rstr \<Rightarrow> ip_addr \<Rightarrow> bool" where
  "is_host_connector_alias host address =
     (if parse_ip host \<noteq> None then False
      else (case address of
              V4 a b _ _ \<Rightarrow> a = 198 \<and> (b = 18 \<or> b = 19)
            | V6 _ _ _ _ _ _ _ _ \<Rightarrow> False))"

section \<open>Host names\<close>

definition normalize_host :: "rstr \<Rightarrow> rstr" where
  "normalize_host host =
     (let h = to_ascii_lowercase (trim_matches (\<lambda>c. c = CHR ''['' \<or> c = CHR '']'') (trim host))
      in take (length (trim_end_matches CHR ''.'' h)) h)"

lemma trim_end_matches_take:
  "take (length (trim_end_matches c s)) s = trim_end_matches c s"
proof -
  have "rev s = takeWhile (\<lambda>x. x = c) (rev s) @ dropWhile (\<lambda>x. x = c) (rev s)"
    by simp
  then have "s = trim_end_matches c s @ rev (takeWhile (\<lambda>x. x = c) (rev s))"
    unfolding trim_end_matches_def by (metis rev_append rev_rev_ident)
  then show ?thesis by (metis append_eq_conv_conj)
qed

lemma trim_end_matches_last:
  "trim_end_matches c s = [] \<or> last (trim_end_matches c s) \<noteq> c"
proof (cases "dropWhile (\<lambda>x. x = c) (rev s)")
  case (Cons y ys)
  then have "y \<noteq> c" using hd_dropWhile [of "\<lambda>x. x = c" "rev s"] by auto
  with Cons show ?thesis by (simp add: trim_end_matches_def)
qed (simp add: trim_end_matches_def)

text \<open>A normalised host never ends in a dot: fully qualified spellings collapse.\<close>

lemma normalize_host_no_trailing_dot:
  "normalize_host h = [] \<or> last (normalize_host h) \<noteq> CHR ''.''"
  by (simp add: normalize_host_def Let_def trim_end_matches_take trim_end_matches_last)

lemma ascii_lower_idem [simp]: "ascii_lower (ascii_lower c) = ascii_lower c"
proof (cases "65 \<le> (of_char c :: nat) \<and> (of_char c :: nat) \<le> 90")
  case True
  then have "(of_char (char_of ((of_char c :: nat) + 32) :: char) :: nat) = of_char c + 32"
    by (simp add: of_char_of)
  with True show ?thesis by (simp add: ascii_lower_def Let_def)
qed (auto simp: ascii_lower_def Let_def)

lemma normalize_host_lower: "to_ascii_lowercase (normalize_host h) = normalize_host h"
  by (simp add: normalize_host_def Let_def to_ascii_lowercase_def take_map [symmetric] comp_def)

section \<open>Address literals as host names\<close>

text \<open>
  A reader is case blind when lowering the text lowers only the unread rest, and it consumes when
  what it reads is not empty and does not end in a dot.
\<close>

definition case_blind :: "(rstr \<Rightarrow> ('a \<times> rstr) option) \<Rightarrow> bool" where
  "case_blind rd \<longleftrightarrow>
     (\<forall>s. rd (to_ascii_lowercase s) = map_option (map_prod id to_ascii_lowercase) (rd s))"

definition consumes :: "(rstr \<Rightarrow> ('a \<times> rstr) option) \<Rightarrow> bool" where
  "consumes rd \<longleftrightarrow> (\<forall>s v r. rd s = Some (v, r) \<longrightarrow> (\<exists>p. s = p @ r \<and> p \<noteq> [] \<and> last p \<noteq> CHR ''.''))"

lemma case_blindD: "case_blind rd \<Longrightarrow> rd (to_ascii_lowercase s) = map_option (map_prod id to_ascii_lowercase) (rd s)"
  by (simp add: case_blind_def)

lemma consumesD: "consumes rd \<Longrightarrow> rd s = Some (v, r) \<Longrightarrow> \<exists>p. s = p @ r \<and> p \<noteq> [] \<and> last p \<noteq> CHR ''.''"
  unfolding consumes_def by blast

lemma to_ascii_lowercase_simps [simp]:
  "to_ascii_lowercase [] = []" "to_ascii_lowercase (c # s) = ascii_lower c # to_ascii_lowercase s"
  by (simp_all add: to_ascii_lowercase_def)

lemma of_char_lower:
  "(of_char (ascii_lower c) :: nat) =
     (if 65 \<le> (of_char c :: nat) \<and> (of_char c :: nat) \<le> 90 then of_char c + 32 else of_char c)"
  by (simp add: ascii_lower_def Let_def of_char_of)

lemma digit_val_lower [simp]: "radix \<le> 36 \<Longrightarrow> digit_val radix (ascii_lower c) = digit_val radix c"
  by (auto simp: digit_val_def of_char_lower Let_def)

lemma lower_eq:
  assumes "(of_char x :: nat) < 65"
  shows "ascii_lower c = x \<longleftrightarrow> c = x"
proof -
  have "(of_char (ascii_lower c) :: nat) = of_char x \<longleftrightarrow> (of_char c :: nat) = of_char x"
    using assms by (auto simp: of_char_lower)
  then show ?thesis by simp
qed

lemma read_digits_lower:
  "radix \<le> 36 \<Longrightarrow> read_digits radix (to_ascii_lowercase s) = map_prod id to_ascii_lowercase (read_digits radix s)"
  by (induction s) (auto simp: to_ascii_lowercase_def split: option.splits prod.splits)

lemma read_number_blind: "radix \<le> 36 \<Longrightarrow> case_blind (read_number radix n z b)"
  unfolding case_blind_def
proof
  fix s
  assume "radix \<le> 36"
  note l = read_digits_lower [OF this, of s]
  have "hd (to_ascii_lowercase s) = CHR ''0'' \<longleftrightarrow> hd s = CHR ''0''" if "s \<noteq> []"
    using that lower_eq [of "CHR ''0''" "hd s"] by (simp add: to_ascii_lowercase_def hd_map)
  then show "read_number radix n z b (to_ascii_lowercase s) = map_option (map_prod id to_ascii_lowercase) (read_number radix n z b s)"
    using l by (cases "s = []") (auto simp: read_number_def Let_def split: prod.splits)
qed

lemma read_sep_blind:
  assumes "case_blind rd" "(of_char sep :: nat) < 65"
  shows "case_blind (read_sep sep first rd)"
  unfolding case_blind_def
proof
  fix s
  show "read_sep sep first rd (to_ascii_lowercase s) = map_option (map_prod id to_ascii_lowercase) (read_sep sep first rd s)"
    using case_blindD [OF assms(1), of s] case_blindD [OF assms(1), of "tl s"] lower_eq [OF assms(2)]
    by (cases first; cases s) (simp_all add: read_sep_def)
qed

lemma bind_blind:
  assumes "case_blind rd" "\<And>v. case_blind (f v)"
  shows "case_blind (\<lambda>s. do { (v, r) \<leftarrow> rd s; f v r })"
  unfolding case_blind_def
proof
  fix s
  show "(do { (v, r) \<leftarrow> rd (to_ascii_lowercase s); f v r }) =
      map_option (map_prod id to_ascii_lowercase) (do { (v, r) \<leftarrow> rd s; f v r })"
    using assms by (cases "rd s") (auto simp: case_blind_def split_beta)
qed

lemma return_blind: "case_blind (\<lambda>s. Some (v, s))"
  by (simp add: case_blind_def)

lemma read_octet_blind: "case_blind (read_octet first)"
  using read_sep_blind [OF read_number_blind, of 10 "CHR ''.''"] unfolding read_octet_def [abs_def] by simp

lemma read_ipv4_blind: "case_blind read_ipv4"
  unfolding read_ipv4_def [abs_def] by (intro bind_blind read_octet_blind return_blind)

lemma read_groups_lower:
  "read_groups n first (to_ascii_lowercase s) = (case read_groups n first s of (gs, v4, r) \<Rightarrow> (gs, v4, to_ascii_lowercase r))"
proof (induction n first s rule: read_groups.induct)
  case (2 left first s)
  have v4: "read_sep CHR '':'' first read_ipv4 (to_ascii_lowercase s) =
      map_option (map_prod id to_ascii_lowercase) (read_sep CHR '':'' first read_ipv4 s)"
    using read_sep_blind [OF read_ipv4_blind, of "CHR '':''" first] by (simp add: case_blind_def)
  have hex: "read_sep CHR '':'' first (read_number 16 4 True 65536) (to_ascii_lowercase s) =
      map_option (map_prod id to_ascii_lowercase) (read_sep CHR '':'' first (read_number 16 4 True 65536) s)"
    by (rule case_blindD [OF read_sep_blind [OF read_number_blind]]) simp_all
  show ?case using 2 by (auto simp: v4 hex split: option.splits prod.splits)
qed simp

lemma read_ipv6_blind: "case_blind read_ipv6"
  unfolding case_blind_def
proof
  fix s
  have colons: "take 2 (to_ascii_lowercase r) = ''::'' \<longleftrightarrow> take 2 r = ''::''" for r
    by (cases r; cases "tl r") (auto simp: to_ascii_lowercase_def lower_eq take_Cons')
  have drops: "drop 2 (to_ascii_lowercase r) = to_ascii_lowercase (drop 2 r)" for r
    by (simp add: to_ascii_lowercase_def drop_map)
  show "read_ipv6 (to_ascii_lowercase s) = map_option (map_prod id to_ascii_lowercase) (read_ipv6 s)"
    by (auto simp: read_ipv6_def Let_def read_groups_lower colons drops option.map_comp comp_def split: prod.splits)
qed

lemma parse_ip_lower: "parse_ip (to_ascii_lowercase s) = parse_ip s"
  using read_ipv4_blind read_ipv6_blind unfolding case_blind_def parse_ip_def
  by (auto simp: to_ascii_lowercase_def split: option.splits)

lemma read_digits_consumed:
  "read_digits radix s = (ds, r) \<Longrightarrow> \<exists>p. s = p @ r \<and> length p = length ds \<and> (\<forall>c \<in> set p. digit_val radix c \<noteq> None)"
proof (induction s arbitrary: ds)
  case (Cons c s)
  then show ?case
    by (cases "digit_val radix c") (fastforce split: prod.splits intro: exI [of _ "c # _"])+
qed simp

lemma read_number_consumes:
  assumes "radix \<le> 36"
  shows "consumes (read_number radix n z b)"
  unfolding consumes_def
proof (intro allI impI)
  fix s v r
  assume "read_number radix n z b s = Some (v, r)"
  then obtain ds where "read_digits radix s = (ds, r)" "ds \<noteq> []"
    by (auto simp: read_number_def Let_def split: prod.splits if_splits)
  then obtain p where p: "s = p @ r" "p \<noteq> []" "\<forall>c \<in> set p. digit_val radix c \<noteq> None"
    using read_digits_consumed by fastforce
  have "digit_val radix CHR ''.'' = None" using assms by (auto simp: digit_val_def Let_def)
  then have "last p \<noteq> CHR ''.''" using p(2,3) last_in_set by force
  then show "\<exists>p. s = p @ r \<and> p \<noteq> [] \<and> last p \<noteq> CHR ''.''" using p by blast
qed

lemma read_sep_consumes:
  assumes "consumes rd"
  shows "consumes (read_sep sep first rd)"
  unfolding consumes_def
proof (intro allI impI)
  fix s v r
  assume "read_sep sep first rd s = Some (v, r)"
  then consider "rd s = Some (v, r)" | t where "s = sep # t" "rd t = Some (v, r)"
    by (auto simp: read_sep_def split: if_splits list.splits)
  then show "\<exists>p. s = p @ r \<and> p \<noteq> [] \<and> last p \<noteq> CHR ''.''"
  proof cases
    case 2
    then obtain p where "t = p @ r" "p \<noteq> []" "last p \<noteq> CHR ''.''" using consumesD [OF assms] by blast
    then show ?thesis using 2(1) by (intro exI [of _ "sep # p"]) simp
  qed (use assms in \<open>auto simp: consumes_def\<close>)
qed

lemma bind_consumes:
  assumes "consumes rd" "\<And>v. consumes (f v)"
  shows "consumes (\<lambda>s. do { (v, r) \<leftarrow> rd s; f v r })"
  unfolding consumes_def
proof (intro allI impI)
  fix s w r'
  assume "do { (v, r) \<leftarrow> rd s; f v r } = Some (w, r')"
  then obtain v r where "rd s = Some (v, r)" "f v r = Some (w, r')" by (auto simp: bind_eq_Some_conv)
  then obtain p q where "s = p @ r" "r = q @ r'" "q \<noteq> []" "last q \<noteq> CHR ''.''"
    using assms unfolding consumes_def by blast
  then show "\<exists>p. s = p @ r' \<and> p \<noteq> [] \<and> last p \<noteq> CHR ''.''" by (intro exI [of _ "p @ q"]) simp
qed

lemma last_consumes:
  assumes "consumes rd"
  shows "consumes (\<lambda>s. do { (v, r) \<leftarrow> rd s; Some (g v, r) })"
  using assms by (fastforce simp: consumes_def bind_eq_Some_conv)

lemma read_octet_consumes: "consumes (read_octet first)"
  using read_sep_consumes [OF read_number_consumes] unfolding read_octet_def [abs_def] by simp

lemma read_ipv4_consumes: "consumes read_ipv4"
  unfolding read_ipv4_def [abs_def] by (intro bind_consumes last_consumes read_octet_consumes)

lemma read_groups_consumed:
  "read_groups n first s = (gs, v4, r) \<Longrightarrow> \<exists>p. s = p @ r \<and> (p = [] \<or> last p \<noteq> CHR ''.'')"
proof (induction n first s arbitrary: gs v4 r rule: read_groups.induct)
  case (2 left first s)
  let ?v4 = "if 0 < left then read_sep CHR '':'' first read_ipv4 s else None"
  let ?hex = "read_sep CHR '':'' first (read_number 16 4 True 65536) s"
  have v4: "\<exists>p. s = p @ t \<and> last p \<noteq> CHR ''.''" if "?v4 = Some (a, t)" for a t
    using that consumesD [OF read_sep_consumes [OF read_ipv4_consumes], of _ first s a t] by (auto split: if_splits)
  have hex: "\<exists>p. s = p @ t \<and> p \<noteq> [] \<and> last p \<noteq> CHR ''.''" if "?hex = Some (g, t)" for g t
    using that consumesD [OF read_sep_consumes [OF read_number_consumes [of 16]]] by simp
  show ?case
  proof (cases ?v4)
    case (Some a)
    then show ?thesis using v4 [of "fst a" "snd a"] 2(2) by (auto split: prod.splits)
  next
    case v4n: None
    show ?thesis
    proof (cases ?hex)
      case None
      then show ?thesis using v4n 2(2) by auto
    next
      case (Some gt)
      obtain g t where gt: "gt = (g, t)" by (cases gt)
      obtain gs' v' where rest: "read_groups left False t = (gs', v', r)"
        using 2(2) Some v4n gt by (auto split: prod.splits)
      obtain q where q: "t = q @ r" "q = [] \<or> last q \<noteq> CHR ''.''" using 2(1) [OF v4n Some gt [symmetric] rest] by blast
      obtain p where p: "s = p @ t" "p \<noteq> []" "last p \<noteq> CHR ''.''" using hex Some gt by blast
      then show ?thesis using q by (intro exI [of _ "p @ q"]) (auto simp: last_append)
    qed
  qed
qed simp

lemma read_ipv6_consumed:
  assumes "read_ipv6 s = Some (a, r)"
  shows "\<exists>p. s = p @ r \<and> (p = [] \<or> last p \<noteq> CHR ''.'')"
proof -
  obtain hs h4 s1 where h: "read_groups 8 True s = (hs, h4, s1)" by (metis prod_cases3)
  obtain p where p: "s = p @ s1" "p = [] \<or> last p \<noteq> CHR ''.''" using read_groups_consumed [OF h] by blast
  show ?thesis
  proof (cases "length hs = 8")
    case True
    then show ?thesis using assms h p by (auto simp: read_ipv6_def)
  next
    case False
    obtain ts t4 s2 where t: "read_groups (8 - (length hs + 1)) True (drop 2 s1) = (ts, t4, s2)" by (metis prod_cases3)
    obtain q where q: "drop 2 s1 = q @ s2" "q = [] \<or> last q \<noteq> CHR ''.''" using read_groups_consumed [OF t] by blast
    have "take 2 s1 = ''::''" "r = s2" using assms h t False by (auto simp: read_ipv6_def Let_def split: if_splits)
    then have "s1 = ''::'' @ q @ r" using q(1) by (metis append_take_drop_id)
    then show ?thesis using p(1) q(2) by (intro exI [of _ "p @ ''::'' @ q"]) auto
  qed
qed

lemma parse_ip_no_dot:
  assumes "parse_ip s = Some ip"
  shows "s = [] \<or> last s \<noteq> CHR ''.''"
proof (cases "read_ipv4 s")
  case (Some vr)
  then have "read_ipv4 s = Some (fst vr, [])" using assms by (auto simp: parse_ip_def split: if_splits prod.splits)
  from consumesD [OF read_ipv4_consumes this] show ?thesis by auto
next
  case None
  then obtain a where "read_ipv6 s = Some (a, [])"
    using assms by (auto simp: parse_ip_def split: option.splits if_splits)
  then show ?thesis using read_ipv6_consumed by fastforce
qed

lemma trim_end_matches_id: "s = [] \<or> last s \<noteq> c \<Longrightarrow> trim_end_matches c s = s"
  by (cases s rule: rev_cases) (auto simp: trim_end_matches_def)

lemma trim_matches_id:
  assumes "\<forall>c \<in> set s. \<not> p c"
  shows "trim_matches p s = s"
proof -
  have "dropWhile p t = t" if "\<forall>c \<in> set t. \<not> p c" for t using that by (cases t) auto
  from this [of s] this [of "rev s"] show ?thesis using assms by (simp add: trim_matches_def)
qed

text \<open>The host name of an address literal is a literal of the same address.\<close>

lemma normalize_literal:
  assumes "parse_ip (trim s) = Some ip" "CHR ''['' \<notin> set (trim s)" "CHR '']'' \<notin> set (trim s)"
  shows "parse_ip (normalize_host s) = Some ip"
proof -
  let ?t = "to_ascii_lowercase (trim s)"
  have "parse_ip ?t = Some ip" using assms(1) by (simp add: parse_ip_lower)
  moreover from this have "trim_end_matches CHR ''.'' ?t = ?t" by (intro trim_end_matches_id parse_ip_no_dot)
  moreover have "trim_matches (\<lambda>c. c = CHR ''['' \<or> c = CHR '']'') (trim s) = trim s"
    using assms(2,3) by (intro trim_matches_id) auto
  ultimately show ?thesis by (simp add: normalize_host_def Let_def)
qed

section \<open>Facts about the classes\<close>

lemma public_mapped:
  "is_public_egress_ip (to_ipv6_mapped (V4 a b c d)) = is_public_egress_ip (V4 a b c d)"
  by simp

lemma opt_in_mapped:
  "is_opt_in_private_ip (to_ipv6_mapped (V4 a b c d)) = is_opt_in_private_ip (V4 a b c d)"
  by simp

end
