(* ===== verification/Control.thy ===== *)
theory Control
  imports Prelude
begin

text \<open>
  The control state machine of \<open>crates/pvisor-core/src/policy.rs\<close>: a request is
  authorised once, by a controller, and its decision is then applied or fails to apply.
  The reason and effect enumerations are those of \<open>crates/pvisor-core/src/execution.rs\<close>.
\<close>

section \<open>Data\<close>

datatype access_effect = EffectAllow | EffectDeny

datatype access_reason =
    AmbientNetwork | TrustedLocal | NetworkAllowList | NetworkDenied | NetworkAllowListEmpty
  | HostNotAllowed | PortNotAllowed | TransportNotAllowed | ResolvedAddressNotAllowed
  | ExplicitlyDenied | ModelAllowed | ModelNotAllowed | ProviderNotAllowed

fun access_reason_code :: "access_reason \<Rightarrow> rstr" where
  "access_reason_code AmbientNetwork = ''ambient-network''"
| "access_reason_code TrustedLocal = ''trusted-local''"
| "access_reason_code NetworkAllowList = ''network-allowlist''"
| "access_reason_code NetworkDenied = ''network-denied''"
| "access_reason_code NetworkAllowListEmpty = ''network-allowlist-empty''"
| "access_reason_code HostNotAllowed = ''host-not-allowed''"
| "access_reason_code PortNotAllowed = ''port-not-allowed''"
| "access_reason_code TransportNotAllowed = ''transport-not-allowed''"
| "access_reason_code ResolvedAddressNotAllowed = ''resolved-address-not-allowed''"
| "access_reason_code ExplicitlyDenied = ''explicitly-denied''"
| "access_reason_code ModelAllowed = ''model-allowed''"
| "access_reason_code ModelNotAllowed = ''model-not-allowed''"
| "access_reason_code ProviderNotAllowed = ''provider-not-allowed''"

datatype control_state =
    Requested | Allowed | Denied | Applied access_effect | Failed access_effect

record control_transition =
  tr_from :: control_state
  tr_to :: control_state
  tr_reason :: access_reason

record control_machine =
  cm_state :: control_state
  cm_history :: "control_transition list"

datatype control_error =
    AlreadyAuthorized control_state
  | InvalidAuthorization control_state control_state
  | NotAuthorized
  | CannotApply control_state
  | StateMismatch control_state control_state

section \<open>Transitions\<close>

definition tr_allowed :: "access_reason \<Rightarrow> control_transition" where
  "tr_allowed r = \<lparr>tr_from = Requested, tr_to = Allowed, tr_reason = r\<rparr>"

definition tr_denied :: "access_reason \<Rightarrow> control_transition" where
  "tr_denied r = \<lparr>tr_from = Requested, tr_to = Denied, tr_reason = r\<rparr>"

definition is_allowed :: "control_transition \<Rightarrow> bool" where
  "is_allowed t \<longleftrightarrow> tr_to t = Allowed \<or> tr_to t = Applied EffectAllow"

definition tr_follow :: "control_transition \<Rightarrow> bool \<Rightarrow> control_error + control_transition" where
  "tr_follow t applied =
     bind_res
       (case tr_to t of
          Allowed \<Rightarrow> Inr EffectAllow
        | Denied \<Rightarrow> Inr EffectDeny
        | s \<Rightarrow> Inl (CannotApply s))
       (\<lambda>effect. Inr \<lparr>tr_from = tr_to t,
                       tr_to = (if applied then Applied effect else Failed effect),
                       tr_reason = tr_reason t\<rparr>)"

definition tr_applied :: "control_transition \<Rightarrow> control_error + control_transition" where
  "tr_applied t = tr_follow t True"

definition tr_failed :: "control_transition \<Rightarrow> control_error + control_transition" where
  "tr_failed t = tr_follow t False"

section \<open>The machine\<close>

definition cm_new :: control_machine where
  "cm_new = \<lparr>cm_state = Requested, cm_history = []\<rparr>"

definition cm_commit ::
  "control_machine \<Rightarrow> control_transition \<Rightarrow> control_error + (control_transition \<times> control_machine)" where
  "cm_commit m t =
     (if tr_from t \<noteq> cm_state m then Inl (StateMismatch (cm_state m) (tr_from t))
      else Inr (t, m\<lparr>cm_state := tr_to t, cm_history := cm_history m @ [t]\<rparr>))"

definition cm_authorize ::
  "('r \<Rightarrow> control_transition) \<Rightarrow> 'r \<Rightarrow> control_machine
     \<Rightarrow> control_error + (control_transition \<times> control_machine)" where
  "cm_authorize controller request m =
     (if cm_state m \<noteq> Requested then Inl (AlreadyAuthorized (cm_state m))
      else
        (let t = controller request in
         if tr_from t \<noteq> Requested \<or> \<not> (tr_to t = Allowed \<or> tr_to t = Denied)
         then Inl (InvalidAuthorization (tr_from t) (tr_to t))
         else cm_commit m t))"

definition cm_applied ::
  "control_machine \<Rightarrow> control_error + (control_transition \<times> control_machine)" where
  "cm_applied m =
     (if cm_history m = [] then Inl NotAuthorized
      else bind_res (tr_applied (last (cm_history m))) (cm_commit m))"

definition cm_failed ::
  "control_machine \<Rightarrow> control_error + (control_transition \<times> control_machine)" where
  "cm_failed m =
     (if cm_history m = [] then Inl NotAuthorized
      else bind_res (tr_failed (last (cm_history m))) (cm_commit m))"

lemmas cm_op_defs = cm_authorize_def cm_applied_def cm_failed_def cm_commit_def
  tr_applied_def tr_failed_def tr_follow_def Let_def

lemma is_allowed_simps [simp]:
  "is_allowed (tr_allowed r)" "\<not> is_allowed (tr_denied r)"
  by (simp_all add: is_allowed_def tr_allowed_def tr_denied_def)

lemma tr_select [simp]:
  "tr_reason (tr_allowed r) = r" "tr_reason (tr_denied r) = r"
  "tr_from (tr_allowed r) = Requested" "tr_from (tr_denied r) = Requested"
  "tr_to (tr_allowed r) = Allowed" "tr_to (tr_denied r) = Denied"
  by (simp_all add: tr_allowed_def tr_denied_def)

section \<open>Steps and reachable machines\<close>

inductive cm_step ::
  "('r \<Rightarrow> control_transition) \<Rightarrow> control_machine \<Rightarrow> control_machine \<Rightarrow> bool"
  for controller :: "'r \<Rightarrow> control_transition" where
  authorize: "cm_authorize controller request m = Inr (t, m') \<Longrightarrow> cm_step controller m m'"
| applied: "cm_applied m = Inr (t, m') \<Longrightarrow> cm_step controller m m'"
| failed: "cm_failed m = Inr (t, m') \<Longrightarrow> cm_step controller m m'"

inductive_cases cm_stepE: "cm_step controller m m'"

text \<open>
  What a run can look like: nothing yet; one decision; or one decision followed by its own
  effect, applied or failed, with the reason of the decision.
\<close>

definition decision :: "control_transition \<Rightarrow> bool" where
  "decision t \<longleftrightarrow> tr_from t = Requested \<and> (tr_to t = Allowed \<or> tr_to t = Denied)"

definition effect_of :: "control_transition \<Rightarrow> access_effect" where
  "effect_of t = (if tr_to t = Allowed then EffectAllow else EffectDeny)"

definition outcome_of :: "control_transition \<Rightarrow> control_transition \<Rightarrow> bool" where
  "outcome_of d t \<longleftrightarrow>
     tr_from t = tr_to d \<and> tr_reason t = tr_reason d
     \<and> (tr_to t = Applied (effect_of d) \<or> tr_to t = Failed (effect_of d))"

definition cm_inv :: "control_machine \<Rightarrow> bool" where
  "cm_inv m =
     (case cm_history m of
        [] \<Rightarrow> cm_state m = Requested
      | [d] \<Rightarrow> decision d \<and> cm_state m = tr_to d
      | [d, t] \<Rightarrow> decision d \<and> outcome_of d t \<and> cm_state m = tr_to t
      | _ \<Rightarrow> False)"

lemma cm_inv_cases:
  assumes "cm_inv m"
  obtains (fresh) "cm_history m = []" "cm_state m = Requested"
  | (decided) d where "cm_history m = [d]" "decision d" "cm_state m = tr_to d"
  | (settled) d t where "cm_history m = [d, t]" "decision d" "outcome_of d t" "cm_state m = tr_to t"
  using assms unfolding cm_inv_def by (auto split: list.splits)

lemma cm_authorize_inv:
  "cm_inv m \<Longrightarrow> cm_authorize c r m = Inr (t, m') \<Longrightarrow> cm_inv m'"
  by (erule cm_inv_cases)
     (auto simp: cm_op_defs cm_inv_def decision_def outcome_of_def split: if_splits)

lemma cm_applied_inv:
  "cm_inv m \<Longrightarrow> cm_applied m = Inr (t, m') \<Longrightarrow> cm_inv m'"
  by (erule cm_inv_cases)
     (auto simp: cm_op_defs cm_inv_def decision_def outcome_of_def effect_of_def
           split: if_splits)

lemma cm_failed_inv:
  "cm_inv m \<Longrightarrow> cm_failed m = Inr (t, m') \<Longrightarrow> cm_inv m'"
  by (erule cm_inv_cases)
     (auto simp: cm_op_defs cm_inv_def decision_def outcome_of_def effect_of_def
           split: if_splits)

lemma cm_inv_new: "cm_inv cm_new"
  by (simp add: cm_inv_def cm_new_def)

lemma cm_step_inv: "cm_step controller m m' \<Longrightarrow> cm_inv m \<Longrightarrow> cm_inv m'"
  by (erule cm_stepE) (blast intro: cm_authorize_inv cm_applied_inv cm_failed_inv)+

interpretation control: state_machine "\<lambda>m. m = cm_new" "cm_step controller" cm_inv
  for controller :: "'r \<Rightarrow> control_transition"
  by unfold_locales (blast intro: cm_inv_new cm_step_inv)+

section \<open>The controller interface\<close>

text \<open>
  \<open>trait ControlController\<close>: what the machine expects of a controller on the requests it
  is asked about. A controller that keeps the contract is never rejected by a fresh machine,
  and its decision is the transition the machine records.
\<close>

locale control_controller =
  fixes valid :: "'r \<Rightarrow> bool"
    and decide :: "'r \<Rightarrow> control_transition"
  assumes decides: "valid r \<Longrightarrow> decision (decide r)"
begin

lemma machine_accepts:
  "valid r \<Longrightarrow> cm_authorize decide r cm_new
   = Inr (decide r, \<lparr>cm_state = tr_to (decide r), cm_history = [decide r]\<rparr>)"
  using decides [of r] by (auto simp: cm_op_defs cm_new_def decision_def)

lemma allowed_or_denied:
  "valid r \<Longrightarrow> is_allowed (decide r) \<longleftrightarrow> tr_to (decide r) \<noteq> Denied"
  using decides [of r] by (auto simp: decision_def is_allowed_def)

end

section \<open>Properties\<close>

text \<open>
  C23. Whatever the controller answers and however the three operations are called, a control
  machine has made at most one decision, on a requested operation, and at most one report of
  its effect, which has the reason of the decision and the effect the decision implies: an
  effect is never applied without a decision, and never applied twice.
\<close>

theorem control_history_shape:
  assumes "(cm_step controller)\<^sup>*\<^sup>* cm_new m"
  shows "case cm_history m of
           [] \<Rightarrow> cm_state m = Requested
         | [d] \<Rightarrow> decision d \<and> cm_state m = tr_to d
         | [d, t] \<Rightarrow> decision d \<and> outcome_of d t \<and> cm_state m = tr_to t
         | _ \<Rightarrow> False"
  using control.inv_reachable [OF refl assms] by (simp add: cm_inv_def)

theorem control_history_shape_witness:
  "\<exists>m d t. (cm_step (\<lambda>_::unit. tr_denied NetworkDenied))\<^sup>*\<^sup>* cm_new m
     \<and> cm_history m = [d, t] \<and> outcome_of d t \<and> cm_state m = Applied EffectDeny"
proof -
  let ?d = "tr_denied NetworkDenied"
  let ?t = "\<lparr>tr_from = Denied, tr_to = Applied EffectDeny, tr_reason = NetworkDenied\<rparr>"
  let ?m1 = "\<lparr>cm_state = Denied, cm_history = [?d]\<rparr>"
  let ?m2 = "\<lparr>cm_state = Applied EffectDeny, cm_history = [?d, ?t]\<rparr>"
  have "cm_authorize (\<lambda>_::unit. ?d) () cm_new = Inr (?d, ?m1)" "cm_applied ?m1 = Inr (?t, ?m2)"
    by code_simp+
  then have "cm_step (\<lambda>_::unit. ?d) cm_new ?m1" "cm_step (\<lambda>_::unit. ?d) ?m1 ?m2"
    by (auto intro: cm_step.intros)
  then have r: "(cm_step (\<lambda>_::unit. ?d))\<^sup>*\<^sup>* cm_new ?m2" by simp
  show ?thesis
    using r control_history_shape [OF r] by auto
qed

end
