(* ===== verification/Net_Policy.thy ===== *)
theory Net_Policy
  imports Net_Addr Control
begin

text \<open>
  The network guard of \<open>crates/pvisor-core/src/policy.rs\<close>: compilation of the declared
  capability into rules, and the authorisation of one request against a compiled guard. The
  declared data is that of \<open>execution.rs\<close> and \<open>session.rs\<close> of the same crate.

  CIDR blocks are values of the third-party crate \<open>ipnet\<close>; its operations are the fields
  of an \<open>ipnet_ops\<close> record, a parameter of every definition that uses them.
\<close>

section \<open>Declared data\<close>

datatype policy_scope = User | Workspace | Session

fun scope_rank :: "policy_scope \<Rightarrow> nat" where
  "scope_rank User = 0" | "scope_rank Workspace = 1" | "scope_rank Session = 2"

lemma scope_rank_inj [simp]: "scope_rank s = scope_rank t \<longleftrightarrow> s = t"
  by (cases s; cases t) simp_all

instantiation policy_scope :: linorder
begin

definition less_eq_policy_scope :: "policy_scope \<Rightarrow> policy_scope \<Rightarrow> bool" where
  "less_eq_policy_scope s t \<longleftrightarrow> scope_rank s \<le> scope_rank t"

definition less_policy_scope :: "policy_scope \<Rightarrow> policy_scope \<Rightarrow> bool" where
  "less_policy_scope s t \<longleftrightarrow> scope_rank s < scope_rank t"

instance
  by standard (auto simp: less_eq_policy_scope_def less_policy_scope_def)

end

datatype network_transport = Http | Https | TcpTunnel

datatype network_default_action = ActionAllow | ActionDeny

record network_access_rule =
  nar_host :: rstr
  nar_ports :: "u16 list"
  nar_transports :: "network_transport list"
  nar_allow_private_ips :: bool

record network_bandwidth_limit =
  nbl_host :: "rstr option"
  nbl_port :: "u16 option"
  nbl_bytes_per_second :: u64

record network_access_request =
  req_run_id :: "rstr option"
  req_execution_id :: "rstr option"
  req_host :: rstr
  req_port :: "u16 option"
  req_transport :: network_transport
  req_resolved_ip :: "ip_addr option"

record network_policy_layer =
  npl_default_action :: "network_default_action option"
  npl_allow :: "network_access_rule list"
  npl_deny :: "network_access_rule list"
  npl_limits :: "network_bandwidth_limit list"

datatype network_capability =
    Scoped "(policy_scope \<times> network_policy_layer) list" network_capability
  | Ambient
  | Deny
  | AllowList "rstr list" "network_access_rule list"
  | Policy network_default_action "network_access_rule list" "network_access_rule list"
      "network_bandwidth_limit list"

fun is_scoped :: "network_capability \<Rightarrow> bool" where
  "is_scoped (Scoped _ _) = True"
| "is_scoped _ = False"

record model_call_request =
  mcr_call_id :: rstr
  mcr_client_model :: rstr
  mcr_upstream_model :: rstr
  mcr_provider :: rstr
  mcr_protocol :: rstr
  mcr_upstream_host :: rstr

record model_access_policy =
  map_allowed_models :: "rstr list"
  map_allowed_providers :: "rstr list"

section \<open>Compiled data\<close>

record 'n ipnet_ops =
  ipnet_from_str :: "rstr \<Rightarrow> 'n option"
  ipnet_addr :: "'n \<Rightarrow> ip_addr"
  ipnet_contains :: "'n \<Rightarrow> ip_addr \<Rightarrow> bool"

datatype 'n network_host_rule =
    Exact rstr
  | WildcardSuffix rstr
  | Ip ip_addr
  | Cidr 'n

record 'n network_rule =
  nr_host :: "'n network_host_rule"
  nr_ports :: "u16 list"
  nr_transports :: "network_transport list"
  nr_allow_private_ips :: bool

datatype network_match_failure =
  MatchEmpty | MatchHost | MatchPort | MatchTransport | MatchResolvedAddress

record network_host =
  nh_name :: rstr
  nh_ip :: "ip_addr option"

datatype 'n network_guard =
  NetworkGuard
    (ng_capability: network_capability)
    (ng_rules: "'n network_rule list")
    (ng_deny_rules: "'n network_rule list")
    (ng_trusted_hosts: "rstr list")
    (ng_scopes: "(policy_scope \<times> 'n network_guard) list")
    (ng_fallback: "'n network_guard option")

datatype policy_error =
    ZeroPort
  | EmptyEntry
  | NotAHostEntry rstr
  | EntryHasPort rstr
  | BadWildcard rstr
  | UnsupportedWildcard
  | BadHostname rstr
  | DuplicateScopes
  | FallbackNotLeaf
  | AllowEntriesNeedAllowlist
  | ZeroBandwidth
  | ZeroLimitPort
  | NotExactHost
  | ExplicitDenyNotOverridable
  | PortRequired
  | DeniedNotExtensible
  | NotAnAllowlist

section \<open>Compiling rules\<close>

definition network_host_new :: "rstr \<Rightarrow> network_host" where
  "network_host_new host =
     (let name = normalize_host host in \<lparr>nh_name = name, nh_ip = parse_ip name\<rparr>)"

definition parse_network_host_rule ::
  "'n ipnet_ops \<Rightarrow> rstr \<Rightarrow> policy_error + 'n network_host_rule" where
  "parse_network_host_rule N raw =
     (let entry = trim raw in
      if entry = [] then Inl EmptyEntry
      else if contains_str entry ''://'' \<or> CHR '']'' \<in> set entry \<or> CHR ''['' \<in> set entry
      then Inl (NotAHostEntry entry)
      else if CHR ''/'' \<in> set entry \<and> ipnet_from_str N entry = None
      then Inl (NotAHostEntry entry)
      else if (case rsplit_once CHR '':'' entry of
                 None \<Rightarrow> False
               | Some (host, port) \<Rightarrow>
                   host \<noteq> [] \<and> list_all is_ascii_digit port \<and> CHR ''/'' \<notin> set entry
                   \<and> parse_ip host = None \<and> CHR '':'' \<notin> set host)
      then Inl (EntryHasPort entry)
      else
        (case strip_prefix ''*.'' entry of
           Some suffix \<Rightarrow>
             (let suffix = normalize_host suffix in
              if suffix = [] \<or> CHR ''*'' \<in> set suffix \<or> parse_ip suffix \<noteq> None
              then Inl (BadWildcard entry) else Inr (WildcardSuffix suffix))
         | None \<Rightarrow>
             if CHR ''*'' \<in> set entry then Inl UnsupportedWildcard
             else
               (case ipnet_from_str N entry of
                  Some network \<Rightarrow>
                    if CHR ''/'' \<in> set entry then Inr (Cidr network)
                    else Inr (Ip (ipnet_addr N network))
                | None \<Rightarrow>
                    (case parse_ip entry of
                       Some ip \<Rightarrow> Inr (Ip ip)
                     | None \<Rightarrow>
                         (let host = normalize_host entry in
                          if host = [] \<or> CHR '':'' \<in> set host then Inl (BadHostname entry)
                          else Inr (Exact host))))))"

definition compile_network_rule ::
  "'n ipnet_ops \<Rightarrow> network_access_rule \<Rightarrow> policy_error + 'n network_rule" where
  "compile_network_rule N rule =
     (if 0 \<in> set (nar_ports rule) then Inl ZeroPort
      else
        (let ports = remdups_adj (sort (nar_ports rule));
             transports = remdups_adj (nar_transports rule)
         in bind_res (parse_network_host_rule N (nar_host rule))
              (\<lambda>host. Inr \<lparr>nr_host = host, nr_ports = ports, nr_transports = transports,
                            nr_allow_private_ips = nar_allow_private_ips rule\<rparr>)))"

definition parse_network_rule :: "'n ipnet_ops \<Rightarrow> rstr \<Rightarrow> policy_error + 'n network_rule" where
  "parse_network_rule N raw =
     compile_network_rule N \<lparr>nar_host = raw, nar_ports = [], nar_transports = [],
                              nar_allow_private_ips = False\<rparr>"

section \<open>Compiling a guard\<close>

fun compile_allow :: "'n ipnet_ops \<Rightarrow> network_capability \<Rightarrow> policy_error + 'n network_rule list" where
  "compile_allow N (AllowList hosts rules) =
     bind_res (collect_res (parse_network_rule N) hosts)
       (\<lambda>compiled. bind_res (collect_res (compile_network_rule N) rules)
          (\<lambda>more. Inr (compiled @ more)))"
| "compile_allow N (Policy _ allow _ _) = collect_res (compile_network_rule N) allow"
| "compile_allow N _ = Inr []"

fun compile_deny :: "'n ipnet_ops \<Rightarrow> network_capability \<Rightarrow> policy_error + 'n network_rule list" where
  "compile_deny N (Policy _ _ deny _) = collect_res (compile_network_rule N) deny"
| "compile_deny N _ = Inr []"

text \<open>
  The part of \<open>NetworkGuard::compile\<close> after the scopes are known. A layer is compiled as a
  \<open>Policy\<close>, and the fallback only once it is known to be a leaf, so the recursive calls of
  the source are calls with no scopes and no fallback.
\<close>

definition compile_parts ::
  "'n ipnet_ops \<Rightarrow> network_capability \<Rightarrow> rstr list \<Rightarrow> (policy_scope \<times> 'n network_guard) list
     \<Rightarrow> 'n network_guard option \<Rightarrow> policy_error + 'n network_guard" where
  "compile_parts N capability trusted scopes fallback =
     bind_res (compile_allow N capability)
       (\<lambda>rules. bind_res (compile_deny N capability)
          (\<lambda>deny_rules. Inr (NetworkGuard capability rules deny_rules
                                (map normalize_host trusted) scopes fallback)))"

definition layer_capability :: "network_policy_layer \<Rightarrow> network_capability" where
  "layer_capability layer =
     Policy (case npl_default_action layer of None \<Rightarrow> ActionDeny | Some a \<Rightarrow> a)
       (npl_allow layer) (npl_deny layer) (npl_limits layer)"

definition compile_layer ::
  "'n ipnet_ops \<Rightarrow> rstr list \<Rightarrow> policy_scope \<times> network_policy_layer
     \<Rightarrow> policy_error + (policy_scope \<times> 'n network_guard)" where
  "compile_layer N trusted sl =
     bind_res (compile_parts N (layer_capability (snd sl)) trusted [] None)
       (\<lambda>guard. Inr (fst sl, guard))"

definition sort_scopes :: "(policy_scope \<times> 'a) list \<Rightarrow> (policy_scope \<times> 'a) list" where
  "sort_scopes = sort_key (\<lambda>sl. 2 - scope_rank (fst sl))"

definition guard_compile ::
  "'n ipnet_ops \<Rightarrow> network_capability \<Rightarrow> rstr list \<Rightarrow> policy_error + 'n network_guard" where
  "guard_compile N capability trusted =
     (case capability of
        Scoped layers fallback \<Rightarrow>
          bind_res (collect_res (compile_layer N trusted) layers)
            (\<lambda>compiled.
               let scopes = sort_scopes compiled in
               bind_res (ensure (successively (\<lambda>a b. fst a \<noteq> fst b) scopes) DuplicateScopes)
                 (\<lambda>_. bind_res (ensure (\<not> is_scoped fallback) FallbackNotLeaf)
                    (\<lambda>_. bind_res (compile_parts N fallback trusted [] None)
                       (\<lambda>fb. compile_parts N capability trusted scopes (Some fb)))))
      | _ \<Rightarrow> compile_parts N capability trusted [] None)"

section \<open>Matching\<close>

definition canonical_ip :: "ip_addr \<Rightarrow> ip_addr" where
  "canonical_ip ip = (case to_ipv4_mapped ip of Some v4 \<Rightarrow> v4 | None \<Rightarrow> ip)"

definition matches_ip :: "'n ipnet_ops \<Rightarrow> 'n network_rule \<Rightarrow> ip_addr \<Rightarrow> bool" where
  "matches_ip N rule ip =
     (case nr_host rule of
        Ip allowed \<Rightarrow> canonical_ip ip = canonical_ip allowed
      | Cidr network \<Rightarrow>
          (let ip = canonical_ip ip in
           ipnet_contains N network ip
           \<or> (case ip of V4 _ _ _ _ \<Rightarrow> ipnet_contains N network (to_ipv6_mapped ip) | _ \<Rightarrow> False))
      | _ \<Rightarrow> False)"

definition matches_host ::
  "'n ipnet_ops \<Rightarrow> 'n network_rule \<Rightarrow> network_host \<Rightarrow> ip_addr option \<Rightarrow> bool" where
  "matches_host N rule host resolved_ip =
     (case nr_host rule of
        Exact allowed \<Rightarrow> nh_name host = allowed
      | WildcardSuffix suffix \<Rightarrow>
          ends_with (nh_name host) suffix
          \<and> length suffix < length (nh_name host)
          \<and> nh_name host ! (length (nh_name host) - length suffix - 1) = CHR ''.''
      | _ \<Rightarrow> list_ex (matches_ip N rule)
               (case_option [] (\<lambda>a. [a]) (nh_ip host) @ case_option [] (\<lambda>a. [a]) resolved_ip))"

definition matches_port :: "'n network_rule \<Rightarrow> u16 option \<Rightarrow> bool" where
  "matches_port rule port \<longleftrightarrow>
     nr_ports rule = [] \<or> (case port of None \<Rightarrow> False | Some p \<Rightarrow> p \<in> set (nr_ports rule))"

definition matches_transport :: "'n network_rule \<Rightarrow> network_transport \<Rightarrow> bool" where
  "matches_transport rule transport \<longleftrightarrow>
     nr_transports rule = [] \<or> transport \<in> set (nr_transports rule)"

definition allows_resolved_address :: "'n ipnet_ops \<Rightarrow> 'n network_rule \<Rightarrow> ip_addr option \<Rightarrow> bool" where
  "allows_resolved_address N rule resolved_ip =
     (case resolved_ip of
        None \<Rightarrow> True
      | Some ip \<Rightarrow>
          (case nr_host rule of
             Ip _ \<Rightarrow> matches_ip N rule ip
           | Cidr _ \<Rightarrow> matches_ip N rule ip
           | _ \<Rightarrow> is_public_egress_ip ip
                  \<or> (nr_allow_private_ips rule \<and> is_opt_in_private_ip ip)))"

fun evaluate_loop ::
  "'n ipnet_ops \<Rightarrow> network_access_request \<Rightarrow> network_host \<Rightarrow> bool \<Rightarrow> 'n network_rule list
     \<Rightarrow> bool \<Rightarrow> bool \<Rightarrow> bool \<Rightarrow> (bool \<times> bool \<times> bool) + unit" where
  "evaluate_loop N request host enforce [] hm pm tm = Inl (hm, pm, tm)"
| "evaluate_loop N request host enforce (rule # rules) hm pm tm =
     (if \<not> matches_host N rule host (req_resolved_ip request)
      then evaluate_loop N request host enforce rules hm pm tm
      else if \<not> matches_port rule (req_port request)
      then evaluate_loop N request host enforce rules True pm tm
      else if \<not> matches_transport rule (req_transport request)
      then evaluate_loop N request host enforce rules True True tm
      else if \<not> enforce \<or> allows_resolved_address N rule (req_resolved_ip request)
      then Inr ()
      else evaluate_loop N request host enforce rules True True True)"

definition evaluate_rules ::
  "'n ipnet_ops \<Rightarrow> 'n network_rule list \<Rightarrow> network_access_request \<Rightarrow> network_host \<Rightarrow> bool
     \<Rightarrow> network_match_failure + unit" where
  "evaluate_rules N rules request host enforce =
     (if rules = [] then Inl MatchEmpty
      else
        (case evaluate_loop N request host enforce rules False False False of
           Inr u \<Rightarrow> Inr u
         | Inl (host_matched, port_matched, transport_matched) \<Rightarrow>
             Inl (if \<not> host_matched
                  then (if req_resolved_ip request \<noteq> None then MatchResolvedAddress else MatchHost)
                  else if \<not> port_matched then MatchPort
                  else if \<not> transport_matched then MatchTransport
                  else MatchResolvedAddress)))"

definition host_matches :: "'n ipnet_ops \<Rightarrow> rstr \<Rightarrow> 'n network_rule list \<Rightarrow> bool" where
  "host_matches N host rules =
     (if rules = [] then False
      else list_ex (\<lambda>rule. matches_host N rule (network_host_new host) None) rules)"

section \<open>Authorisation\<close>

fun guard_denied :: "'n ipnet_ops \<Rightarrow> network_access_request \<Rightarrow> network_host \<Rightarrow> 'n network_guard \<Rightarrow> bool"
where
  "guard_denied N request host (NetworkGuard c rs ds ts scopes fallback) \<longleftrightarrow>
     evaluate_rules N ds request host False = Inr ()
     \<or> (\<exists>sg \<in> set scopes. guard_denied N request host (snd sg))
     \<or> (case fallback of None \<Rightarrow> False | Some g \<Rightarrow> guard_denied N request host g)"

definition is_trusted :: "'n network_guard \<Rightarrow> network_host \<Rightarrow> bool" where
  "is_trusted g host \<longleftrightarrow> nh_name host \<in> set (ng_trusted_hosts g)"

fun match_reason :: "network_match_failure \<Rightarrow> access_reason" where
  "match_reason MatchEmpty = NetworkAllowListEmpty"
| "match_reason MatchHost = HostNotAllowed"
| "match_reason MatchPort = PortNotAllowed"
| "match_reason MatchTransport = TransportNotAllowed"
| "match_reason MatchResolvedAddress = ResolvedAddressNotAllowed"

text \<open>The final \<open>match policy.capability()\<close> of a guard without scopes.\<close>

definition authorize_leaf ::
  "'n ipnet_ops \<Rightarrow> network_access_request \<Rightarrow> network_host \<Rightarrow> 'n network_guard \<Rightarrow> control_transition" where
  "authorize_leaf N request host g =
     (case ng_capability g of
        Scoped _ _ \<Rightarrow> unreachable
      | Ambient \<Rightarrow> tr_allowed AmbientNetwork
      | Deny \<Rightarrow> tr_denied NetworkDenied
      | AllowList _ _ \<Rightarrow>
          (case evaluate_rules N (ng_rules g) request host True of
             Inr _ \<Rightarrow> tr_allowed NetworkAllowList
           | Inl failure \<Rightarrow> tr_denied (match_reason failure))
      | Policy ActionAllow _ _ _ \<Rightarrow>
          (if list_ex (\<lambda>rule. matches_host N rule host None) (ng_rules g)
           then (case evaluate_rules N (ng_rules g) request host True of
                   Inr _ \<Rightarrow> tr_allowed NetworkAllowList
                 | Inl MatchPort \<Rightarrow> tr_denied PortNotAllowed
                 | Inl MatchTransport \<Rightarrow> tr_denied TransportNotAllowed
                 | Inl MatchResolvedAddress \<Rightarrow> tr_denied ResolvedAddressNotAllowed
                 | _ \<Rightarrow> tr_denied HostNotAllowed)
           else tr_allowed AmbientNetwork)
      | Policy ActionDeny _ _ _ \<Rightarrow>
          (case evaluate_rules N (ng_rules g) request host True of
             Inr _ \<Rightarrow> tr_allowed NetworkAllowList
           | Inl failure \<Rightarrow> tr_denied (match_reason failure)))"

fun authorize_network_with_host ::
  "'n ipnet_ops \<Rightarrow> network_access_request \<Rightarrow> network_host \<Rightarrow> 'n network_guard \<Rightarrow> control_transition" where
  "authorize_network_with_host N request host (NetworkGuard c rs ds ts scopes fallback) =
     (if guard_denied N request host (NetworkGuard c rs ds ts scopes fallback)
      then tr_denied ExplicitlyDenied
      else
        (case fallback of
           Some fb \<Rightarrow>
             (case find (\<lambda>d. \<not> is_allowed d)
                     (map (\<lambda>sg. authorize_network_with_host N request host (snd sg)) scopes) of
                Some refusal \<Rightarrow> refusal
              | None \<Rightarrow>
                  (let d = authorize_network_with_host N request host fb in
                   if is_allowed d \<and> scopes \<noteq> [] then tr_allowed NetworkAllowList else d))
         | None \<Rightarrow>
             if is_trusted (NetworkGuard c rs ds ts scopes fallback) host
             then tr_allowed TrustedLocal
             else authorize_leaf N request host (NetworkGuard c rs ds ts scopes fallback)))"

definition authorize_network ::
  "'n ipnet_ops \<Rightarrow> 'n network_guard \<Rightarrow> network_access_request \<Rightarrow> control_transition" where
  "authorize_network N g request =
     authorize_network_with_host N request (network_host_new (req_host request)) g"

section \<open>Model access\<close>

definition model_matches :: "rstr \<Rightarrow> rstr \<Rightarrow> bool" where
  "model_matches pattern model =
     (if pattern = ''*'' then True
      else
        (case strip_suffix ''*'' pattern of
           Some prefix \<Rightarrow> prefix \<noteq> [] \<and> starts_with model prefix
         | None \<Rightarrow>
             (case strip_prefix ''*'' pattern of
                Some suffix \<Rightarrow> suffix \<noteq> [] \<and> ends_with model suffix
              | None \<Rightarrow> pattern = model)))"

definition authorize_model :: "model_access_policy \<Rightarrow> model_call_request \<Rightarrow> control_transition" where
  "authorize_model policy request =
     (if \<not> list_ex (\<lambda>p. model_matches p (mcr_client_model request)
                       \<or> model_matches p (mcr_upstream_model request)) (map_allowed_models policy)
      then tr_denied ModelNotAllowed
      else if map_allowed_providers policy \<noteq> []
              \<and> \<not> list_ex (\<lambda>p. eq_ignore_ascii_case p (mcr_provider request))
                    (map_allowed_providers policy)
      then tr_denied ProviderNotAllowed
      else tr_allowed ModelAllowed)"

datatype 'n control_request =
    NetworkRequest "'n network_guard" network_access_request
  | ModelRequest model_access_policy model_call_request

fun policy_controller :: "'n ipnet_ops \<Rightarrow> 'n control_request \<Rightarrow> control_transition" where
  "policy_controller N (NetworkRequest policy request) = authorize_network N policy request"
| "policy_controller N (ModelRequest policy request) = authorize_model policy request"

section \<open>Compiled guards are well formed\<close>

fun guard_ok :: "'n network_guard \<Rightarrow> bool" where
  "guard_ok (NetworkGuard c rs ds ts scopes fb) \<longleftrightarrow>
     (is_scoped c \<longleftrightarrow> fb \<noteq> None) \<and> (\<forall>sg \<in> set scopes. guard_ok (snd sg))
     \<and> (case fb of None \<Rightarrow> True | Some g \<Rightarrow> guard_ok g)"

lemma compile_parts_InrD:
  "compile_parts N c ts scopes fb = Inr g \<Longrightarrow>
     \<exists>rs ds. compile_allow N c = Inr rs \<and> compile_deny N c = Inr ds
             \<and> g = NetworkGuard c rs ds (map normalize_host ts) scopes fb"
  by (auto simp: compile_parts_def res_simps)

lemma compile_parts_scoped [simp]:
  "compile_parts N (Scoped layers f) ts scopes fb
     = Inr (NetworkGuard (Scoped layers f) [] [] (map normalize_host ts) scopes fb)"
  by (simp add: compile_parts_def)

lemma layer_capability_not_scoped [simp]: "\<not> is_scoped (layer_capability l)"
  by (simp add: layer_capability_def)

lemma set_sort_scopes [simp]: "set (sort_scopes xs) = set xs"
  by (simp add: sort_scopes_def)

lemma guard_compile_leaf:
  "\<not> is_scoped c \<Longrightarrow> guard_compile N c ts = compile_parts N c ts [] None"
  by (cases c) (simp_all add: guard_compile_def)

lemma guard_compile_scopedD:
  assumes "guard_compile N (Scoped layers fb) ts = Inr g"
  obtains compiled fg where
    "collect_res (compile_layer N ts) layers = Inr compiled"
    "\<not> is_scoped fb" "guard_compile N fb ts = Inr fg"
    "g = NetworkGuard (Scoped layers fb) [] [] (map normalize_host ts) (sort_scopes compiled) (Some fg)"
    "successively (\<lambda>a b. fst a \<noteq> fst b) (sort_scopes compiled)"
  using assms
  by (auto simp: guard_compile_def [of N "Scoped layers fb"] res_simps Let_def guard_compile_leaf)

lemma compile_layer_InrD:
  "compile_layer N ts sl = Inr sg \<Longrightarrow>
     fst sg = fst sl \<and> guard_compile N (layer_capability (snd sl)) ts = Inr (snd sg)"
  by (auto simp: compile_layer_def res_simps guard_compile_leaf)

lemma guard_ok_leaf: "\<not> is_scoped c \<Longrightarrow> guard_compile N c ts = Inr g \<Longrightarrow> guard_ok g"
  by (auto simp: guard_compile_leaf dest!: compile_parts_InrD)

lemma guard_ok_compile:
  assumes "guard_compile N c ts = Inr g" shows "guard_ok g"
proof (cases "is_scoped c")
  case False
  then show ?thesis using assms by (rule guard_ok_leaf)
next
  case True
  then obtain layers fb where c: "c = Scoped layers fb" by (cases c) auto
  from assms [unfolded c] show ?thesis
  proof (rule guard_compile_scopedD)
    fix compiled fg
    assume *: "collect_res (compile_layer N ts) layers = Inr compiled"
      "\<not> is_scoped fb" "guard_compile N fb ts = Inr fg"
      "g = NetworkGuard (Scoped layers fb) [] [] (map normalize_host ts) (sort_scopes compiled)
             (Some fg)"
    have "guard_ok (snd sg)" if "sg \<in> set compiled" for sg
      using collect_res_set [OF *(1)] that
      by (auto dest!: compile_layer_InrD intro: guard_ok_leaf [OF layer_capability_not_scoped])
    then show ?thesis using * by (auto intro: guard_ok_leaf)
  qed
qed

section \<open>Every decision is an allow or a deny\<close>

lemma decision_intros [simp]: "decision (tr_allowed r)" "decision (tr_denied r)"
  by (simp_all add: decision_def tr_allowed_def tr_denied_def)

lemma authorize_leaf_decision:
  "\<not> is_scoped (ng_capability g) \<Longrightarrow> decision (authorize_leaf N req host g)"
  by (auto simp: authorize_leaf_def split: network_capability.splits sum.splits
      network_default_action.splits network_match_failure.splits)

lemma authorize_decision:
  "guard_ok g \<Longrightarrow> decision (authorize_network_with_host N req host g)"
proof (induction g rule: guard_ok.induct)
  case (1 c rs ds ts scopes fb)
  then show ?case
    by (auto simp: Let_def authorize_leaf_decision dest!: find_SomeD split: option.splits)
qed

fun control_request_ok :: "'n control_request \<Rightarrow> bool" where
  "control_request_ok (NetworkRequest g _) = guard_ok g"
| "control_request_ok (ModelRequest _ _) = True"

lemma authorize_model_decision: "decision (authorize_model p r)"
  by (simp add: authorize_model_def)

interpretation policy: control_controller control_request_ok "policy_controller N"
  for N :: "'n ipnet_ops"
proof
  fix r :: "'n control_request"
  show "control_request_ok r \<Longrightarrow> decision (policy_controller N r)"
    by (cases r) (simp_all add: authorize_network_def authorize_decision authorize_model_decision)
qed

section \<open>Rule evaluation\<close>

definition rule_accepts ::
  "'n ipnet_ops \<Rightarrow> network_access_request \<Rightarrow> network_host \<Rightarrow> bool \<Rightarrow> 'n network_rule \<Rightarrow> bool" where
  "rule_accepts N req host enforce rule \<longleftrightarrow>
     matches_host N rule host (req_resolved_ip req) \<and> matches_port rule (req_port req)
     \<and> matches_transport rule (req_transport req)
     \<and> (enforce \<longrightarrow> allows_resolved_address N rule (req_resolved_ip req))"

lemma evaluate_loop_Inr:
  "evaluate_loop N req host enforce rules hm pm tm = Inr u
     \<longleftrightarrow> (\<exists>rule \<in> set rules. rule_accepts N req host enforce rule)"
  by (induction rules arbitrary: hm pm tm) (auto simp: rule_accepts_def)

lemma evaluate_loop_Inl:
  "evaluate_loop N req host enforce rules hm pm tm = Inl (hm', pm', tm') \<Longrightarrow>
     (hm' \<longleftrightarrow> hm \<or> (\<exists>r \<in> set rules. matches_host N r host (req_resolved_ip req)))
     \<and> (pm' \<longleftrightarrow> pm \<or> (\<exists>r \<in> set rules. matches_host N r host (req_resolved_ip req)
                                 \<and> matches_port r (req_port req)))
     \<and> (tm' \<longleftrightarrow> tm \<or> (\<exists>r \<in> set rules. matches_host N r host (req_resolved_ip req)
                                 \<and> matches_port r (req_port req)
                                 \<and> matches_transport r (req_transport req)))"
  by (induction rules arbitrary: hm pm tm) (auto split: if_splits)

lemma evaluate_rules_Inr [simp]:
  "evaluate_rules N rules req host enforce = Inr u
     \<longleftrightarrow> (\<exists>rule \<in> set rules. rule_accepts N req host enforce rule)"
proof (cases "evaluate_loop N req host enforce rules False False False")
  case (Inl f)
  then show ?thesis
    using evaluate_loop_Inr [of N req host enforce rules False False False u]
    by (cases f) (auto simp: evaluate_rules_def)
next
  case (Inr v)
  then show ?thesis
    using evaluate_loop_Inr [of N req host enforce rules False False False u]
    by (auto simp: evaluate_rules_def)
qed

section \<open>Denials and scopes\<close>

lemma is_allowed_denied [simp]: "\<not> is_allowed (tr_denied r)"
  by simp

lemma denied_not_allowed:
  "guard_denied N req host g \<Longrightarrow> authorize_network_with_host N req host g = tr_denied ExplicitlyDenied"
  by (cases g) simp

lemma authorize_scoped_iff:
  "is_allowed (authorize_network_with_host N req host (NetworkGuard c rs [] ts scopes (Some fb)))
     \<longleftrightarrow> (\<forall>sg \<in> set scopes. is_allowed (authorize_network_with_host N req host (snd sg)))
         \<and> is_allowed (authorize_network_with_host N req host fb)"
proof (cases "guard_denied N req host (NetworkGuard c rs [] ts scopes (Some fb))")
  case True
  then have "(\<exists>sg \<in> set scopes. guard_denied N req host (snd sg)) \<or> guard_denied N req host fb"
    by simp
  then show ?thesis
    using True by (metis denied_not_allowed is_allowed_denied)
next
  case False
  show ?thesis
    unfolding authorize_network_with_host.simps if_not_P [OF False]
    by (auto simp: Let_def find_None_iff_all dest!: find_SomeD split: option.splits)
qed

definition allows :: "'n ipnet_ops \<Rightarrow> network_capability \<Rightarrow> rstr list \<Rightarrow> network_access_request \<Rightarrow> bool" where
  "allows N c trusted req =
     (case guard_compile N c trusted of
        Inl _ \<Rightarrow> False
      | Inr g \<Rightarrow> is_allowed (authorize_network N g req))"

lemma scoped_is_intersection:
  assumes "guard_compile N (Scoped layers fb) trusted = Inr g"
  shows "is_allowed (authorize_network N g req)
         \<longleftrightarrow> (\<forall>sl \<in> set layers. allows N (layer_capability (snd sl)) trusted req)
             \<and> allows N fb trusted req"
  using assms
proof (rule guard_compile_scopedD)
  fix compiled fg
  assume *: "collect_res (compile_layer N trusted) layers = Inr compiled"
    "guard_compile N fb trusted = Inr fg"
    "g = NetworkGuard (Scoped layers fb) [] [] (map normalize_host trusted) (sort_scopes compiled)
           (Some fg)"
  have "list_all2 (\<lambda>sl sg. compile_layer N trusted sl = Inr sg) layers compiled"
    using *(1) by (simp add: collect_res_Inr_iff)
  then have "(\<forall>sl \<in> set layers. allows N (layer_capability (snd sl)) trusted req)
        \<longleftrightarrow> (\<forall>sg \<in> set compiled. is_allowed (authorize_network N (snd sg) req))"
    by induction (auto simp: allows_def dest!: compile_layer_InrD)
  then show ?thesis
    using * by (simp add: authorize_network_def authorize_scoped_iff allows_def
        del: authorize_network_with_host.simps)
qed

section \<open>Explicit denials\<close>

fun declared_denies :: "network_capability \<Rightarrow> network_access_rule list" where
  "declared_denies (Scoped layers fb) = concat (map (npl_deny \<circ> snd) layers) @ declared_denies fb"
| "declared_denies (Policy _ _ deny _) = deny"
| "declared_denies _ = []"

definition denies :: "'n ipnet_ops \<Rightarrow> network_access_request \<Rightarrow> network_access_rule \<Rightarrow> bool" where
  "denies N req rule \<longleftrightarrow>
     (case compile_network_rule N rule of
        Inl _ \<Rightarrow> False
      | Inr r \<Rightarrow> rule_accepts N req (network_host_new (req_host req)) False r)"

lemma denies_iff:
  "denies N req rule \<longleftrightarrow> (\<exists>r. compile_network_rule N rule = Inr r
     \<and> rule_accepts N req (network_host_new (req_host req)) False r)"
  by (auto simp: denies_def split: sum.splits)

lemma allowed_neq_denied [simp]: "tr_allowed r \<noteq> tr_denied r'" "tr_denied r' \<noteq> tr_allowed r"
  by (simp_all add: tr_allowed_def tr_denied_def)

lemma authorize_leaf_not_explicit:
  "\<not> is_scoped (ng_capability g) \<Longrightarrow> authorize_leaf N req host g \<noteq> tr_denied ExplicitlyDenied"
  by (auto simp: authorize_leaf_def tr_allowed_def tr_denied_def split: network_capability.splits
      sum.splits network_default_action.splits network_match_failure.splits elim!: match_reason.elims)

lemma explicit_iff_denied:
  "guard_ok g \<Longrightarrow> authorize_network_with_host N req host g = tr_denied ExplicitlyDenied
     \<longleftrightarrow> guard_denied N req host g"
proof (induction g rule: guard_ok.induct)
  case (1 c rs ds ts scopes fb)
  let ?a = "authorize_network_with_host N req host" and ?g = "NetworkGuard c rs ds ts scopes fb"
  show ?case
  proof (cases "guard_denied N req host ?g")
    case False
    have "?a (snd sg) \<noteq> tr_denied ExplicitlyDenied" if "sg \<in> set scopes" for sg
      using 1 that False by auto
    then have "find (\<lambda>d. \<not> is_allowed d) (map (\<lambda>sg. ?a (snd sg)) scopes)
                 \<noteq> Some (tr_denied ExplicitlyDenied)"
      by (auto dest!: find_SomeD) metis
    moreover have "?a fg \<noteq> tr_denied ExplicitlyDenied" if "fb = Some fg" for fg
      using 1 that False by auto
    moreover have "authorize_leaf N req host ?g \<noteq> tr_denied ExplicitlyDenied" if "fb = None"
      using 1(3) that by (intro authorize_leaf_not_explicit) simp
    ultimately show ?thesis
      using False unfolding authorize_network_with_host.simps if_not_P [OF False]
      by (auto simp: Let_def split: option.splits)
  qed (simp add: denied_not_allowed del: authorize_network_with_host.simps)
qed

lemma guard_denied_leaf:
  assumes "\<not> is_scoped c" "guard_compile N c ts = Inr g"
  shows "guard_denied N req (network_host_new (req_host req)) g
         \<longleftrightarrow> list_ex (denies N req) (declared_denies c)"
proof -
  obtain rs ds where *: "compile_deny N c = Inr ds"
    "g = NetworkGuard c rs ds (map normalize_host ts) [] None"
    using assms by (auto simp: guard_compile_leaf dest!: compile_parts_InrD)
  show ?thesis
    using * assms(1) by (cases c) (auto simp: list_ex_iff denies_iff dest!: collect_res_set, blast)
qed

lemma guard_denied_compile:
  assumes "guard_compile N c ts = Inr g"
  shows "guard_denied N req (network_host_new (req_host req)) g
         \<longleftrightarrow> list_ex (denies N req) (declared_denies c)"
proof (cases "is_scoped c")
  case False
  then show ?thesis using assms by (rule guard_denied_leaf)
next
  case True
  then obtain layers fb where c: "c = Scoped layers fb" by (cases c) auto
  from assms [unfolded c] show ?thesis
  proof (rule guard_compile_scopedD)
    fix compiled fg
    assume *: "collect_res (compile_layer N ts) layers = Inr compiled"
      "\<not> is_scoped fb" "guard_compile N fb ts = Inr fg"
      "g = NetworkGuard (Scoped layers fb) [] [] (map normalize_host ts) (sort_scopes compiled)
             (Some fg)"
    let ?h = "network_host_new (req_host req)"
    have "list_all2 (\<lambda>sl sg. compile_layer N ts sl = Inr sg) layers compiled"
      using *(1) by (simp add: collect_res_Inr_iff)
    then have "(\<exists>sg \<in> set compiled. guard_denied N req ?h (snd sg))
        \<longleftrightarrow> (\<exists>sl \<in> set layers. list_ex (denies N req) (npl_deny (snd sl)))"
      by induction (auto simp: guard_denied_leaf [OF layer_capability_not_scoped]
          layer_capability_def dest!: compile_layer_InrD)
    then show ?thesis
      using * guard_denied_leaf [OF *(2,3)] by (auto simp: c list_ex_iff)
  qed
qed

section \<open>Addresses\<close>

lemma canonical_mapped [simp]: "canonical_ip (to_ipv6_mapped (V4 a b c d)) = V4 a b c d"
  by (simp add: canonical_ip_def)

lemma canonical_V4 [simp]: "canonical_ip (V4 a b c d) = V4 a b c d"
  by (simp add: canonical_ip_def)

lemma matches_ip_canonical:
  "canonical_ip ip = canonical_ip ip' \<Longrightarrow> matches_ip N rule ip = matches_ip N rule ip'"
  by (simp add: matches_ip_def split: network_host_rule.splits)

lemma matches_host_canonical:
  "canonical_ip ip = canonical_ip ip' \<Longrightarrow>
     matches_host N rule host (Some ip) = matches_host N rule host (Some ip')"
  using matches_ip_canonical [of ip ip' N rule]
  by (auto simp: matches_host_def split: network_host_rule.splits)

lemma allows_resolved_mapped:
  "allows_resolved_address N rule (Some (to_ipv6_mapped (V4 a b c d)))
     = allows_resolved_address N rule (Some (V4 a b c d))"
  using matches_ip_canonical [of "to_ipv6_mapped (V4 a b c d)" "V4 a b c d" N rule]
  by (simp add: allows_resolved_address_def public_mapped opt_in_mapped
      split: network_host_rule.splits del: to_ipv6_mapped.simps is_public_egress_ip.simps
        is_opt_in_private_ip.simps)

definition same_route :: "'n ipnet_ops \<Rightarrow> network_access_request \<Rightarrow> network_access_request \<Rightarrow> bool" where
  "same_route N q q' \<longleftrightarrow>
     req_port q = req_port q' \<and> req_transport q = req_transport q'
     \<and> (req_resolved_ip q = None \<longleftrightarrow> req_resolved_ip q' = None)
     \<and> (\<forall>rule host. matches_host N rule host (req_resolved_ip q) = matches_host N rule host (req_resolved_ip q'))
     \<and> (\<forall>rule. allows_resolved_address N rule (req_resolved_ip q)
                = allows_resolved_address N rule (req_resolved_ip q'))"

lemma same_route_loop:
  assumes "same_route N q q'"
  shows "evaluate_loop N q host e rules hm pm tm = evaluate_loop N q' host e rules hm pm tm"
  using assms [unfolded same_route_def]
  by (cases e) (induction rules arbitrary: hm pm tm; simp)+

lemma same_route_rules:
  assumes "same_route N q q'"
  shows "evaluate_rules N rules q host e = evaluate_rules N rules q' host e"
proof -
  have "req_resolved_ip q = None \<longleftrightarrow> req_resolved_ip q' = None"
    using assms by (simp add: same_route_def)
  then show ?thesis
    by (simp only: evaluate_rules_def same_route_loop [OF assms])
qed

lemma same_route_denied:
  "same_route N q q' \<Longrightarrow> guard_denied N q host g = guard_denied N q' host g"
  by (induction g rule: guard_ok.induct)
     (auto simp: same_route_rules [of N q q'] simp del: evaluate_rules_Inr split: option.splits)

lemma same_route_authorize:
  assumes "same_route N q q'"
  shows "authorize_network_with_host N q host g = authorize_network_with_host N q' host g"
proof (induction g rule: guard_ok.induct)
  case (1 c rs ds ts scopes fb)
  have leaf: "authorize_leaf N q host g = authorize_leaf N q' host g" for g :: "'a network_guard"
    by (simp only: authorize_leaf_def same_route_rules [OF assms])
  have *: "map (\<lambda>sg. authorize_network_with_host N q host (snd sg)) scopes
           = map (\<lambda>sg. authorize_network_with_host N q' host (snd sg)) scopes"
    using 1(1) by simp
  show ?case
    unfolding authorize_network_with_host.simps same_route_denied [OF assms] * leaf
    using 1(2) by (simp split: option.splits)
qed

lemma same_route_mapped:
  "same_route N (req\<lparr>req_resolved_ip := Some (to_ipv6_mapped (V4 a b c d))\<rparr>)
                (req\<lparr>req_resolved_ip := Some (V4 a b c d)\<rparr>)"
  using matches_host_canonical [of "to_ipv6_mapped (V4 a b c d)" "V4 a b c d" N]
  by (simp add: same_route_def allows_resolved_mapped del: to_ipv6_mapped.simps)

section \<open>Duplicate scopes\<close>

lemma sorted_successively_distinct:
  fixes f :: "'a \<Rightarrow> nat"
  shows "sorted (map f xs) \<Longrightarrow> successively (\<lambda>a b. f a \<noteq> f b) xs \<Longrightarrow> distinct (map f xs)"
proof (induction xs rule: induct_list012)
  case (3 x y zs)
  then have "f x < f y" "\<forall>z \<in> set zs. f y \<le> f z" "distinct (map f (y # zs))"
    by auto
  then show ?case by auto
qed simp_all

lemma distinct_map_inj_key:
  "distinct (map (\<lambda>x. k (g x)) xs) \<Longrightarrow> distinct (map g xs)"
  by (induction xs) auto

lemma sort_scopes_distinct:
  assumes "successively (\<lambda>a b. fst a \<noteq> fst b) (sort_scopes xs)"
  shows "distinct (map fst xs)"
proof -
  have rank: "2 - scope_rank s = 2 - scope_rank t \<longleftrightarrow> s = t" for s t
    by (cases s; cases t) simp_all
  have "distinct (map (\<lambda>sl. 2 - scope_rank (fst sl)) (sort_scopes xs))"
  proof (rule sorted_successively_distinct)
    show "sorted (map (\<lambda>sl. 2 - scope_rank (fst sl)) (sort_scopes xs))"
      by (simp add: sort_scopes_def)
    show "successively (\<lambda>a b. 2 - scope_rank (fst a) \<noteq> 2 - scope_rank (fst b)) (sort_scopes xs)"
      using assms by (simp add: rank)
  qed
  then have "distinct (map fst (sort_scopes xs))"
    by (rule distinct_map_inj_key)
  then show ?thesis
    by (simp add: distinct_map sort_scopes_def)
qed

section \<open>A concrete network library\<close>

text \<open>Networks of one address, written \<open>a.b.c.d/32\<close>: an instance of the operations of ipnet.\<close>

definition host_nets :: "ip_addr ipnet_ops" where
  "host_nets =
     \<lparr>ipnet_from_str = \<lambda>s. (case strip_suffix ''/32'' s of None \<Rightarrow> None | Some a \<Rightarrow> parse_ip a),
      ipnet_addr = id, ipnet_contains = (=)\<rparr>"


definition ex_rule :: "rstr \<Rightarrow> network_access_rule" where
  "ex_rule h =
     \<lparr>nar_host = h, nar_ports = [443], nar_transports = [Https], nar_allow_private_ips = False\<rparr>"

definition ex_layer :: network_policy_layer where
  "ex_layer =
     \<lparr>npl_default_action = None, npl_allow = [ex_rule ''*.example.com''],
      npl_deny = [ex_rule ''bad.example.com''], npl_limits = []\<rparr>"

definition ex_scoped :: network_capability where
  "ex_scoped = Scoped [(User, ex_layer), (Session, ex_layer)] Ambient"

definition ex_req :: "rstr \<Rightarrow> network_access_request" where
  "ex_req h =
     \<lparr>req_run_id = None, req_execution_id = None, req_host = h, req_port = Some 443,
      req_transport = Https, req_resolved_ip = None\<rparr>"

lemma ex_scoped_compiles: obtains g where "guard_compile host_nets ex_scoped [] = Inr g"
proof -
  have "\<not> isl (guard_compile host_nets ex_scoped [])" by code_simp
  then show ?thesis using that by (auto dest: not_isl_InrD)
qed

section \<open>Properties\<close>

text \<open>
  C1. A scoped policy is the intersection of its parts: when it compiles, a request is
  allowed exactly when every layer, compiled on its own, and the fallback, compiled on its
  own, allow it. No layer widens what another one or the fallback grants.
\<close>

theorem scoped_policy_is_intersection:
  assumes "guard_compile N (Scoped layers fb) trusted = Inr g"
  shows "is_allowed (authorize_network N g req)
         \<longleftrightarrow> list_all (\<lambda>sl. allows N (layer_capability (snd sl)) trusted req) layers
             \<and> allows N fb trusted req"
  using scoped_is_intersection [OF assms] by (simp add: list_all_iff)

theorem scoped_policy_is_intersection_witness:
  "\<exists>g. guard_compile host_nets ex_scoped [] = Inr g
       \<and> is_allowed (authorize_network host_nets g (ex_req ''a.example.com''))
       \<and> \<not> is_allowed (authorize_network host_nets g (ex_req ''bad.example.com''))"
proof -
  obtain g where g: "guard_compile host_nets ex_scoped [] = Inr g" by (rule ex_scoped_compiles)
  have "allows host_nets (layer_capability ex_layer) [] (ex_req ''a.example.com'')"
    "\<not> allows host_nets (layer_capability ex_layer) [] (ex_req ''bad.example.com'')"
    "allows host_nets Ambient [] (ex_req ''a.example.com'')"
    by code_simp+
  then show ?thesis
    using g scoped_policy_is_intersection [OF g [unfolded ex_scoped_def]] by auto
qed

text \<open>
  C13. An explicit denial wins over everything else, trusted hosts included: a compiled
  policy answers \<open>ExplicitlyDenied\<close> exactly when a deny rule declared in one of its
  layers or in its fallback matches the host, port and transport of the request.
\<close>

theorem explicit_denial_iff_declared:
  assumes "guard_compile N c trusted = Inr g"
  shows "authorize_network N g req = tr_denied ExplicitlyDenied
         \<longleftrightarrow> list_ex (denies N req) (declared_denies c)"
  using explicit_iff_denied [OF guard_ok_compile [OF assms]] guard_denied_compile [OF assms]
  by (simp add: authorize_network_def)

theorem explicit_denial_iff_declared_witness:
  "\<exists>g. guard_compile host_nets ex_scoped [] = Inr g
       \<and> authorize_network host_nets g (ex_req ''Bad.example.com.'') = tr_denied ExplicitlyDenied
       \<and> authorize_network host_nets g (ex_req ''a.example.com'') \<noteq> tr_denied ExplicitlyDenied"
proof -
  obtain g where g: "guard_compile host_nets ex_scoped [] = Inr g" by (rule ex_scoped_compiles)
  have "list_ex (denies host_nets (ex_req ''Bad.example.com.'')) (declared_denies ex_scoped)"
    "\<not> list_ex (denies host_nets (ex_req ''a.example.com'')) (declared_denies ex_scoped)"
    by code_simp+
  then show ?thesis using g explicit_denial_iff_declared [OF g] by auto
qed

text \<open>
  A compiled policy decides every request: the arm of the source marked unreachable is
  not reached, the decision is an allow or a deny of a requested operation, and a fresh
  control machine accepts it and records it as its whole history.
\<close>

theorem compiled_policy_decides:
  assumes "guard_compile N c trusted = Inr g"
  shows "cm_authorize (policy_controller N) (NetworkRequest g req) cm_new
         = Inr (authorize_network N g req,
                \<lparr>cm_state = tr_to (authorize_network N g req), cm_history = [authorize_network N g req]\<rparr>)
         \<and> (is_allowed (authorize_network N g req) \<longleftrightarrow> tr_to (authorize_network N g req) \<noteq> Denied)"
  using policy.machine_accepts [of "NetworkRequest g req" N]
    policy.allowed_or_denied [of "NetworkRequest g req" N] guard_ok_compile [OF assms]
  by simp

theorem compiled_policy_decides_witness:
  "\<exists>g t m. guard_compile host_nets ex_scoped [] = Inr g
       \<and> cm_authorize (policy_controller host_nets) (NetworkRequest g (ex_req ''a.example.com'')) cm_new
           = Inr (t, m) \<and> cm_history m = [t]"
proof -
  obtain g where g: "guard_compile host_nets ex_scoped [] = Inr g" by (rule ex_scoped_compiles)
  show ?thesis
    using g compiled_policy_decides [OF g, of "ex_req ''a.example.com''"] by auto
qed

text \<open>
  Rule evaluation succeeds exactly when one single rule accepts the host, the port, the
  transport and (when asked) the resolved address, and otherwise reports the furthest stage
  that some rule reached: the answer does not depend on the order of the rules.
\<close>

theorem evaluate_rules_furthest_stage:
  "evaluate_rules N rules req host enforce =
     (if rules = [] then Inl MatchEmpty
      else if list_ex (rule_accepts N req host enforce) rules then Inr ()
      else if list_ex (\<lambda>r. matches_host N r host (req_resolved_ip req) \<and> matches_port r (req_port req)
                         \<and> matches_transport r (req_transport req)) rules
      then Inl MatchResolvedAddress
      else if list_ex (\<lambda>r. matches_host N r host (req_resolved_ip req)
                         \<and> matches_port r (req_port req)) rules
      then Inl MatchTransport
      else if list_ex (\<lambda>r. matches_host N r host (req_resolved_ip req)) rules then Inl MatchPort
      else if req_resolved_ip req = None then Inl MatchHost else Inl MatchResolvedAddress)"
proof (cases "evaluate_loop N req host enforce rules False False False")
  case (Inl f)
  obtain hm pm tm where f: "f = (hm, pm, tm)" by (cases f)
  have "\<not> list_ex (rule_accepts N req host enforce) rules"
    using Inl evaluate_loop_Inr [of N req host enforce rules False False False "()"]
    by (auto simp: list_ex_iff)
  then show ?thesis
    using evaluate_loop_Inl [OF Inl [unfolded f]] Inl f
    by (auto simp: evaluate_rules_def list_ex_iff)
next
  case (Inr u)
  then have "list_ex (rule_accepts N req host enforce) rules"
    using evaluate_loop_Inr by (fastforce simp: list_ex_iff)
  then show ?thesis using Inr by (auto simp: evaluate_rules_def)
qed

text \<open>
  A wildcard rule matches the names strictly below its suffix, on a label boundary, and
  nothing else: not the suffix itself and not a name that merely ends with its letters.
\<close>

theorem wildcard_label_boundary:
  "matches_host N (rule\<lparr>nr_host := WildcardSuffix suffix\<rparr>) host resolved
     \<longleftrightarrow> (\<exists>label. nh_name host = label @ ''.'' @ suffix)"
proof
  assume "matches_host N (rule\<lparr>nr_host := WildcardSuffix suffix\<rparr>) host resolved"
  then obtain r where r: "nh_name host = r @ suffix" "r \<noteq> []" "r ! (length r - 1) = CHR ''.''"
    by (auto simp: matches_host_def ends_with_iff nth_append split: if_splits)
  then have "r = butlast r @ ''.''"
    by (metis append_butlast_last_id last_conv_nth)
  then show "\<exists>label. nh_name host = label @ ''.'' @ suffix"
    using r(1) by (metis append.assoc)
qed (auto simp: matches_host_def ends_with_iff nth_append)

text \<open>
  An IPv4 destination and its IPv4-mapped IPv6 spelling get the same decision from every
  guard, so no rule can be evaded by naming the address the other way.
\<close>

theorem mapped_destination_same_decision:
  "authorize_network N g (req\<lparr>req_resolved_ip := Some (to_ipv6_mapped (V4 a b c d))\<rparr>)
   = authorize_network N g (req\<lparr>req_resolved_ip := Some (V4 a b c d)\<rparr>)"
  using same_route_authorize [OF same_route_mapped] by (simp add: authorize_network_def)


text \<open>The rule an entry of the host list stands for.\<close>

definition entry_rule :: "rstr \<Rightarrow> network_access_rule" where
  "entry_rule h = \<lparr>nar_host = h, nar_ports = [], nar_transports = [], nar_allow_private_ips = False\<rparr>"

lemma compiled_from:
  assumes "compile_allow N (AllowList hosts rules) = Inr rs" "r \<in> set rs"
  obtains decl where "decl \<in> set (map entry_rule hosts @ rules)" "compile_network_rule N decl = Inr r"
proof -
  obtain xs ys where "collect_res (parse_network_rule N) hosts = Inr xs"
    "collect_res (compile_network_rule N) rules = Inr ys" "rs = xs @ ys"
    using assms(1) by (auto simp: res_simps)
  then have "(\<exists>h \<in> set hosts. parse_network_rule N h = Inr r) \<or> (\<exists>decl \<in> set rules. compile_network_rule N decl = Inr r)"
    using assms(2) by (fastforce dest!: collect_res_set)
  then show thesis using that by (auto simp: parse_network_rule_def entry_rule_def)
qed

lemma compiled_opt_in: "compile_network_rule N decl = Inr r \<Longrightarrow> nr_allow_private_ips r = nar_allow_private_ips decl"
  by (auto simp: compile_network_rule_def Let_def res_simps split: if_splits)

text \<open>
  C35. An allowlist lets a connection to a resolved address through only to a trusted host or by one declared
  entry that covers all of it. That entry matches the host, the port and the transport, and it
  names the address or its network, or the address is public, or this same entry opts in to
  private addresses and the address is of the kind an opt-in covers.
\<close>

theorem allowlist_resolved_address_safety:
  assumes "guard_compile N (AllowList hosts rules) trusted = Inr g"
    and "is_allowed (authorize_network N g req)"
    and "req_resolved_ip req = Some ip"
  shows "normalize_host (req_host req) \<in> normalize_host ` set trusted
    \<or> (\<exists>decl \<in> set (map entry_rule hosts @ rules). \<exists>r. compile_network_rule N decl = Inr r
         \<and> matches_host N r (network_host_new (req_host req)) (Some ip)
         \<and> matches_port r (req_port req) \<and> matches_transport r (req_transport req)
         \<and> (matches_ip N r ip \<or> is_public_egress_ip ip \<or> (nar_allow_private_ips decl \<and> is_opt_in_private_ip ip)))"
proof -
  obtain rs where g: "compile_allow N (AllowList hosts rules) = Inr rs"
    "g = NetworkGuard (AllowList hosts rules) rs [] (map normalize_host trusted) [] None"
    using assms(1) by (auto simp: guard_compile_leaf dest!: compile_parts_InrD)
  have "is_trusted g (network_host_new (req_host req))
      \<or> (\<exists>r \<in> set rs. rule_accepts N req (network_host_new (req_host req)) True r)"
    using assms(2) g(2) by (auto simp: authorize_network_def authorize_leaf_def split: if_splits sum.splits)
  then show ?thesis
  proof
    assume "is_trusted g (network_host_new (req_host req))"
    then show ?thesis using g(2) by (simp add: is_trusted_def network_host_new_def Let_def)
  next
    assume "\<exists>r \<in> set rs. rule_accepts N req (network_host_new (req_host req)) True r"
    then obtain r where r: "r \<in> set rs" "rule_accepts N req (network_host_new (req_host req)) True r" by blast
    obtain decl where d: "decl \<in> set (map entry_rule hosts @ rules)" "compile_network_rule N decl = Inr r"
      using compiled_from [OF g(1) r(1)] .
    have "matches_ip N r ip \<or> is_public_egress_ip ip \<or> (nar_allow_private_ips decl \<and> is_opt_in_private_ip ip)"
      using r(2) assms(3) compiled_opt_in [OF d(2)]
      by (auto simp: rule_accepts_def allows_resolved_address_def split: network_host_rule.splits)
    then show ?thesis using r(2) d assms(3) unfolding rule_accepts_def by (intro disjI2) auto
  qed
qed

text \<open>
  An opt-in of one entry does nothing for another: with the opt-in on \<open>db.internal\<close>, that name reaches
  a private address and \<open>example.com\<close> does not.
\<close>

theorem allowlist_resolved_address_safety_witness:
  "let c = AllowList [''example.com''] [(ex_rule ''db.internal'')\<lparr>nar_allow_private_ips := True\<rparr>];
       to_private = (\<lambda>h. (ex_req h)\<lparr>req_resolved_ip := Some (V4 10 0 0 7)\<rparr>)
   in allows host_nets c [] (to_private ''db.internal'') \<and> \<not> allows host_nets c [] (to_private ''example.com'')
      \<and> (\<exists>decl \<in> set (map entry_rule [''example.com''] @ [(ex_rule ''db.internal'')\<lparr>nar_allow_private_ips := True\<rparr>]).
           \<exists>r. compile_network_rule host_nets decl = Inr r
             \<and> (matches_ip host_nets r (V4 10 0 0 7) \<or> nar_allow_private_ips decl))"
proof -
  let ?c = "AllowList [''example.com''] [(ex_rule ''db.internal'')\<lparr>nar_allow_private_ips := True\<rparr>]"
  let ?req = "\<lambda>h. (ex_req h)\<lparr>req_resolved_ip := Some (V4 10 0 0 7)\<rparr>"
  have a: "allows host_nets ?c [] (?req ''db.internal'')" "\<not> allows host_nets ?c [] (?req ''example.com'')"
    by code_simp+
  have p: "\<not> is_public_egress_ip (V4 10 0 0 7)" by code_simp
  from a(1) obtain g where g: "guard_compile host_nets ?c [] = Inr g"
    "is_allowed (authorize_network host_nets g (?req ''db.internal''))"
    by (auto simp: allows_def split: sum.splits)
  have "req_resolved_ip (?req ''db.internal'') = Some (V4 10 0 0 7)" by simp
  from allowlist_resolved_address_safety [OF g this] p
  have "\<exists>decl \<in> set (map entry_rule [''example.com''] @ [(ex_rule ''db.internal'')\<lparr>nar_allow_private_ips := True\<rparr>]).
      \<exists>r. compile_network_rule host_nets decl = Inr r
        \<and> (matches_ip host_nets r (V4 10 0 0 7) \<or> nar_allow_private_ips decl)" by (auto simp only: set_simps image_empty)
  then show ?thesis using a by (simp only: Let_def simp_thms)
qed

end
