(* ===== verification/Egress.thy ===== *)
theory Egress
  imports Net_Policy
begin

text \<open>
  Compiled egress decisions of \<open>crates/pvisor-core/src/network.rs\<close>, and the session's
  network layers of \<open>crates/pvisor-core/src/session.rs\<close>. An injected controller is a
  parameter; the built-in one is \<open>policy_controller\<close>.
\<close>

section \<open>Data\<close>

datatype resolved_address_policy = Strict | HostConnectorAliases

datatype network_mode = Public | NoNetwork | Allowlist

record network_config =
  nc_capability :: "network_capability option"
  nc_mode :: network_mode
  nc_allowed_hosts :: "rstr list"
  nc_rules :: "network_access_rule list"
  nc_deny_rules :: "network_access_rule list"
  nc_limits :: "network_bandwidth_limit list"

record 'n compiled_bandwidth_limit =
  cbl_matcher :: "'n network_rule option"
  cbl_config :: network_bandwidth_limit

record 'n network_policy =
  np_mode :: network_mode
  np_guard :: "'n network_guard"
  np_limits :: "'n compiled_bandwidth_limit list"
  np_source :: network_config

datatype deny_reason =
    DenyInvalidController
  | DenyNoNetwork
  | DenyAllowlistEmpty
  | DenyNotInAllowlist
  | DenyPortNotAllowed
  | DenyTransportNotAllowed
  | DenyResolvedAddressNotAllowed
  | DenyExplicitDeny

fun deny_reason_as_str :: "deny_reason \<Rightarrow> rstr" where
  "deny_reason_as_str DenyInvalidController = ''invalid-controller''"
| "deny_reason_as_str DenyNoNetwork = ''no-network''"
| "deny_reason_as_str DenyAllowlistEmpty = ''allowlist-empty''"
| "deny_reason_as_str DenyNotInAllowlist = ''not-in-allowlist''"
| "deny_reason_as_str DenyPortNotAllowed = ''port-not-allowed''"
| "deny_reason_as_str DenyTransportNotAllowed = ''transport-not-allowed''"
| "deny_reason_as_str DenyResolvedAddressNotAllowed = ''resolved-address-not-allowed''"
| "deny_reason_as_str DenyExplicitDeny = ''explicit-deny''"

section \<open>Configuration to capability\<close>

definition host_entry_rule :: "rstr \<Rightarrow> network_access_rule" where
  "host_entry_rule host =
     \<lparr>nar_host = host, nar_ports = [], nar_transports = [], nar_allow_private_ips = False\<rparr>"

definition network_capability_of :: "network_config \<Rightarrow> network_capability" where
  "network_capability_of network =
     (case nc_capability network of
        Some capability \<Rightarrow> capability
      | None \<Rightarrow>
          if nc_mode network = NoNetwork then Deny
          else if nc_deny_rules network = [] \<and> nc_limits network = []
          then (case nc_mode network of
                  Public \<Rightarrow> Ambient
                | NoNetwork \<Rightarrow> unreachable
                | Allowlist \<Rightarrow> AllowList (nc_allowed_hosts network) (nc_rules network))
          else Policy
                 (case nc_mode network of
                    Public \<Rightarrow> ActionAllow | Allowlist \<Rightarrow> ActionDeny | NoNetwork \<Rightarrow> unreachable)
                 (nc_rules network @ map host_entry_rule (nc_allowed_hosts network))
                 (nc_deny_rules network) (nc_limits network))"

section \<open>Compilation\<close>

fun limits_for :: "network_capability \<Rightarrow> network_bandwidth_limit list" where
  "limits_for (Scoped layers fb) = concat (map (\<lambda>sl. npl_limits (snd sl)) layers) @ limits_for fb"
| "limits_for (Policy _ _ _ limits) = limits"
| "limits_for _ = []"

definition push_new :: "'a list \<Rightarrow> 'a \<Rightarrow> 'a list" where
  "push_new xs x = (if x \<in> set xs then xs else xs @ [x])"

definition compile_limit ::
  "'n ipnet_ops \<Rightarrow> network_bandwidth_limit \<Rightarrow> policy_error + 'n compiled_bandwidth_limit" where
  "compile_limit N config =
     bind_res (ensure (0 < nbl_bytes_per_second config) ZeroBandwidth)
       (\<lambda>_. bind_res (ensure (nbl_port config \<noteq> Some 0) ZeroLimitPort)
          (\<lambda>_. case nbl_host config of
                 None \<Rightarrow> Inr \<lparr>cbl_matcher = None, cbl_config = config\<rparr>
               | Some host \<Rightarrow>
                   bind_res (parse_network_rule N host)
                     (\<lambda>m. Inr \<lparr>cbl_matcher = Some m, cbl_config = config\<rparr>)))"

definition np_compile :: "'n ipnet_ops \<Rightarrow> network_config \<Rightarrow> policy_error + 'n network_policy" where
  "np_compile N network =
     bind_res
       (ensure (nc_capability network \<noteq> None \<or> nc_mode network = Allowlist
                \<or> (nc_allowed_hosts network = [] \<and> nc_rules network = []))
          AllowEntriesNeedAllowlist)
       (\<lambda>_. bind_res (guard_compile N (network_capability_of network) [])
          (\<lambda>guard.
             let declared = foldl push_new (limits_for (ng_capability guard)) (nc_limits network) in
             bind_res (collect_res (compile_limit N) declared)
               (\<lambda>limits. Inr \<lparr>np_mode = nc_mode network, np_guard = guard, np_limits = limits,
                               np_source = network\<rparr>)))"

definition mode_str :: "'n network_policy \<Rightarrow> rstr" where
  "mode_str p =
     (case np_mode p of
        Public \<Rightarrow> ''public'' | NoNetwork \<Rightarrow> ''no-network'' | Allowlist \<Rightarrow> ''allowlist'')"

definition validate_network_config :: "'n ipnet_ops \<Rightarrow> network_config \<Rightarrow> policy_error + unit" where
  "validate_network_config N network = bind_res (np_compile N network) (\<lambda>_. Inr ())"

fun unrestricted :: "network_capability \<Rightarrow> bool" where
  "unrestricted Ambient = True"
| "unrestricted (Scoped layers fb) \<longleftrightarrow> layers = [] \<and> unrestricted fb"
| "unrestricted (Policy action allow deny limits) \<longleftrightarrow>
     action = ActionAllow \<and> allow = [] \<and> deny = [] \<and> limits = []"
| "unrestricted _ = False"

definition allows_unrestricted_packets :: "'n network_policy \<Rightarrow> bool" where
  "allows_unrestricted_packets p \<longleftrightarrow> np_limits p = [] \<and> unrestricted (ng_capability (np_guard p))"

section \<open>Authorisation\<close>

fun egress_deny_reason :: "access_reason \<Rightarrow> deny_reason" where
  "egress_deny_reason NetworkDenied = DenyNoNetwork"
| "egress_deny_reason NetworkAllowListEmpty = DenyAllowlistEmpty"
| "egress_deny_reason PortNotAllowed = DenyPortNotAllowed"
| "egress_deny_reason TransportNotAllowed = DenyTransportNotAllowed"
| "egress_deny_reason ResolvedAddressNotAllowed = DenyResolvedAddressNotAllowed"
| "egress_deny_reason ExplicitlyDenied = DenyExplicitDeny"
| "egress_deny_reason _ = DenyNotInAllowlist"

definition authorize_egress ::
  "('n control_request \<Rightarrow> control_transition) \<Rightarrow> 'n network_policy \<Rightarrow> network_access_request
     \<Rightarrow> deny_reason + unit" where
  "authorize_egress controller p request =
     (case cm_authorize controller (NetworkRequest (np_guard p) request) cm_new of
        Inl _ \<Rightarrow> Inl DenyInvalidController
      | Inr (transition, _) \<Rightarrow>
          if is_allowed transition then Inr ()
          else Inl (egress_deny_reason (tr_reason transition)))"

definition np_preflight ::
  "'n ipnet_ops \<Rightarrow> 'n network_policy \<Rightarrow> network_access_request \<Rightarrow> deny_reason + unit" where
  "np_preflight N p request = authorize_egress (policy_controller N) p request"

definition np_authorize ::
  "'n ipnet_ops \<Rightarrow> ('n control_request \<Rightarrow> control_transition) \<Rightarrow> 'n network_policy
     \<Rightarrow> network_access_request \<Rightarrow> deny_reason + unit" where
  "np_authorize N controller p request =
     bind_res (np_preflight N p request) (\<lambda>_. authorize_egress controller p request)"

definition np_authorize_resolved ::
  "'n ipnet_ops \<Rightarrow> ('n control_request \<Rightarrow> control_transition) \<Rightarrow> 'n network_policy
     \<Rightarrow> network_access_request \<Rightarrow> resolved_address_policy \<Rightarrow> deny_reason + unit" where
  "np_authorize_resolved N controller p request resolution =
     (case np_authorize N controller p request of
        Inr u \<Rightarrow> Inr u
      | Inl reason \<Rightarrow>
          if reason \<noteq> DenyResolvedAddressNotAllowed
             \<or> resolution \<noteq> HostConnectorAliases
             \<or> \<not> (case req_resolved_ip request of
                      None \<Rightarrow> False
                    | Some ip \<Rightarrow> is_host_connector_alias (req_host request) ip)
          then Inl reason
          else np_authorize N controller p (request\<lparr>req_resolved_ip := None\<rparr>))"

section \<open>One-time grants\<close>

definition grant_rule :: "network_access_request \<Rightarrow> u16 \<Rightarrow> network_access_rule" where
  "grant_rule request port =
     \<lparr>nar_host = req_host request, nar_ports = [port],
      nar_transports = [req_transport request], nar_allow_private_ips = False\<rparr>"

definition grant_layer ::
  "network_access_rule \<Rightarrow> policy_scope \<times> network_policy_layer \<Rightarrow> policy_scope \<times> network_policy_layer" where
  "grant_layer grant sl = (fst sl, (snd sl)\<lparr>npl_allow := npl_allow (snd sl) @ [grant]\<rparr>)"

fun grant_fallback :: "network_access_rule \<Rightarrow> network_capability \<Rightarrow> policy_error + network_capability" where
  "grant_fallback grant Ambient = Inr Ambient"
| "grant_fallback grant (AllowList hosts rules) = Inr (AllowList hosts (rules @ [grant]))"
| "grant_fallback grant (Policy action allow deny limits) =
     Inr (Policy action (allow @ [grant]) deny limits)"
| "grant_fallback grant Deny = Inl DeniedNotExtensible"
| "grant_fallback grant (Scoped _ _) = unreachable"

definition require_port :: "network_access_request \<Rightarrow> policy_error + u16" where
  "require_port request = (case req_port request of None \<Rightarrow> Inl PortRequired | Some p \<Rightarrow> Inr p)"

fun exact_host_rule :: "'n network_host_rule \<Rightarrow> bool" where
  "exact_host_rule (Exact _) = True"
| "exact_host_rule (Ip _) = True"
| "exact_host_rule _ = False"

definition extensible :: "'n network_policy \<Rightarrow> bool" where
  "extensible p =
     (case nc_capability (np_source p) of
        Some (AllowList _ _) \<Rightarrow> True
      | Some (Policy ActionDeny _ _ _) \<Rightarrow> True
      | None \<Rightarrow> np_mode p = Allowlist
      | _ \<Rightarrow> False)"

definition one_time_grant ::
  "'n ipnet_ops \<Rightarrow> 'n network_policy \<Rightarrow> network_access_request \<Rightarrow> policy_error + 'n network_policy" where
  "one_time_grant N p request =
     bind_res (parse_network_rule N (req_host request)) (\<lambda>entry.
     bind_res (ensure (exact_host_rule (nr_host entry)) NotExactHost) (\<lambda>_.
     bind_res (ensure (np_preflight N p request \<noteq> Inl DenyExplicitDeny) ExplicitDenyNotOverridable) (\<lambda>_.
     case nc_capability (np_source p) of
       Some (Scoped layers fb) \<Rightarrow>
         bind_res (require_port request) (\<lambda>port.
         let grant = grant_rule request port in
         bind_res (grant_fallback grant fb) (\<lambda>fb'.
         np_compile N ((np_source p)\<lparr>nc_capability := Some (Scoped (map (grant_layer grant) layers) fb')\<rparr>)))
     | _ \<Rightarrow>
         bind_res (ensure (extensible p) NotAnAllowlist) (\<lambda>_.
         bind_res (require_port request) (\<lambda>port.
         let rules = [grant_rule request port] in
         np_compile N ((np_source p)
           \<lparr>nc_allowed_hosts := [], nc_rules := rules,
            nc_capability :=
              (case nc_capability (np_source p) of
                 Some (AllowList _ _) \<Rightarrow> Some (AllowList [] rules)
               | Some (Policy _ _ deny limits) \<Rightarrow> Some (Policy ActionDeny rules deny limits)
               | _ \<Rightarrow> None)\<rparr>))))))"

section \<open>Bandwidth limits\<close>

definition matching_limits ::
  "'n ipnet_ops \<Rightarrow> 'n network_policy \<Rightarrow> rstr \<Rightarrow> u16 option \<Rightarrow> ip_addr list
     \<Rightarrow> network_bandwidth_limit list" where
  "matching_limits N p host port resolved_addresses =
     map cbl_config
       (filter (\<lambda>limit.
          (case nbl_port (cbl_config limit) of None \<Rightarrow> True | Some expected \<Rightarrow> port = Some expected)
          \<and> (case cbl_matcher limit of
               None \<Rightarrow> True
             | Some matcher \<Rightarrow>
                 host_matches N host [matcher]
                 \<or> list_ex (\<lambda>address. host_matches N (show_ip address) [matcher]) resolved_addresses))
        (np_limits p))"

section \<open>Authorities\<close>

definition host_from_authority :: "rstr \<Rightarrow> rstr" where
  "host_from_authority raw =
     (let authority = trim raw;
          plain = (case rsplit_once CHR '':'' authority of
                     Some (host, port) \<Rightarrow>
                       if host \<noteq> [] \<and> list_all is_ascii_digit port then normalize_host host
                       else normalize_host authority
                   | None \<Rightarrow> normalize_host authority)
      in case strip_prefix ''['' authority of
           Some rest \<Rightarrow>
             if CHR '']'' \<in> set rest then normalize_host (takeWhile (\<lambda>c. c \<noteq> CHR '']'') rest)
             else plain
         | None \<Rightarrow> plain)"

section \<open>Session layers\<close>

record session_network =
  sn_session :: "network_policy_layer option"
  sn_workspace :: "network_policy_layer option"
  sn_user :: "network_policy_layer option"

definition session_scopes ::
  "session_network \<Rightarrow> (policy_scope \<times> network_policy_layer option) list" where
  "session_scopes s = [(Session, sn_session s), (Workspace, sn_workspace s), (User, sn_user s)]"

definition own_layers :: "session_network \<Rightarrow> (policy_scope \<times> network_policy_layer) list" where
  "own_layers s =
     List.map_filter (\<lambda>sl. map_option (\<lambda>l. (fst sl, l)) (snd sl)) (session_scopes s)"

definition inherit_layer ::
  "(policy_scope \<times> 'a) list \<Rightarrow> policy_scope \<times> 'a \<Rightarrow> (policy_scope \<times> 'a) list" where
  "inherit_layer layers sl = (if fst sl \<in> fst ` set layers then layers else layers @ [sl])"

fun inherit_layers ::
  "(policy_scope \<times> network_policy_layer) list \<Rightarrow> network_capability
     \<Rightarrow> (policy_scope \<times> network_policy_layer) list \<times> network_capability" where
  "inherit_layers layers (Scoped inherited fb) = inherit_layers (foldl inherit_layer layers inherited) fb"
| "inherit_layers layers base = (layers, base)"

definition session_network_capability ::
  "session_network \<Rightarrow> network_capability \<Rightarrow> network_capability" where
  "session_network_capability s fb =
     (let (layers, base) = inherit_layers (own_layers s) fb;
          layers = sort_scopes layers
      in if layers = [] then base else Scoped layers base)"

section \<open>Preflight is the guard's decision\<close>

lemma np_compileD:
  assumes "np_compile N cfg = Inr p"
  shows "guard_compile N (network_capability_of cfg) [] = Inr (np_guard p)"
    and "np_source p = cfg" and "np_mode p = nc_mode cfg" and "guard_ok (np_guard p)"
    and "collect_res (compile_limit N)
           (foldl push_new (limits_for (ng_capability (np_guard p))) (nc_limits cfg)) = Inr (np_limits p)"
  using assms by (auto simp: np_compile_def res_simps Let_def intro: guard_ok_compile)

lemma guard_capability_compile:
  "guard_compile N c ts = Inr g \<Longrightarrow> ng_capability g = c"
  by (cases "is_scoped c"; cases c)
     (auto simp: guard_compile_leaf dest!: compile_parts_InrD elim!: guard_compile_scopedD)

lemma preflight_iff:
  assumes "guard_ok (np_guard p)"
  shows "np_preflight N p req = Inr () \<longleftrightarrow> is_allowed (authorize_network N (np_guard p) req)"
  using policy.machine_accepts [of "NetworkRequest (np_guard p) req" N] assms
  by (simp add: np_preflight_def authorize_egress_def)

lemma leaf_reason_explicit:
  "\<not> is_allowed t \<Longrightarrow> decision t \<Longrightarrow> egress_deny_reason (tr_reason t) = DenyExplicitDeny
     \<longleftrightarrow> t = tr_denied ExplicitlyDenied"
  by (cases t; cases "tr_reason t") (auto simp: is_allowed_def decision_def tr_denied_def)

lemma preflight_explicit_iff:
  assumes "guard_ok (np_guard p)"
  shows "np_preflight N p req = Inl DenyExplicitDeny
         \<longleftrightarrow> authorize_network N (np_guard p) req = tr_denied ExplicitlyDenied"
  using policy.machine_accepts [of "NetworkRequest (np_guard p) req" N] assms
    policy.decides [of "NetworkRequest (np_guard p) req" N]
    leaf_reason_explicit [of "authorize_network N (np_guard p) req"]
  by (auto simp: np_preflight_def authorize_egress_def)

section \<open>Unrestricted packets\<close>

lemma unrestricted_leaf_allows:
  assumes "unrestricted c" "\<not> is_scoped c" "guard_compile N c [] = Inr g"
  shows "is_allowed (authorize_network_with_host N req host g)"
  using assms(3) assms(1,2)
  by (cases c) (auto simp: guard_compile_leaf authorize_leaf_def is_trusted_def evaluate_rules_def
      dest!: compile_parts_InrD split: option.splits)

lemma unrestricted_allows:
  assumes "unrestricted c" "guard_compile N c [] = Inr g"
  shows "is_allowed (authorize_network N g req)"
proof (cases c)
  case (Scoped layers fb)
  have fb: "unrestricted fb" "layers = []" using assms(1) Scoped by auto
  from assms(2) [unfolded Scoped] show ?thesis
  proof (rule guard_compile_scopedD)
    fix compiled fg
    assume "collect_res (compile_layer N []) layers = Inr compiled"
      "\<not> is_scoped fb" "guard_compile N fb [] = Inr fg"
      "g = NetworkGuard (Scoped layers fb) [] [] (map normalize_host []) (sort_scopes compiled) (Some fg)"
    then show ?thesis
      using fb unrestricted_leaf_allows [of fb N fg req]
      by (simp add: authorize_network_def authorize_scoped_iff sort_scopes_def
          del: authorize_network_with_host.simps)
  qed
qed (use assms unrestricted_leaf_allows [OF assms(1) _ assms(2)] in \<open>auto simp: authorize_network_def\<close>)

section \<open>Session layers\<close>

lemma inherit_layers_leaf: "\<not> is_scoped (snd (inherit_layers layers c))"
  by (induction layers c rule: inherit_layers.induct) auto

lemma inherit_layer_distinct:
  "distinct (map fst layers) \<Longrightarrow> distinct (map fst (inherit_layer layers sl))"
  by (auto simp: inherit_layer_def)

lemma fold_inherit_distinct:
  "distinct (map fst layers) \<Longrightarrow> distinct (map fst (foldl inherit_layer layers ls))"
  by (induction ls arbitrary: layers) (auto intro: inherit_layer_distinct)

lemma inherit_layers_distinct:
  "distinct (map fst layers) \<Longrightarrow> distinct (map fst (fst (inherit_layers layers c)))"
  by (induction layers c rule: inherit_layers.induct) (auto intro: fold_inherit_distinct)

lemma own_layers_distinct: "distinct (map fst (own_layers s))"
  by (auto simp: own_layers_def session_scopes_def List.map_filter_def)

lemma inherit_layer_mono: "set layers \<subseteq> set (inherit_layer layers sl)"
  by (auto simp: inherit_layer_def)

lemma fold_inherit_mono: "set layers \<subseteq> set (foldl inherit_layer layers ls)"
  by (induction ls arbitrary: layers) (auto dest: subsetD [OF inherit_layer_mono])

lemma inherit_layers_mono: "set layers \<subseteq> set (fst (inherit_layers layers c))"
proof (induction layers c rule: inherit_layers.induct)
  case (1 layers inherited fb)
  then show ?case using fold_inherit_mono [of layers inherited] by auto
qed auto

lemma distinct_sort_scopes:
  "distinct (map fst xs) \<Longrightarrow> successively (\<lambda>a b. fst a \<noteq> fst b) (sort_scopes xs)"
  by (rule distinct_successively) (simp add: distinct_map sort_scopes_def)

fun base_capability :: "network_capability \<Rightarrow> network_capability" where
  "base_capability (Scoped _ fb) = base_capability fb"
| "base_capability c = c"

lemma inherit_layers_base: "snd (inherit_layers layers c) = base_capability c"
  by (induction layers c rule: inherit_layers.induct) auto


section \<open>Grants\<close>

definition accepted_by :: "'n ipnet_ops \<Rightarrow> network_access_rule \<Rightarrow> network_access_request \<Rightarrow> bool" where
  "accepted_by N rule q \<longleftrightarrow>
     (case compile_network_rule N rule of
        Inl _ \<Rightarrow> False
      | Inr r \<Rightarrow> rule_accepts N q (network_host_new (req_host q)) True r)"

lemma accepted_by_iff:
  "accepted_by N rule q \<longleftrightarrow> (\<exists>r. compile_network_rule N rule = Inr r
     \<and> rule_accepts N q (network_host_new (req_host q)) True r)"
  by (auto simp: accepted_by_def split: sum.splits)

fun deny_default :: "network_capability \<Rightarrow> bool" where
  "deny_default (AllowList _ _) = True"
| "deny_default (Policy ActionDeny _ _ _) = True"
| "deny_default _ = False"

fun declared_allows :: "network_capability \<Rightarrow> network_access_rule list" where
  "declared_allows (AllowList hosts rules) = map host_entry_rule hosts @ rules"
| "declared_allows (Policy _ allow _ _) = allow"
| "declared_allows _ = []"

lemma collect_res_map: "collect_res f (map g xs) = collect_res (\<lambda>x. f (g x)) xs"
  by (induction xs) (auto split: sum.splits)

lemma parse_network_rule_entry:
  "parse_network_rule N = (\<lambda>host. compile_network_rule N (host_entry_rule host))"
  by (simp add: fun_eq_iff parse_network_rule_def host_entry_rule_def)

lemma compile_allow_declared:
  "compile_allow N c = collect_res (compile_network_rule N) (declared_allows c)"
  by (cases c) (simp_all add: collect_res_append collect_res_map parse_network_rule_entry)

lemma leaf_deniesD:
  assumes "\<not> is_scoped c" "guard_compile N c [] = Inr g"
  shows "collect_res (compile_network_rule N) (declared_allows c) = Inr (ng_rules g)"
    and "ng_fallback g = None" and "ng_trusted_hosts g = []" and "ng_capability g = c"
  using assms by (auto simp: guard_compile_leaf compile_allow_declared dest!: compile_parts_InrD)

lemma evaluate_rules_InlD:
  "evaluate_rules N rules q host e = Inl f \<Longrightarrow> \<forall>r \<in> set rules. \<not> rule_accepts N q host e r"
  using evaluate_rules_Inr [of N rules q host e] by fastforce

lemma deny_default_allows_iff:
  assumes "deny_default c" "guard_compile N c [] = Inr g"
  shows "is_allowed (authorize_network N g q) \<longleftrightarrow>
     \<not> list_ex (denies N q) (declared_denies c) \<and> list_ex (\<lambda>r. accepted_by N r q) (declared_allows c)"
proof -
  have c: "\<not> is_scoped c" using assms(1) by (cases c) auto
  note g = leaf_deniesD [OF c assms(2)]
  have *: "list_ex (\<lambda>r. accepted_by N r q) (declared_allows c)
        \<longleftrightarrow> (\<exists>r \<in> set (ng_rules g). rule_accepts N q (network_host_new (req_host q)) True r)"
    using collect_res_set [OF g(1)] by (auto simp: list_ex_iff accepted_by_iff)
  have d: "deny_default (ng_capability g)" using assms(1) g(4) by simp
  show ?thesis
    using d g(2,3) unfolding * guard_denied_compile [OF assms(2), of q, symmetric]
    by (cases g; cases "ng_capability g")
       (auto simp: authorize_network_def authorize_leaf_def is_trusted_def
          dest!: evaluate_rules_InlD split: sum.splits network_default_action.splits)
qed


lemma allow_default_allows_iff:
  assumes "guard_compile N (Policy ActionAllow allow deny limits) [] = Inr g"
  shows "is_allowed (authorize_network N g q) \<longleftrightarrow>
     \<not> list_ex (denies N q) deny
     \<and> (\<not> list_ex (\<lambda>r. matches_host N r (network_host_new (req_host q)) None) (ng_rules g)
         \<or> list_ex (\<lambda>r. accepted_by N r q) allow)"
proof -
  let ?c = "Policy ActionAllow allow deny limits"
  have c: "\<not> is_scoped ?c" by simp
  note g = leaf_deniesD [OF c assms]
  have *: "list_ex (\<lambda>r. accepted_by N r q) allow
        \<longleftrightarrow> (\<exists>r \<in> set (ng_rules g). rule_accepts N q (network_host_new (req_host q)) True r)"
    using collect_res_set [OF g(1)] by (auto simp: list_ex_iff accepted_by_iff)
  have d: "list_ex (denies N q) deny \<longleftrightarrow> guard_denied N q (network_host_new (req_host q)) g"
    using guard_denied_compile [OF assms, of q] by simp
  show ?thesis
    using g(2,3,4) unfolding * d
    by (cases g)
       (auto simp: authorize_network_def authorize_leaf_def is_trusted_def
          dest!: evaluate_rules_InlD split: sum.splits network_match_failure.splits)
qed

lemma grant_fallback_declared:
  "\<not> is_scoped c \<Longrightarrow> grant_fallback grant c = Inr c' \<Longrightarrow>
     \<not> is_scoped c' \<and> declared_denies c' = declared_denies c
     \<and> (c' = Ambient \<and> c = Ambient \<or> declared_allows c' = declared_allows c @ [grant])"
  by (cases c) auto

lemma leaf_compile_iff:
  "\<not> is_scoped c \<Longrightarrow> (\<exists>g. guard_compile N c [] = Inr g) \<longleftrightarrow>
     (\<exists>rs. collect_res (compile_network_rule N) (declared_allows c) = Inr rs)
     \<and> (\<exists>ds. collect_res (compile_network_rule N) (declared_denies c) = Inr ds)"
  by (cases c) (auto simp: guard_compile_leaf compile_parts_def compile_allow_declared bind_res_Inr_iff)

lemma grant_leaf_compiles:
  assumes "\<not> is_scoped c" "grant_fallback grant c = Inr c'" "guard_compile N c' [] = Inr g'"
  obtains g where "guard_compile N c [] = Inr g"
proof -
  have "\<exists>g. guard_compile N c [] = Inr g"
    using assms grant_fallback_declared [OF assms(1,2)] leaf_compile_iff [of c N]
      leaf_compile_iff [of c' N]
    by (auto simp: collect_res_append res_simps)
  then show ?thesis using that by blast
qed

lemma grant_leaf:
  assumes "\<not> is_scoped c" "grant_fallback grant c = Inr c'" "allows N c' [] q"
  shows "allows N c [] q \<or> accepted_by N grant q"
proof -
  obtain g' where g': "guard_compile N c' [] = Inr g'" "is_allowed (authorize_network N g' q)"
    using assms(3) by (auto simp: allows_def split: sum.splits)
  obtain g where g: "guard_compile N c [] = Inr g"
    using grant_leaf_compiles [OF assms(1,2) g'(1)] .
  note decl = grant_fallback_declared [OF assms(1,2)]
  show ?thesis
  proof (cases "deny_default c")
    case True
    moreover have "deny_default c'"
      using True assms(2) by (cases c) (auto split: network_default_action.splits elim: deny_default.elims)
    ultimately show ?thesis
      using deny_default_allows_iff [OF _ g, of q] deny_default_allows_iff [OF _ g'(1), of q] g g' decl
      by (auto simp: allows_def)
  next
    case False
    then consider "c = Ambient" | allow deny limits where "c = Policy ActionAllow allow deny limits"
      using assms(1,2) by (cases c rule: deny_default.cases) auto
    then show ?thesis
    proof cases
      case 2
      then have c': "c' = Policy ActionAllow (allow @ [grant]) deny limits" using assms(2) by simp
      obtain gr where "ng_rules g @ [gr] = ng_rules g'"
        using leaf_deniesD(1) [OF _ g'(1)] leaf_deniesD(1) [OF assms(1) g] 2 c'
        by (auto simp: collect_res_append res_simps split: sum.splits)
      then have "set (ng_rules g') = insert gr (set (ng_rules g))"
        by (metis append_Nil2 set_append list.simps(15) Un_insert_right empty_set)
      then show ?thesis
        using g g' allow_default_allows_iff [OF g [unfolded 2], of q]
          allow_default_allows_iff [OF g'(1) [unfolded c'], of q]
        by (auto simp: allows_def list_ex_iff)
    qed (use assms in \<open>simp add: allows_def\<close>)
  qed
qed


lemma grant_layer_capability:
  "grant_fallback grant (layer_capability (snd sl)) = Inr (layer_capability (snd (grant_layer grant sl)))"
  by (simp add: layer_capability_def grant_layer_def)

lemma grant_scoped:
  assumes "guard_compile N (Scoped layers fb) [] = Inr g"
    and "grant_fallback grant fb = Inr fb'"
    and "guard_compile N (Scoped (map (grant_layer grant) layers) fb') [] = Inr g'"
    and "is_allowed (authorize_network N g' q)"
  shows "is_allowed (authorize_network N g q) \<or> accepted_by N grant q"
proof -
  have fb: "\<not> is_scoped fb" using assms(1) by (rule guard_compile_scopedD)
  have "allows N (layer_capability (snd (grant_layer grant sl))) [] q" if "sl \<in> set layers" for sl
    using scoped_is_intersection [OF assms(3)] assms(4) that by auto
  then have "allows N (layer_capability (snd sl)) [] q \<or> accepted_by N grant q" if "sl \<in> set layers" for sl
    using that grant_leaf [OF layer_capability_not_scoped grant_layer_capability] by blast
  moreover have "allows N fb [] q \<or> accepted_by N grant q"
    using scoped_is_intersection [OF assms(3)] assms(4) grant_leaf [OF fb assms(2)] by auto
  ultimately show ?thesis
    using scoped_is_intersection [OF assms(1)] by auto
qed

lemma grant_scoped_denies:
  assumes "\<not> is_scoped fb" "grant_fallback grant fb = Inr fb'"
  shows "declared_denies (Scoped (map (grant_layer grant) layers) fb') = declared_denies (Scoped layers fb)"
  using grant_fallback_declared [OF assms] by (simp add: grant_layer_def comp_def)

text \<open>The two shapes of a granted policy.\<close>

definition granted_capability ::
  "network_capability \<Rightarrow> network_access_rule \<Rightarrow> network_capability \<Rightarrow> bool" where
  "granted_capability c grant c' =
     (case c of
        Scoped layers fb \<Rightarrow>
          (\<exists>fb'. grant_fallback grant fb = Inr fb' \<and> c' = Scoped (map (grant_layer grant) layers) fb')
      | _ \<Rightarrow> deny_default c \<and> deny_default c' \<and> declared_allows c' = [grant]
             \<and> declared_denies c' = declared_denies c)"

lemma one_time_grantD:
  assumes "one_time_grant N p req = Inr p'" "np_compile N cfg = Inr p"
  obtains port cfg' where "req_port req = Some port" "np_compile N cfg' = Inr p'"
    "granted_capability (network_capability_of cfg) (grant_rule req port) (network_capability_of cfg')"
    "np_preflight N p req \<noteq> Inl DenyExplicitDeny"
    "\<exists>r. parse_network_rule N (req_host req) = Inr r \<and> exact_host_rule (nr_host r)"
  using assms(1) np_compileD(2,3) [OF assms(2)]
  by (auto simp: one_time_grant_def res_simps require_port_def granted_capability_def Let_def
      network_capability_of_def extensible_def host_entry_rule_def
      split: option.splits network_capability.splits network_default_action.splits if_splits
        network_mode.splits)

lemma accepted_grant:
  assumes "accepted_by N (grant_rule req port) q"
  shows "req_port q = Some port \<and> req_transport q = req_transport req
         \<and> (\<exists>r. compile_network_rule N (grant_rule req port) = Inr r
                \<and> matches_host N r (network_host_new (req_host q)) (req_resolved_ip q))"
  using assms
  by (auto simp: accepted_by_iff rule_accepts_def compile_network_rule_def grant_rule_def Let_def
      res_simps matches_port_def matches_transport_def split: if_splits option.splits)

lemma granted_denies:
  assumes "granted_capability c grant c'" "guard_compile N c [] = Inr g"
  shows "declared_denies c' = declared_denies c"
proof (cases c)
  case (Scoped layers fb)
  then have "\<not> is_scoped fb" using assms(2) by (auto elim: guard_compile_scopedD)
  then show ?thesis
    using assms(1) grant_scoped_denies Scoped by (auto simp: granted_capability_def)
qed (use assms(1) in \<open>auto simp: granted_capability_def\<close>)

lemma granted_allows:
  assumes "granted_capability c grant c'" "guard_compile N c [] = Inr g"
    and "guard_compile N c' [] = Inr g'" "is_allowed (authorize_network N g' q)"
  shows "is_allowed (authorize_network N g q) \<or> accepted_by N grant q"
proof (cases c)
  case (Scoped layers fb)
  then obtain fb' where "grant_fallback grant fb = Inr fb'"
    "c' = Scoped (map (grant_layer grant) layers) fb'"
    using assms(1) by (auto simp: granted_capability_def)
  then show ?thesis
    using grant_scoped [of N layers fb g grant fb' g' q] assms(2-4) Scoped by simp
qed (use assms(1,4) deny_default_allows_iff [OF _ assms(3), of q]
      in \<open>auto simp: granted_capability_def\<close>)

lemma normalize_host_trim [simp]: "normalize_host (trim s) = normalize_host s"
  by (simp add: normalize_host_def)

text \<open>
  What the \<open>ipnet\<close> crate documents and the grants rely on: only a text with a prefix length
  parses as a network.
\<close>

definition networks_have_prefix :: "'n ipnet_ops \<Rightarrow> bool" where
  "networks_have_prefix N \<longleftrightarrow> (\<forall>s. CHR ''/'' \<notin> set s \<longrightarrow> ipnet_from_str N s = None)"

text \<open>
  A grant covers where its request goes: to the literal it names, or to a public address, or the name
  is not resolved yet.
\<close>

definition destination_covered :: "network_access_request \<Rightarrow> bool" where
  "destination_covered req =
     (case req_resolved_ip req of
        None \<Rightarrow> True
      | Some ip \<Rightarrow>
          (case parse_ip (trim (req_host req)) of
             Some literal \<Rightarrow> canonical_ip ip = canonical_ip literal
           | None \<Rightarrow> is_public_egress_ip ip))"

lemma parse_exact_cases:
  assumes "networks_have_prefix N" "parse_network_host_rule N raw = Inr host" "exact_host_rule host"
  obtains "host = Exact (normalize_host raw)" "parse_ip (trim raw) = None"
  | literal where "host = Ip literal" "parse_ip (trim raw) = Some literal" "parse_ip (normalize_host raw) = Some literal"
proof -
  have "ipnet_from_str N (trim raw) = None \<or> CHR ''/'' \<in> set (trim raw)"
    using assms(1) by (auto simp: networks_have_prefix_def)
  then show thesis
    using assms(2,3) that normalize_literal [of raw]
    by (auto simp: parse_network_host_rule_def Let_def split: if_splits option.splits)
qed

lemma grant_accepts_iff:
  assumes "networks_have_prefix N" "parse_network_rule N (req_host req) = Inr r" "exact_host_rule (nr_host r)"
    and "port \<noteq> 0" "req_port req = Some port"
  shows "accepted_by N (grant_rule req port) req \<longleftrightarrow> destination_covered req"
proof -
  obtain host where host: "parse_network_host_rule N (req_host req) = Inr host" "exact_host_rule host"
    using assms(2,3)
    by (auto simp: parse_network_rule_def compile_network_rule_def Let_def res_simps split: if_splits)
  note unfolded = accepted_by_def compile_network_rule_def grant_rule_def rule_accepts_def destination_covered_def
    matches_host_def network_host_new_def Let_def matches_port_def matches_transport_def
    allows_resolved_address_def matches_ip_def
  from assms(1) host show ?thesis
  proof (rule parse_exact_cases)
    fix literal
    assume "host = Ip literal" "parse_ip (trim (req_host req)) = Some literal"
      "parse_ip (normalize_host (req_host req)) = Some literal"
    then show ?thesis using assms(4,5) host(1) by (simp add: unfolded split: option.split)
  qed (use assms(4,5) host(1) in \<open>simp add: unfolded split: option.split\<close>)
qed

lemma allows_grant:
  assumes "\<not> is_scoped c" "grant_fallback grant c = Inr c'" "guard_compile N c' [] = Inr g'"
    and "accepted_by N grant q" "\<not> list_ex (denies N q) (declared_denies c)"
  shows "is_allowed (authorize_network N g' q)"
proof (cases "c = Ambient")
  case True
  then show ?thesis using assms(2) unrestricted_allows [OF _ assms(3)] by auto
next
  case False
  then consider "deny_default c'" | allow deny limits where "c' = Policy ActionAllow allow deny limits"
    using assms(1,2) by (cases c rule: deny_default.cases) auto
  then show ?thesis
    using grant_fallback_declared [OF assms(1,2)] False assms(3-5)
      deny_default_allows_iff [OF _ assms(3), of q] allow_default_allows_iff [of N _ _ _ g' q]
    by cases auto
qed

lemma granted_works:
  assumes "granted_capability c grant c'" "guard_compile N c [] = Inr g"
    and "guard_compile N c' [] = Inr g'" "accepted_by N grant q"
    and "\<not> list_ex (denies N q) (declared_denies c)"
  shows "is_allowed (authorize_network N g' q)"
proof (cases c)
  case (Scoped layers fb)
  then obtain fb' where fb': "grant_fallback grant fb = Inr fb'"
    "c' = Scoped (map (grant_layer grant) layers) fb'"
    using assms(1) by (auto simp: granted_capability_def)
  have fb: "\<not> is_scoped fb" using assms(2) Scoped by (auto elim: guard_compile_scopedD)
  from assms(3) [unfolded fb'(2)] obtain compiled fg where
    c: "collect_res (compile_layer N []) (map (grant_layer grant) layers) = Inr compiled"
      "guard_compile N fb' [] = Inr fg"
    by (rule guard_compile_scopedD)
  have "allows N (layer_capability (snd (grant_layer grant sl))) [] q" if sl: "sl \<in> set layers" for sl
  proof -
    have "\<exists>y. compile_layer N [] (grant_layer grant sl) = Inr y"
      using collect_res_InrD [OF c(1)] sl by (auto simp: list_all2_conv_all_nth in_set_conv_nth)
    then obtain gl where gl: "guard_compile N (layer_capability (snd (grant_layer grant sl))) [] = Inr gl"
      by (auto dest: compile_layer_InrD)
    moreover have "\<not> list_ex (denies N q) (declared_denies (layer_capability (snd sl)))"
      using assms(5) sl Scoped by (auto simp: layer_capability_def list_ex_iff)
    ultimately show ?thesis
      using allows_grant [OF layer_capability_not_scoped grant_layer_capability gl assms(4)]
      by (simp add: allows_def)
  qed
  moreover have "allows N fb' [] q"
    using allows_grant [OF fb fb'(1) c(2) assms(4)] assms(5) Scoped c(2) by (simp add: allows_def)
  ultimately show ?thesis
    using scoped_is_intersection [OF assms(3) [unfolded fb'(2)]] by auto
qed (use assms(1,4,5) deny_default_allows_iff [OF _ assms(3), of q]
      in \<open>auto simp: granted_capability_def\<close>)


section \<open>Errors of compilation\<close>

definition structural :: "policy_error \<Rightarrow> bool" where
  "structural e \<longleftrightarrow> e = DuplicateScopes \<or> e = FallbackNotLeaf"

lemma parse_host_error: "parse_network_host_rule N raw = Inl e \<Longrightarrow> \<not> structural e"
  by (auto simp: parse_network_host_rule_def structural_def Let_def split: if_splits option.splits)

lemma rule_error: "compile_network_rule N r = Inl e \<Longrightarrow> \<not> structural e"
  by (auto simp: compile_network_rule_def Let_def bind_res_Inl_iff structural_def
      dest: parse_host_error split: if_splits)

lemma deny_declared:
  "\<not> is_scoped c \<Longrightarrow> compile_deny N c = collect_res (compile_network_rule N) (declared_denies c)"
  by (cases c) simp_all

lemma leaf_error: "\<not> is_scoped c \<Longrightarrow> guard_compile N c ts = Inl e \<Longrightarrow> \<not> structural e"
  by (auto simp: guard_compile_leaf compile_parts_def bind_res_Inl_iff compile_allow_declared
      deny_declared dest!: collect_res_InlD rule_error)

lemma layer_error: "compile_layer N ts sl = Inl e \<Longrightarrow> \<not> structural e"
  by (auto simp: compile_layer_def bind_res_Inl_iff
      dest: leaf_error [OF layer_capability_not_scoped, unfolded guard_compile_leaf [OF layer_capability_not_scoped]])

lemma scoped_error:
  assumes "guard_compile N (Scoped layers fb) ts = Inl e" "distinct (map fst layers)" "\<not> is_scoped fb"
  shows "\<not> structural e"
proof -
  have "successively (\<lambda>a b. fst a \<noteq> fst b) (sort_scopes compiled)"
    if "collect_res (compile_layer N ts) layers = Inr compiled" for compiled
  proof -
    have "map fst compiled = map fst layers"
      using collect_res_InrD [OF that] by induction (auto dest: compile_layer_InrD)
    then show ?thesis using assms(2) distinct_sort_scopes by metis
  qed
  then show ?thesis
    using assms(1,3) leaf_error [OF assms(3), of N ts e]
    by (auto simp: guard_compile_def [of N "Scoped layers fb"] bind_res_Inl_iff Let_def
        guard_compile_leaf dest!: collect_res_InlD dest: layer_error)
qed

section \<open>A concrete configuration\<close>

definition ex_cfg :: network_config where
  "ex_cfg =
     \<lparr>nc_capability = Some (Scoped [(Session, ex_layer)] (AllowList [''*.example.com'', ''*.example.org''] [])),
      nc_mode = Public, nc_allowed_hosts = [], nc_rules = [], nc_deny_rules = [], nc_limits = []\<rparr>"

definition ex_granted :: "ip_addr network_policy option" where
  "ex_granted =
     (case np_compile host_nets ex_cfg of
        Inl _ \<Rightarrow> None
      | Inr p \<Rightarrow> (case one_time_grant host_nets p (ex_req ''api.example.net'') of
                    Inl _ \<Rightarrow> None | Inr p' \<Rightarrow> Some p'))"

lemma ex_grantE:
  obtains p p' where "np_compile host_nets ex_cfg = Inr p"
    "one_time_grant host_nets p (ex_req ''api.example.net'') = Inr p'" "ex_granted = Some p'"
proof -
  have "ex_granted \<noteq> None" by code_simp
  then show ?thesis using that by (auto simp: ex_granted_def split: sum.splits)
qed

definition ex_granted_allows :: "rstr \<Rightarrow> bool" where
  "ex_granted_allows h =
     (case ex_granted of None \<Rightarrow> False | Some p' \<Rightarrow> \<not> isl (np_preflight host_nets p' (ex_req h)))"

section \<open>Properties\<close>

text \<open>
  C8. A one-time approval grants one destination: a request that the granted policy admits
  was admitted before, or has the approved port and transport and a host that the rule of
  the approved host matches.
\<close>

theorem one_time_grant_is_narrow:
  assumes "np_compile N cfg = Inr p" "one_time_grant N p req = Inr p'"
    and "np_preflight N p' q = Inr ()"
  shows "np_preflight N p q = Inr ()
         \<or> (\<exists>port r. req_port req = Some port \<and> req_port q = Some port
              \<and> req_transport q = req_transport req
              \<and> compile_network_rule N (grant_rule req port) = Inr r
              \<and> matches_host N r (network_host_new (req_host q)) (req_resolved_ip q))"
proof (rule one_time_grantD [OF assms(2,1)])
  fix port cfg'
  assume port: "req_port req = Some port" and cfg': "np_compile N cfg' = Inr p'"
    and gr: "granted_capability (network_capability_of cfg) (grant_rule req port)
               (network_capability_of cfg')"
  note p = np_compileD [OF assms(1)] and p' = np_compileD [OF cfg']
  have "is_allowed (authorize_network N (np_guard p') q)"
    using assms(3) preflight_iff [OF p'(4)] by simp
  then show ?thesis
    using granted_allows [OF gr p(1) p'(1)] preflight_iff [OF p(4)] accepted_grant port by blast
qed

theorem one_time_grant_is_narrow_witness:
  "\<exists>p p'. np_compile host_nets ex_cfg = Inr p
     \<and> one_time_grant host_nets p (ex_req ''api.example.net'') = Inr p'
     \<and> np_preflight host_nets p' (ex_req ''API.example.net'') = Inr ()
     \<and> np_preflight host_nets p' (ex_req ''x.example.net'') \<noteq> Inr ()
     \<and> (np_preflight host_nets p (ex_req ''API.example.net'') = Inr ()
        \<or> (\<exists>r. compile_network_rule host_nets (grant_rule (ex_req ''api.example.net'') 443) = Inr r
               \<and> matches_host host_nets r (network_host_new ''API.example.net'') None))"
proof (rule ex_grantE)
  fix p p'
  assume p: "np_compile host_nets ex_cfg = Inr p"
    "one_time_grant host_nets p (ex_req ''api.example.net'') = Inr p'" "ex_granted = Some p'"
  have "ex_granted_allows ''API.example.net''" "\<not> ex_granted_allows ''x.example.net''"
    by code_simp+
  then have q: "np_preflight host_nets p' (ex_req ''API.example.net'') = Inr ()"
    "np_preflight host_nets p' (ex_req ''x.example.net'') \<noteq> Inr ()"
    by (simp_all add: ex_granted_allows_def p(3) isl_unit_iff)
  show ?thesis
    using p q one_time_grant_is_narrow [OF p(1,2) q(1)] by (auto simp: ex_req_def)
qed

text \<open>
  An approval never overrides an explicit denial: the granted policy answers with an
  explicit denial for exactly the requests for which the original policy does.
\<close>

theorem one_time_grant_keeps_denials:
  assumes "np_compile N cfg = Inr p" "one_time_grant N p req = Inr p'"
  shows "np_preflight N p' q = Inl DenyExplicitDeny \<longleftrightarrow> np_preflight N p q = Inl DenyExplicitDeny"
proof (rule one_time_grantD [OF assms(2,1)])
  fix port cfg'
  assume cfg': "np_compile N cfg' = Inr p'"
    and gr: "granted_capability (network_capability_of cfg) (grant_rule req port)
               (network_capability_of cfg')"
  note p = np_compileD [OF assms(1)] and p' = np_compileD [OF cfg']
  show ?thesis
    using preflight_explicit_iff [OF p(4)] preflight_explicit_iff [OF p'(4)]
      explicit_iff_denied [OF p(4)] explicit_iff_denied [OF p'(4)]
      guard_denied_compile [OF p(1)] guard_denied_compile [OF p'(1)] granted_denies [OF gr p(1)]
    by (simp add: authorize_network_def)
qed

theorem one_time_grant_keeps_denials_witness:
  "\<exists>p p'. np_compile host_nets ex_cfg = Inr p
     \<and> one_time_grant host_nets p (ex_req ''api.example.net'') = Inr p'
     \<and> np_preflight host_nets p' (ex_req ''bad.example.com'') = Inl DenyExplicitDeny"
proof (rule ex_grantE)
  fix p p'
  assume p: "np_compile host_nets ex_cfg = Inr p"
    "one_time_grant host_nets p (ex_req ''api.example.net'') = Inr p'"
  have "(case np_compile host_nets ex_cfg of
           Inl _ \<Rightarrow> False
         | Inr p \<Rightarrow> np_preflight host_nets p (ex_req ''bad.example.com'') = Inl DenyExplicitDeny)"
    by code_simp
  then show ?thesis
    using p one_time_grant_keeps_denials [OF p, of "ex_req ''bad.example.com''"] by auto
qed

text \<open>
  C31. What an approval of one request achieves, for host names and address literals alike and any
  port but zero. When the request goes where the grant covers it (the name is not resolved yet or
  resolves to a public address, or the host is the literal of the address), the granted policy
  admits it through every layer and the fallback. Otherwise, as for a name that resolves to a
  private address, the approval does not help: a request the old policy refused stays refused.
\<close>

theorem one_time_grant_takes_effect:
  assumes "networks_have_prefix N" "np_compile N cfg = Inr p" "one_time_grant N p req = Inr p'"
    and "req_port req \<noteq> Some 0"
  shows "(destination_covered req \<longrightarrow> np_preflight N p' req = Inr ())
    \<and> (\<not> destination_covered req \<and> np_preflight N p req \<noteq> Inr () \<longrightarrow> np_preflight N p' req \<noteq> Inr ())"
proof (rule one_time_grantD [OF assms(3,2)])
  fix port cfg'
  assume port: "req_port req = Some port" and cfg': "np_compile N cfg' = Inr p'"
    and gr: "granted_capability (network_capability_of cfg) (grant_rule req port)
               (network_capability_of cfg')"
    and nd: "np_preflight N p req \<noteq> Inl DenyExplicitDeny"
    and "\<exists>r. parse_network_rule N (req_host req) = Inr r \<and> exact_host_rule (nr_host r)"
  then obtain r where r: "parse_network_rule N (req_host req) = Inr r" "exact_host_rule (nr_host r)" by blast
  note p = np_compileD [OF assms(2)] and p' = np_compileD [OF cfg']
  have "\<not> list_ex (denies N req) (declared_denies (network_capability_of cfg))"
    using nd preflight_explicit_iff [OF p(4)] explicit_iff_denied [OF p(4)]
      guard_denied_compile [OF p(1)] by (simp add: authorize_network_def)
  moreover have "accepted_by N (grant_rule req port) req \<longleftrightarrow> destination_covered req"
    using grant_accepts_iff [OF assms(1) r _ port] assms(4) port by blast
  ultimately show ?thesis
    using granted_works [OF gr p(1) p'(1)] granted_allows [OF gr p(1) p'(1), of req]
      preflight_iff [OF p(4)] preflight_iff [OF p'(4)] by blast
qed

text \<open>An approved literal of a private address is admitted, an approved name that resolves to it is not.\<close>

theorem one_time_grant_takes_effect_witness:
  "(\<exists>p p'. np_compile host_nets ex_cfg = Inr p
     \<and> one_time_grant host_nets p ((ex_req ''10.0.0.7'')\<lparr>req_resolved_ip := Some (V4 10 0 0 7)\<rparr>) = Inr p'
     \<and> np_preflight host_nets p' ((ex_req ''10.0.0.7'')\<lparr>req_resolved_ip := Some (V4 10 0 0 7)\<rparr>) = Inr ())
   \<and> (\<exists>p p'. np_compile host_nets ex_cfg = Inr p
     \<and> one_time_grant host_nets p ((ex_req ''api.example.net'')\<lparr>req_resolved_ip := Some (V4 10 0 0 7)\<rparr>) = Inr p'
     \<and> np_preflight host_nets p' ((ex_req ''api.example.net'')\<lparr>req_resolved_ip := Some (V4 10 0 0 7)\<rparr>) \<noteq> Inr ())"
proof -
  let ?req = "\<lambda>h. (ex_req h)\<lparr>req_resolved_ip := Some (V4 10 0 0 7)\<rparr>"
  have nets: "networks_have_prefix host_nets"
    by (auto simp: networks_have_prefix_def host_nets_def strip_suffix_def ends_with_iff split: option.splits if_splits)
  have port: "req_port (?req h) \<noteq> Some 0" for h by (simp add: ex_req_def)
  have not_Inl: "(\<forall>x. z \<noteq> Inl x) \<longleftrightarrow> (\<exists>y. z = Inr y)" for z :: "policy_error + ip_addr network_policy" by (cases z) auto
  have "case np_compile host_nets ex_cfg of Inl _ \<Rightarrow> False | Inr p \<Rightarrow>
      \<not> isl (one_time_grant host_nets p (?req ''10.0.0.7'')) \<and> \<not> isl (one_time_grant host_nets p (?req ''api.example.net''))
      \<and> isl (np_preflight host_nets p (?req ''api.example.net''))" by code_simp
  then obtain p p1 p2 where p: "np_compile host_nets ex_cfg = Inr p"
    "one_time_grant host_nets p (?req ''10.0.0.7'') = Inr p1"
    "one_time_grant host_nets p (?req ''api.example.net'') = Inr p2"
    "np_preflight host_nets p (?req ''api.example.net'') \<noteq> Inr ()"
    by (auto simp: isl_def not_Inl split: sum.splits)
  have "destination_covered (?req ''10.0.0.7'')" "\<not> destination_covered (?req ''api.example.net'')" by code_simp+
  then show ?thesis
    using one_time_grant_takes_effect [OF nets p(1,2) port] one_time_grant_takes_effect [OF nets p(1,3) port] p by blast
qed

text \<open>
  C20. No controller widens the compiled policy. A resolved request that gets through was
  admitted by the policy as it stands, or it carries a connector alias (an address of
  198.18.0.0/15 under a name that is not an address), the alias mode is on, and the policy
  admits the request without its address.
\<close>

theorem controller_never_widens:
  assumes "np_authorize_resolved N controller p req resolution = Inr ()"
  shows "np_preflight N p req = Inr ()
         \<or> (resolution = HostConnectorAliases
            \<and> (\<exists>c d. parse_ip (req_host req) = None
                  \<and> (req_resolved_ip req = Some (V4 198 18 c d) \<or> req_resolved_ip req = Some (V4 198 19 c d)))
            \<and> np_preflight N p (req\<lparr>req_resolved_ip := None\<rparr>) = Inr ())"
proof -
  have fake: "parse_ip h = None \<and> (\<exists>c d. ip = V4 198 18 c d \<or> ip = V4 198 19 c d)"
    if "is_host_connector_alias h ip" for h ip
    using that by (cases ip) (auto simp: is_host_connector_alias_def split: if_splits)
  show ?thesis
    using assms
    by (auto simp: np_authorize_resolved_def np_authorize_def bind_res_Inr_iff
        split: sum.splits if_splits option.splits dest!: fake)
qed

theorem controller_never_widens_witness:
  "\<exists>p. np_compile host_nets ex_cfg = Inr p
     \<and> (let req = (ex_req ''a.example.com'')\<lparr>req_resolved_ip := Some (V4 198 18 0 9)\<rparr>
        in np_authorize_resolved host_nets (policy_controller host_nets) p req HostConnectorAliases = Inr ()
           \<and> np_preflight host_nets p req \<noteq> Inr ()
           \<and> np_preflight host_nets p (req\<lparr>req_resolved_ip := None\<rparr>) = Inr ())"
proof -
  let ?req = "(ex_req ''a.example.com'')\<lparr>req_resolved_ip := Some (V4 198 18 0 9)\<rparr>"
  have "(case np_compile host_nets ex_cfg of
           Inl _ \<Rightarrow> False
         | Inr p \<Rightarrow>
             \<not> isl (np_authorize_resolved host_nets (policy_controller host_nets) p ?req HostConnectorAliases)
             \<and> isl (np_preflight host_nets p ?req))"
    by code_simp
  then obtain p where p: "np_compile host_nets ex_cfg = Inr p"
    "np_authorize_resolved host_nets (policy_controller host_nets) p ?req HostConnectorAliases = Inr ()"
    "np_preflight host_nets p ?req \<noteq> Inr ()"
    by (auto simp: isl_unit_iff split: sum.splits)
  then show ?thesis using controller_never_widens [OF p(2)] by auto
qed

text \<open>
  The admission test for packet transports is sound: when it answers yes, the policy
  admits every request whatever its host, port, transport and address, and no bandwidth
  limit applies to any flow.
\<close>

theorem unrestricted_packets_sound:
  assumes "np_compile N cfg = Inr p" "allows_unrestricted_packets p"
  shows "np_preflight N p q = Inr () \<and> matching_limits N p host port addresses = []"
proof -
  note p = np_compileD [OF assms(1)]
  have "unrestricted (network_capability_of cfg)"
    using assms(2) guard_capability_compile [OF p(1)] by (simp add: allows_unrestricted_packets_def)
  then show ?thesis
    using unrestricted_allows [OF _ p(1)] preflight_iff [OF p(4)] assms(2)
    by (simp add: allows_unrestricted_packets_def matching_limits_def)
qed

definition ex_public :: network_config where
  "ex_public =
     \<lparr>nc_capability = Some (Scoped [] Ambient), nc_mode = Public, nc_allowed_hosts = [], nc_rules = [],
      nc_deny_rules = [], nc_limits = []\<rparr>"

theorem unrestricted_packets_sound_witness:
  "\<exists>p. np_compile host_nets ex_public = Inr p \<and> allows_unrestricted_packets p
       \<and> np_preflight host_nets p (ex_req ''anything.example'') = Inr ()"
proof -
  have "(case np_compile host_nets ex_public of Inl _ \<Rightarrow> False | Inr p \<Rightarrow> allows_unrestricted_packets p)"
    by code_simp
  then obtain p where p: "np_compile host_nets ex_public = Inr p" "allows_unrestricted_packets p"
    by (auto split: sum.splits)
  then show ?thesis using unrestricted_packets_sound [OF p] by blast
qed

text \<open>
  C40. Layering a session over any policy, itself layered or not, gives a policy of at most
  one layer per scope over a leaf. Every layer of the session is in it, the leaf is that of
  the policy below, and compiling it can fail on a rule but not on its structure.
\<close>

theorem session_network_well_formed:
  "\<not> is_scoped (base_capability fb)
   \<and> (session_network_capability s fb = base_capability fb \<and> own_layers s = []
      \<or> (\<exists>layers. session_network_capability s fb = Scoped layers (base_capability fb)
           \<and> distinct (map fst layers) \<and> set (own_layers s) \<subseteq> set layers))
   \<and> guard_compile N (session_network_capability s fb) ts \<notin> {Inl DuplicateScopes, Inl FallbackNotLeaf}"
proof -
  let ?i = "inherit_layers (own_layers s) fb"
  have leaf: "\<not> is_scoped (base_capability fb)"
    using inherit_layers_leaf [of "own_layers s" fb] by (simp add: inherit_layers_base)
  have d: "distinct (map fst (sort_scopes (fst ?i)))"
    using inherit_layers_distinct [OF own_layers_distinct, of s fb]
    by (simp add: distinct_map sort_scopes_def)
  have own: "set (own_layers s) \<subseteq> set (sort_scopes (fst ?i))"
    using inherit_layers_mono [of "own_layers s" fb] by simp
  have eq: "session_network_capability s fb =
      (if sort_scopes (fst ?i) = [] then base_capability fb
       else Scoped (sort_scopes (fst ?i)) (base_capability fb))"
    by (simp add: session_network_capability_def split_beta inherit_layers_base Let_def)
  have empty: "sort_scopes (fst ?i) = [] \<Longrightarrow> own_layers s = []"
    using own by (metis empty_set set_empty subset_empty)
  show ?thesis
    using leaf d own empty leaf_error [OF leaf, of N ts] scoped_error [OF _ d leaf, of N ts]
    unfolding eq by (auto simp: structural_def)
qed

end
