(* ===== verification/File_Policy.thy ===== *)
theory File_Policy
  imports Net_Policy
begin

text \<open>
  The file access policy of \<open>crates/pvisor-core/src/file_access.rs\<close> and the session's
  file layers of \<open>session.rs\<close>.

  Globs are compiled and matched by the third-party crate \<open>globset\<close>: its operations are
  the fields of a \<open>glob_ops\<close> record, and \<open>glob_laws\<close> states what its documentation
  promises of a set built from a list of globs. A mount-relative path is its list of
  components. The approval channel of \<open>audit.rs\<close> is a parameter of \<open>fp_check\<close>.
  The flag \<open>preparing\<close> is shared between clones of a policy: it is a cell of a store,
  and \<open>None\<close> stands for the private cell a fresh policy has, which stays false.
\<close>

section \<open>Globs and paths\<close>

type_synonym path = "rstr list"

record ('g, 's) glob_ops =
  glob_build :: "rstr \<Rightarrow> 'g option"
  glob_is_match :: "'g \<Rightarrow> path \<Rightarrow> bool"
  glob_escape :: "rstr \<Rightarrow> rstr"
  set_empty :: 's
  set_build :: "'g list \<Rightarrow> 's option"
  set_is_empty :: "'s \<Rightarrow> bool"
  set_is_match :: "'s \<Rightarrow> path \<Rightarrow> bool"
  set_matches :: "'s \<Rightarrow> path \<Rightarrow> nat list"

definition glob_laws :: "('g, 's) glob_ops \<Rightarrow> bool" where
  "glob_laws G \<longleftrightarrow>
     (\<forall>gs s p. set_build G gs = Some s \<longrightarrow>
        set (set_matches G s p) = {i. i < length gs \<and> glob_is_match G (gs ! i) p}
        \<and> set_is_match G s p = list_ex (\<lambda>g. glob_is_match G g p) gs
        \<and> set_is_empty G s = (gs = []))
     \<and> set_build G [] = Some (set_empty G)"

definition ancestors :: "path \<Rightarrow> path list" where
  "ancestors p = map (\<lambda>k. take (length p - k) p) [0..<Suc (length p)]"

section \<open>Data\<close>

record file_access_context =
  fc_run_id :: rstr
  fc_execution_id :: rstr
  fc_view :: rstr
  fc_audit_socket :: "rstr option"

datatype 's file_access_policy =
  FileAccessPolicy
    (fp_allow_rules: "rstr list")
    (fp_layers: "(policy_scope \<times> 's file_access_policy) list")
    (fp_deny_rules: "rstr list")
    (fp_ask_rules: "rstr list")
    (fp_warn_rules: "rstr list")
    (fp_context: "file_access_context option")
    (fp_preparing: "nat option")
    (fp_deny: 's)
    (fp_ask: 's)
    (fp_warn: 's)
    (fp_allow: 's)

record 's file_access_wire =
  fw_context :: "file_access_context option"
  fw_allow :: "rstr list"
  fw_layers :: "(policy_scope \<times> 's file_access_policy) list"
  fw_deny :: "rstr list"
  fw_ask :: "rstr list"
  fw_warn :: "rstr list"

datatype file_access_decision = FileAllow | FileWarn | FileAsk | FileDeny

fun decision_rank :: "file_access_decision \<Rightarrow> nat" where
  "decision_rank FileAllow = 0" | "decision_rank FileWarn = 1"
| "decision_rank FileAsk = 2" | "decision_rank FileDeny = 3"

lemma decision_rank_inj [simp]: "decision_rank a = decision_rank b \<longleftrightarrow> a = b"
  by (cases a; cases b) simp_all

instantiation file_access_decision :: linorder
begin

definition less_eq_file_access_decision :: "file_access_decision \<Rightarrow> file_access_decision \<Rightarrow> bool" where
  "less_eq_file_access_decision a b \<longleftrightarrow> decision_rank a \<le> decision_rank b"

definition less_file_access_decision :: "file_access_decision \<Rightarrow> file_access_decision \<Rightarrow> bool" where
  "less_file_access_decision a b \<longleftrightarrow> decision_rank a < decision_rank b"

instance
  by standard (auto simp: less_eq_file_access_decision_def less_file_access_decision_def)

end

lemma FileAllow_least [simp]: "FileAllow \<le> d"
  by (simp add: less_eq_file_access_decision_def)

lemma FileDeny_greatest [simp]: "FileDeny \<le> d \<longleftrightarrow> d = FileDeny"
  by (cases d) (simp_all add: less_eq_file_access_decision_def)

datatype file_error = InvalidInput | PermissionDenied

section \<open>Construction\<close>

definition pattern_ok :: "rstr \<Rightarrow> bool" where
  "pattern_ok pattern \<longleftrightarrow>
     \<not> (pattern = [] \<or> starts_with pattern ''/'' \<or> CHR 0x00 \<in> set pattern
        \<or> list_ex (\<lambda>part. part \<in> {'''', ''.'', ''..''}) (split_on CHR ''/'' pattern))"

definition build_glob :: "('g, 's) glob_ops \<Rightarrow> rstr \<Rightarrow> file_error + 'g" where
  "build_glob G pattern =
     (if \<not> pattern_ok pattern then Inl InvalidInput
      else case glob_build G pattern of None \<Rightarrow> Inl InvalidInput | Some g \<Rightarrow> Inr g)"

definition compile_globs :: "('g, 's) glob_ops \<Rightarrow> rstr list \<Rightarrow> file_error + 's" where
  "compile_globs G patterns =
     bind_res (collect_res (build_glob G) patterns)
       (\<lambda>gs. case set_build G gs of None \<Rightarrow> Inl InvalidInput | Some s \<Rightarrow> Inr s)"

definition fp_new_with_allow ::
  "('g, 's) glob_ops \<Rightarrow> rstr list \<Rightarrow> rstr list \<Rightarrow> rstr list \<Rightarrow> rstr list
     \<Rightarrow> file_error + 's file_access_policy" where
  "fp_new_with_allow G deny ask warn allow =
     bind_res (compile_globs G deny) (\<lambda>d.
     bind_res (compile_globs G ask) (\<lambda>a.
     bind_res (compile_globs G warn) (\<lambda>w.
     bind_res (compile_globs G allow) (\<lambda>al.
     Inr (FileAccessPolicy allow [] deny ask warn None None d a w al)))))"

definition fp_new_with_ask ::
  "('g, 's) glob_ops \<Rightarrow> rstr list \<Rightarrow> rstr list \<Rightarrow> rstr list \<Rightarrow> file_error + 's file_access_policy" where
  "fp_new_with_ask G deny ask warn = fp_new_with_allow G deny ask warn []"

definition fp_new ::
  "('g, 's) glob_ops \<Rightarrow> rstr list \<Rightarrow> rstr list \<Rightarrow> file_error + 's file_access_policy" where
  "fp_new G deny warn = fp_new_with_ask G deny [] warn"

definition fp_default :: "('g, 's) glob_ops \<Rightarrow> 's file_access_policy" where
  "fp_default G =
     FileAccessPolicy [] [] [] [] [] None None (set_empty G) (set_empty G) (set_empty G) (set_empty G)"

fun set_layers ::
  "(policy_scope \<times> 's file_access_policy) list \<Rightarrow> 's file_access_policy \<Rightarrow> 's file_access_policy" where
  "set_layers ls (FileAccessPolicy al _ dr ar wr c pr d a w s) = FileAccessPolicy al ls dr ar wr c pr d a w s"

fun set_binding ::
  "file_access_context option \<Rightarrow> nat option \<Rightarrow> 's file_access_policy \<Rightarrow> 's file_access_policy" where
  "set_binding c pr (FileAccessPolicy al ls dr ar wr _ _ d a w s) = FileAccessPolicy al ls dr ar wr c pr d a w s"

definition fp_try_from ::
  "('g, 's) glob_ops \<Rightarrow> 's file_access_wire \<Rightarrow> file_error + 's file_access_policy" where
  "fp_try_from G wire =
     bind_res (fp_new_with_allow G (fw_deny wire) (fw_ask wire) (fw_warn wire) (fw_allow wire))
       (\<lambda>p. Inr (set_layers (sort_scopes (fw_layers wire))
                   (set_binding (fw_context wire) (fp_preparing p) p)))"

function fp_same_rules :: "'s file_access_policy \<Rightarrow> 's file_access_policy \<Rightarrow> bool" where
  "fp_same_rules (FileAccessPolicy al ls dr ar wr c pr d a w s) other \<longleftrightarrow>
     al = fp_allow_rules other \<and> dr = fp_deny_rules other \<and> ar = fp_ask_rules other
     \<and> wr = fp_warn_rules other \<and> length ls = length (fp_layers other)
     \<and> list_all (\<lambda>(sp, sp'). fst sp = fst sp' \<and> fp_same_rules (snd sp) (snd sp')) (zip ls (fp_layers other))"
  by pat_completeness auto
termination
proof (relation "measure (\<lambda>(p, _). size p)")
  fix al dr ar wr :: "rstr list" and ls :: "(policy_scope \<times> 's file_access_policy) list" and other
    and c pr and d a w s :: 's and x y z
  assume "x \<in> set (zip ls (fp_layers other))" "(y, z) = x"
  then have "y \<in> set ls" by (auto dest: set_zip_leftD)
  then have "size (snd y) \<le> size_list (size_prod (\<lambda>_. 0) size) ls"
    by (intro size_list_estimation' [of y]) (auto simp: size_prod_simp split_beta)
  then show "((snd y, snd z), FileAccessPolicy al ls dr ar wr c pr d a w s, other)
               \<in> measure (\<lambda>(p, _). size p)"
    by simp
qed simp

section \<open>Session binding\<close>

type_synonym arm_store = "bool list"

definition fp_bind_session ::
  "rstr option \<Rightarrow> rstr \<Rightarrow> rstr \<Rightarrow> rstr \<Rightarrow> 's file_access_policy \<Rightarrow> arm_store
     \<Rightarrow> 's file_access_policy \<times> arm_store" where
  "fp_bind_session audit_socket run_id execution_id view p st =
     (set_binding
        (Some \<lparr>fc_run_id = run_id, fc_execution_id = execution_id, fc_view = view,
               fc_audit_socket = audit_socket\<rparr>)
        (Some (length st)) p,
      st @ [True])"

definition fp_for_view :: "rstr \<Rightarrow> 's file_access_policy \<Rightarrow> 's file_access_policy" where
  "fp_for_view view p =
     set_binding (map_option (\<lambda>c. c\<lparr>fc_view := view\<rparr>) (fp_context p)) (fp_preparing p) p"

definition fp_arm :: "'s file_access_policy \<Rightarrow> arm_store \<Rightarrow> arm_store" where
  "fp_arm p st = (case fp_preparing p of None \<Rightarrow> st | Some i \<Rightarrow> st[i := False])"

definition is_preparing :: "'s file_access_policy \<Rightarrow> arm_store \<Rightarrow> bool" where
  "is_preparing p st =
     (case fp_preparing p of None \<Rightarrow> False | Some i \<Rightarrow> i < length st \<and> st ! i)"

section \<open>Translation and merging\<close>

fun fp_prefixed ::
  "('g, 's) glob_ops \<Rightarrow> rstr \<Rightarrow> 's file_access_policy \<Rightarrow> file_error + 's file_access_policy" where
  "fp_prefixed G prefix (FileAccessPolicy al ls dr ar wr c pr d a w s) =
     (let translate = map (\<lambda>rule. glob_escape G prefix @ ''/'' @ rule) in
      bind_res (fp_new_with_allow G (translate dr) (translate ar) (translate wr) (translate al)) (\<lambda>p.
      bind_res (collect_res (\<lambda>sp. bind_res (fp_prefixed G prefix (snd sp)) (\<lambda>q. Inr (fst sp, q))) ls) (\<lambda>ls'.
      Inr (set_binding c pr (set_layers ls' p)))))"

fun update_scope ::
  "policy_scope \<Rightarrow> 'a \<Rightarrow> (policy_scope \<times> 'a) list \<Rightarrow> (policy_scope \<times> 'a) list" where
  "update_scope s x [] = []"
| "update_scope s x ((t, y) # ls) = (if t = s then (t, x) # ls else (t, y) # update_scope s x ls)"

definition scope_lookup :: "policy_scope \<Rightarrow> (policy_scope \<times> 'a) list \<Rightarrow> 'a option" where
  "scope_lookup s ls = map_option snd (find (\<lambda>sp. fst sp = s) ls)"

function (sequential) fp_extend ::
  "('g, 's) glob_ops \<Rightarrow> 's file_access_policy \<Rightarrow> 's file_access_policy
     \<Rightarrow> file_error + 's file_access_policy"
  and merge_layers ::
  "('g, 's) glob_ops \<Rightarrow> (policy_scope \<times> 's file_access_policy) list
     \<Rightarrow> (policy_scope \<times> 's file_access_policy) list
     \<Rightarrow> file_error + (policy_scope \<times> 's file_access_policy) list" where
  "fp_extend G self (FileAccessPolicy al ls dr ar wr c pr d a w s) =
     bind_res (merge_layers G (fp_layers self) ls) (\<lambda>layers.
     bind_res (fp_new_with_allow G (fp_deny_rules self @ dr) (fp_ask_rules self @ ar)
                 (fp_warn_rules self @ wr) (fp_allow_rules self @ al)) (\<lambda>p.
     Inr (set_binding (fp_context self) (fp_preparing self) (set_layers (sort_scopes layers) p))))"
| "merge_layers G layers [] = Inr layers"
| "merge_layers G layers ((scope, policy) # rest) =
     (case scope_lookup scope layers of
        Some own \<Rightarrow>
          bind_res (fp_extend G own policy)
            (\<lambda>own'. merge_layers G (update_scope scope own' layers) rest)
      | None \<Rightarrow> merge_layers G (layers @ [(scope, policy)]) rest)"
  by pat_completeness auto
termination
  by (relation "measure (case_sum (\<lambda>(_, _, p). size p)
                           (\<lambda>(_, _, ls). size_list (size_prod (\<lambda>_. 0) size) ls))")
     auto

definition fp_layered ::
  "(policy_scope \<times> 's file_access_policy) list \<Rightarrow> 's file_access_policy \<Rightarrow> 's file_access_policy" where
  "fp_layered layers fallback = set_layers (sort_scopes layers) fallback"

section \<open>Decisions\<close>

definition set_hits :: "('g, 's) glob_ops \<Rightarrow> 's \<Rightarrow> path \<Rightarrow> bool" where
  "set_hits G s p = list_ex (set_is_match G s) (ancestors p)"

definition local_decision ::
  "('g, 's) glob_ops \<Rightarrow> 's file_access_policy \<Rightarrow> path \<Rightarrow> file_access_decision" where
  "local_decision G p path =
     (if set_hits G (fp_deny p) path then FileDeny
      else if set_hits G (fp_ask p) path then FileAsk
      else if set_hits G (fp_warn p) path then FileWarn
      else FileAllow)"

fun fp_authorize ::
  "('g, 's) glob_ops \<Rightarrow> path \<Rightarrow> 's file_access_policy \<Rightarrow> file_access_decision" where
  "fp_authorize G path (FileAccessPolicy al ls dr ar wr c pr d a w s) =
     foldl max (local_decision G (FileAccessPolicy al ls dr ar wr c pr d a w s) path)
       (map (\<lambda>sp. fp_authorize G path (snd sp)) ls)"

definition fp_denied :: "('g, 's) glob_ops \<Rightarrow> 's file_access_policy \<Rightarrow> path \<Rightarrow> bool" where
  "fp_denied G p path \<longleftrightarrow> fp_authorize G path p = FileDeny"

fun has_denials :: "('g, 's) glob_ops \<Rightarrow> 's file_access_policy \<Rightarrow> bool" where
  "has_denials G (FileAccessPolicy al ls dr ar wr c pr d a w s) \<longleftrightarrow>
     \<not> set_is_empty G d \<or> \<not> set_is_empty G a \<or> (\<exists>sp \<in> set ls. has_denials G (snd sp))"

section \<open>Rule identifiers\<close>

fun scope_debug :: "policy_scope \<Rightarrow> rstr" where
  "scope_debug User = ''User''"
| "scope_debug Workspace = ''Workspace''"
| "scope_debug Session = ''Session''"

definition scoped_id :: "policy_scope \<Rightarrow> rstr \<Rightarrow> rstr" where
  "scoped_id scope i = to_ascii_lowercase (scope_debug scope @ ''.'' @ i)"

definition rule_id :: "rstr \<Rightarrow> nat \<Rightarrow> rstr" where
  "rule_id action index = ''fs.'' @ action @ ''.'' @ show_nat index"

definition action_rules :: "rstr \<Rightarrow> rstr list \<Rightarrow> (rstr \<times> rstr \<times> rstr) list" where
  "action_rules action paths =
     map (\<lambda>(index, path). (rule_id action index, path, action)) (enumerate 0 paths)"

fun fp_rules :: "'s file_access_policy \<Rightarrow> (rstr \<times> rstr \<times> rstr) list" where
  "fp_rules (FileAccessPolicy al ls dr ar wr c pr d a w s) =
     concat (map (\<lambda>sp. map (\<lambda>(i, path, action). (scoped_id (fst sp) i, path, action)) (fp_rules (snd sp))) ls)
     @ action_rules ''deny'' dr @ action_rules ''ask'' ar @ action_rules ''warn'' wr
     @ action_rules ''allow'' al"

definition glob_set_matches :: "('g, 's) glob_ops \<Rightarrow> 's \<Rightarrow> path \<Rightarrow> nat list" where
  "glob_set_matches G s path = sorted_list_of_set (set (concat (map (set_matches G s) (ancestors path))))"

definition local_rule_ids ::
  "('g, 's) glob_ops \<Rightarrow> 's file_access_policy \<Rightarrow> path \<Rightarrow> rstr list" where
  "local_rule_ids G p path =
     (let deny = glob_set_matches G (fp_deny p) path in
      if deny \<noteq> [] then map (rule_id ''deny'') deny
      else
        (let ask = glob_set_matches G (fp_ask p) path in
         if ask \<noteq> [] then map (rule_id ''ask'') ask
         else
           (let warn = glob_set_matches G (fp_warn p) path in
            if warn = [] then map (rule_id ''allow'') (glob_set_matches G (fp_allow p) path)
            else map (rule_id ''warn'') warn)))"

fun matched_rule_ids ::
  "('g, 's) glob_ops \<Rightarrow> path \<Rightarrow> 's file_access_policy \<Rightarrow> rstr list" where
  "matched_rule_ids G path (FileAccessPolicy al ls dr ar wr c pr d a w s) =
     (let p = FileAccessPolicy al ls dr ar wr c pr d a w s; decision = fp_authorize G path p in
      concat (map (\<lambda>sp. if fp_authorize G path (snd sp) = decision
                         then map (scoped_id (fst sp)) (matched_rule_ids G path (snd sp)) else []) ls)
      @ (if local_decision G p path = decision then local_rule_ids G p path else []))"

section \<open>Enforcement\<close>

datatype audit_kind = AuditFile | AuditNetwork

record audit_scope =
  as_run_id :: rstr
  as_execution_id :: rstr
  as_view :: rstr

record audit_request =
  ar_scope :: "audit_scope option"
  ar_kind :: audit_kind
  ar_target :: rstr
  ar_reason :: rstr
  ar_host :: "rstr option"
  ar_port :: "u16 option"
  ar_transport :: "network_transport option"

datatype audit_decision = AuditAllow | AuditDeny

text \<open>The channel: \<open>request_at\<close> with its socket and key, or the process-local \<open>request\<close>.\<close>

type_synonym audit_channel = "(rstr \<times> rstr) option \<Rightarrow> audit_request \<Rightarrow> audit_decision"

datatype file_diagnostic = DeniedDiagnostic path | WarningDiagnostic path

definition file_prompt :: "('g, 's) glob_ops \<Rightarrow> 's file_access_policy \<Rightarrow> path \<Rightarrow> audit_request" where
  "file_prompt G p path =
     \<lparr>ar_scope = map_option (\<lambda>c. \<lparr>as_run_id = fc_run_id c, as_execution_id = fc_execution_id c,
                                   as_view = fc_view c\<rparr>) (fp_context p),
      ar_kind = AuditFile, ar_target = join_on ''/'' path,
      ar_reason = ''ask file rule: '' @ join_on '', '' (matched_rule_ids G path p),
      ar_host = None, ar_port = None, ar_transport = None\<rparr>"

definition fp_ask_user ::
  "('g, 's) glob_ops \<Rightarrow> audit_channel \<Rightarrow> 's file_access_policy \<Rightarrow> path \<Rightarrow> audit_decision option" where
  "fp_ask_user G channel p path =
     (case fp_context p of
        None \<Rightarrow> Some (channel None (file_prompt G p path))
      | Some c \<Rightarrow>
          map_option
            (\<lambda>socket. channel
               (Some (socket, fc_run_id c @ '':'' @ fc_execution_id c @ '':'' @ fc_view c))
               (file_prompt G p path))
            (fc_audit_socket c))"

definition fp_check ::
  "('g, 's) glob_ops \<Rightarrow> audit_channel \<Rightarrow> arm_store \<Rightarrow> 's file_access_policy \<Rightarrow> path
     \<Rightarrow> file_diagnostic list \<times> (file_error + unit)" where
  "fp_check G channel st p path =
     (case fp_authorize G path p of
        FileDeny \<Rightarrow> ([DeniedDiagnostic path], Inl PermissionDenied)
      | FileAsk \<Rightarrow>
          ([], if fp_context p \<noteq> None \<and> is_preparing p st then Inr ()
               else if fp_ask_user G channel p path = Some AuditAllow then Inr ()
               else Inl PermissionDenied)
      | FileWarn \<Rightarrow> ([WarningDiagnostic path], Inr ())
      | FileAllow \<Rightarrow> ([], Inr ()))"

definition session_filesystem ::
  "'s file_access_policy option \<Rightarrow> 's file_access_policy option \<Rightarrow> 's file_access_policy option
     \<Rightarrow> 's file_access_policy \<Rightarrow> 's file_access_policy" where
  "session_filesystem session workspace user fallback =
     fp_layered
       (List.map_filter (\<lambda>sl. map_option (\<lambda>l. (fst sl, l)) (snd sl))
          [(Session, session), (Workspace, workspace), (User, user)])
       fallback"

section \<open>Paths\<close>

lemma set_ancestors: "set (ancestors p) = {take k p |k. k \<le> length p}"
proof -
  have "(\<lambda>k. take (length p - k) p) ` {0..<Suc (length p)} = (\<lambda>k. take k p) ` {..length p}"
  proof (intro set_eqI iffI)
    fix q assume "q \<in> (\<lambda>k. take k p) ` {..length p}"
    then obtain k where "k \<le> length p" "q = take k p" by auto
    then show "q \<in> (\<lambda>k. take (length p - k) p) ` {0..<Suc (length p)}"
      by (intro image_eqI [of _ _ "length p - k"]) auto
  qed auto
  then show ?thesis by (simp only: ancestors_def set_map set_upt) auto
qed

lemma ancestors_append: "set (ancestors p) \<subseteq> set (ancestors (p @ q))"
proof
  fix a assume "a \<in> set (ancestors p)"
  then obtain k where "k \<le> length p" "a = take k (p @ q)" by (auto simp: set_ancestors)
  then show "a \<in> set (ancestors (p @ q))" by (auto simp: set_ancestors intro: exI [of _ k])
qed

lemma set_hits_append: "set_hits G s p \<Longrightarrow> set_hits G s (p @ q)"
  using ancestors_append [of p q] by (auto simp: set_hits_def list_ex_iff)

section \<open>A decision is the strictest of its layers\<close>

fun policies_in :: "'s file_access_policy \<Rightarrow> 's file_access_policy list" where
  "policies_in (FileAccessPolicy al ls dr ar wr c pr d a w s) =
     FileAccessPolicy al ls dr ar wr c pr d a w s # concat (map (\<lambda>sp. policies_in (snd sp)) ls)"

lemma authorize_ge_iff:
  "d \<le> fp_authorize G path p \<longleftrightarrow> (\<exists>q \<in> set (policies_in p). d \<le> local_decision G q path)"
proof (induction p rule: policies_in.induct)
  case (1 al ls dr ar wr c pr d' a w s)
  then show ?case by (auto simp: foldl_max_Max Max_ge_iff)
qed

lemma local_decision_mono: "local_decision G p path \<le> local_decision G p (path @ rest)"
  using set_hits_append [of G _ path rest]
  by (auto simp: local_decision_def less_eq_file_access_decision_def)

lemma authorize_mono: "fp_authorize G path p \<le> fp_authorize G (path @ rest) p"
  using authorize_ge_iff [of "fp_authorize G path p" G path p]
    authorize_ge_iff [of "fp_authorize G path p" G "path @ rest" p]
  by (auto intro: order.trans [OF _ local_decision_mono])

section \<open>Policies that agree with their rules\<close>

fun fp_ok :: "('g, 's) glob_ops \<Rightarrow> 's file_access_policy \<Rightarrow> bool" where
  "fp_ok G (FileAccessPolicy al ls dr ar wr c pr d a w s) \<longleftrightarrow>
     compile_globs G dr = Inr d \<and> compile_globs G ar = Inr a \<and> compile_globs G wr = Inr w
     \<and> compile_globs G al = Inr s \<and> (\<forall>sp \<in> set ls. fp_ok G (snd sp))"

definition rule_hits :: "('g, 's) glob_ops \<Rightarrow> path \<Rightarrow> rstr \<Rightarrow> bool" where
  "rule_hits G path rule \<longleftrightarrow>
     (case build_glob G rule of Inl _ \<Rightarrow> False | Inr g \<Rightarrow> list_ex (glob_is_match G g) (ancestors path))"

lemma rule_hits_iff:
  "rule_hits G path rule \<longleftrightarrow>
     (\<exists>g. build_glob G rule = Inr g \<and> (\<exists>a \<in> set (ancestors path). glob_is_match G g a))"
  by (auto simp: rule_hits_def list_ex_iff split: sum.splits)

lemma compile_globsD:
  assumes "compile_globs G rs = Inr s"
  obtains gs where "collect_res (build_glob G) rs = Inr gs" "set_build G gs = Some s"
  using assms by (auto simp: compile_globs_def res_simps split: option.splits)

lemma set_hits_iff:
  assumes "glob_laws G" "compile_globs G rs = Inr s"
  shows "set_hits G s path \<longleftrightarrow> list_ex (rule_hits G path) rs"
  using assms(2)
proof (rule compile_globsD)
  fix gs assume gs: "collect_res (build_glob G) rs = Inr gs" "set_build G gs = Some s"
  then have "set_is_match G s p = list_ex (\<lambda>g. glob_is_match G g p) gs" for p
    using assms(1) by (simp add: glob_laws_def)
  moreover have "set gs = {g. \<exists>r \<in> set rs. build_glob G r = Inr g}"
    using gs(1) by (rule collect_res_set)
  ultimately show ?thesis
    by (auto simp: set_hits_def list_ex_iff rule_hits_iff)
qed

lemma local_decision_rules:
  assumes "glob_laws G" "fp_ok G p"
  shows "local_decision G p path =
     (if list_ex (rule_hits G path) (fp_deny_rules p) then FileDeny
      else if list_ex (rule_hits G path) (fp_ask_rules p) then FileAsk
      else if list_ex (rule_hits G path) (fp_warn_rules p) then FileWarn
      else FileAllow)"
  using assms by (cases p) (auto simp: local_decision_def set_hits_iff [OF assms(1)])

lemma fp_ok_in: "fp_ok G p \<Longrightarrow> q \<in> set (policies_in p) \<Longrightarrow> fp_ok G q"
  by (induction p rule: policies_in.induct) auto

lemma fp_new_ok:
  "fp_new_with_allow G deny ask warn allow = Inr p \<Longrightarrow>
     fp_ok G p \<and> fp_deny_rules p = deny \<and> fp_ask_rules p = ask \<and> fp_warn_rules p = warn
     \<and> fp_allow_rules p = allow \<and> fp_layers p = []"
  by (auto simp: fp_new_with_allow_def res_simps)

lemma set_binding_simps [simp]:
  "fp_authorize G path (set_binding c pr p) = fp_authorize G path p"
  "fp_ok G (set_binding c pr p) = fp_ok G p"
  "fp_layers (set_binding c pr p) = fp_layers p"
  "local_decision G (set_binding c pr p) path = local_decision G p path"
  "fp_context (set_binding c pr p) = c" "fp_preparing (set_binding c pr p) = pr"
  by (cases p; simp add: local_decision_def)+

lemma set_layers_simps [simp]:
  "fp_layers (set_layers ls p) = ls"
  "local_decision G (set_layers ls p) path = local_decision G p path"
  "fp_layers p = [] \<Longrightarrow> fp_ok G (set_layers ls p) \<longleftrightarrow> fp_ok G p \<and> (\<forall>sp \<in> set ls. fp_ok G (snd sp))"
  by (cases p; simp add: local_decision_def)+

lemma set_layers_same: "fp_layers p = ls \<Longrightarrow> set_layers ls p = p"
  by (cases p) simp

section \<open>Merging\<close>

definition layers_max ::
  "('g, 's) glob_ops \<Rightarrow> path \<Rightarrow> (policy_scope \<times> 's file_access_policy) list \<Rightarrow> file_access_decision" where
  "layers_max G path ls = foldl max FileAllow (map (\<lambda>sp. fp_authorize G path (snd sp)) ls)"

lemma max_FileAllow [simp]: "max FileAllow d = d" "max d FileAllow = d"
  by (simp_all add: max_def order.antisym)

lemma foldl_max_shift:
  fixes a :: file_access_decision
  shows "foldl max a xs = max a (foldl max FileAllow xs)"
proof (induction xs arbitrary: a)
  case (Cons x xs)
  show ?case using Cons [of "max a x"] Cons [of x] by (simp add: max.assoc)
qed simp

lemma layers_max_Cons [simp]:
  "layers_max G path [] = FileAllow"
  "layers_max G path (sp # ls) = max (fp_authorize G path (snd sp)) (layers_max G path ls)"
  "layers_max G path (ls @ ms) = max (layers_max G path ls) (layers_max G path ms)"
  using foldl_max_shift [of "fp_authorize G path (snd sp)"]
    foldl_max_shift [of "foldl max FileAllow (map (\<lambda>sp. fp_authorize G path (snd sp)) ls)"]
  by (simp_all add: layers_max_def)

lemma authorize_layers:
  "fp_authorize G path p = max (local_decision G p path) (layers_max G path (fp_layers p))"
  using foldl_max_shift [of "local_decision G p path"] by (cases p) (simp add: layers_max_def)

lemma layers_max_sort [simp]: "layers_max G path (sort_scopes ls) = layers_max G path ls"
  by (simp add: layers_max_def foldl_max_Max)

lemma scope_lookup_SomeD: "scope_lookup s ls = Some x \<Longrightarrow> (s, x) \<in> set ls"
  by (auto simp: scope_lookup_def dest!: find_SomeD)

lemma layers_max_update:
  "scope_lookup s ls = Some x \<Longrightarrow> fp_authorize G path x' = max (fp_authorize G path x) d \<Longrightarrow>
     layers_max G path (update_scope s x' ls) = max (layers_max G path ls) d"
  by (induction ls) (auto simp: scope_lookup_def max.assoc max.commute max.left_commute)

lemma set_update_scope: "set (update_scope s x ls) \<subseteq> insert (s, x) (set ls)"
  by (induction ls) (auto split: if_splits)

lemma local_decision_append:
  assumes "glob_laws G" "fp_ok G p" "fp_ok G q" "fp_ok G r"
    and "fp_deny_rules r = fp_deny_rules p @ fp_deny_rules q"
    and "fp_ask_rules r = fp_ask_rules p @ fp_ask_rules q"
    and "fp_warn_rules r = fp_warn_rules p @ fp_warn_rules q"
  shows "local_decision G r path = max (local_decision G p path) (local_decision G q path)"
  using assms(5-7)
  by (auto simp: local_decision_rules [OF assms(1)] assms(2-4) max_def less_eq_file_access_decision_def)


lemma extend_rules:
  assumes "fp_extend G p q = Inr r"
  obtains ns new where "merge_layers G (fp_layers p) (fp_layers q) = Inr ns"
    "fp_new_with_allow G (fp_deny_rules p @ fp_deny_rules q) (fp_ask_rules p @ fp_ask_rules q)
       (fp_warn_rules p @ fp_warn_rules q) (fp_allow_rules p @ fp_allow_rules q) = Inr new"
    "r = set_binding (fp_context p) (fp_preparing p) (set_layers (sort_scopes ns) new)"
  using assms by (cases q) (auto simp: res_simps)

lemma extend_layers:
  assumes "glob_laws G" "fp_extend G p q = Inr r" "fp_ok G p" "fp_ok G q"
    and "\<And>ns. merge_layers G (fp_layers p) (fp_layers q) = Inr ns \<Longrightarrow>
           (\<forall>sp \<in> set ns. fp_ok G (snd sp))
           \<and> layers_max G path ns = max (layers_max G path (fp_layers p)) (layers_max G path (fp_layers q))"
  shows "fp_ok G r \<and> fp_authorize G path r = max (fp_authorize G path p) (fp_authorize G path q)"
  using assms(2)
proof (rule extend_rules)
  fix ns new
  assume ns: "merge_layers G (fp_layers p) (fp_layers q) = Inr ns"
    and new: "fp_new_with_allow G (fp_deny_rules p @ fp_deny_rules q) (fp_ask_rules p @ fp_ask_rules q)
       (fp_warn_rules p @ fp_warn_rules q) (fp_allow_rules p @ fp_allow_rules q) = Inr new"
    and r: "r = set_binding (fp_context p) (fp_preparing p) (set_layers (sort_scopes ns) new)"
  note n = fp_new_ok [OF new]
  have "local_decision G new path = max (local_decision G p path) (local_decision G q path)"
    using n assms(3,4) by (intro local_decision_append [OF assms(1)]) auto
  then show ?thesis
    using n r assms(5) [OF ns]
    by (simp add: authorize_layers max.assoc max.commute max.left_commute)
qed

lemma fp_ok_layers: "fp_ok G p \<Longrightarrow> sp \<in> set (fp_layers p) \<Longrightarrow> fp_ok G (snd sp)"
  by (cases p) auto

lemma extend_merge:
  "glob_laws G \<Longrightarrow> fp_extend G p q = Inr r \<Longrightarrow> fp_ok G p \<Longrightarrow> fp_ok G q \<Longrightarrow>
     fp_ok G r \<and> fp_authorize G path r = max (fp_authorize G path p) (fp_authorize G path q)"
  "glob_laws G \<Longrightarrow> merge_layers G ls ms = Inr ns \<Longrightarrow> \<forall>sp \<in> set ls. fp_ok G (snd sp) \<Longrightarrow>
     \<forall>sp \<in> set ms. fp_ok G (snd sp) \<Longrightarrow>
     (\<forall>sp \<in> set ns. fp_ok G (snd sp))
     \<and> layers_max G path ns = max (layers_max G path ls) (layers_max G path ms)"
proof (induction G p q and G ls ms arbitrary: r and ns rule: fp_extend_merge_layers.induct)
  case (1 G self al ls dr ar wr c pr d a w s)
  show ?case
  proof (rule extend_layers [OF 1(2,3,4,5)])
    fix ns
    assume "merge_layers G (fp_layers self) (fp_layers (FileAccessPolicy al ls dr ar wr c pr d a w s)) = Inr ns"
    then show "(\<forall>sp \<in> set ns. fp_ok G (snd sp)) \<and> layers_max G path ns =
        max (layers_max G path (fp_layers self))
          (layers_max G path (fp_layers (FileAccessPolicy al ls dr ar wr c pr d a w s)))"
      using 1(1) [OF 1(2), of ns] 1(4,5) fp_ok_layers [of G self] by simp
  qed
next
  case (3 G layers scope policy rest)
  show ?case
  proof (cases "scope_lookup scope layers")
    case None
    then show ?thesis using 3(1) [OF None 3(4), of ns] 3(5-7) by (simp add: max.assoc)
  next
    case (Some own)
    then obtain own' where own': "fp_extend G own policy = Inr own'"
      "merge_layers G (update_scope scope own' layers) rest = Inr ns"
      using 3(5) by (auto simp: res_simps)
    have own: "fp_ok G own" using scope_lookup_SomeD [OF Some] 3(6) by auto
    have e: "fp_ok G own'" "fp_authorize G path own' = max (fp_authorize G path own) (fp_authorize G path policy)"
      using 3(2) [OF Some 3(4) own'(1) own] 3(7) by auto
    have "\<forall>sp \<in> set (update_scope scope own' layers). fp_ok G (snd sp)"
      using set_update_scope [of scope own' layers] e(1) 3(6) by auto
    then show ?thesis
      using 3(3) [OF Some 3(4) own'(2)] 3(7) layers_max_update [OF Some e(2)]
      by (simp add: max.assoc)
  qed
qed simp

section \<open>Rule identifiers of a decision\<close>

fun action_name :: "file_access_decision \<Rightarrow> rstr" where
  "action_name FileDeny = ''deny''"
| "action_name FileAsk = ''ask''"
| "action_name FileWarn = ''warn''"
| "action_name FileAllow = ''allow''"

lemma action_rules_mem:
  "i < length rs \<Longrightarrow> (rule_id act i, rs ! i, act) \<in> set (action_rules act rs)"
  unfolding action_rules_def set_map
  by (rule image_eqI [of _ _ "(i, rs ! i)"]) (auto simp: in_set_enumerate_eq)

lemma glob_set_matches_iff:
  assumes "glob_laws G" "compile_globs G rs = Inr s"
  shows "set (glob_set_matches G s path) \<subseteq> {..<length rs}"
    and "glob_set_matches G s path = [] \<longleftrightarrow> \<not> set_hits G s path"
proof -
  obtain gs where gs: "collect_res (build_glob G) rs = Inr gs" "set_build G gs = Some s"
    using assms(2) by (rule compile_globsD)
  have m: "set (set_matches G s p) = {i. i < length gs \<and> glob_is_match G (gs ! i) p}"
    "set_is_match G s p = list_ex (\<lambda>g. glob_is_match G g p) gs" for p
    using assms(1) gs(2) by (auto simp: glob_laws_def)
  have "length gs = length rs"
    using collect_res_InrD [OF gs(1)] by (auto dest: list_all2_lengthD)
  then show "set (glob_set_matches G s path) \<subseteq> {..<length rs}"
    by (auto simp: glob_set_matches_def m)
  have "set_is_match G s p \<longleftrightarrow> set (set_matches G s p) \<noteq> {}" for p
    by (auto simp: m list_ex_iff) (metis in_set_conv_nth)
  then show "glob_set_matches G s path = [] \<longleftrightarrow> \<not> set_hits G s path"
    by (auto simp: glob_set_matches_def set_hits_def list_ex_iff)
qed

lemma local_ids_rules:
  assumes "glob_laws G" "fp_ok G p" "i \<in> set (local_rule_ids G p path)"
  shows "\<exists>pat. (i, pat, action_name (local_decision G p path)) \<in> set (fp_rules p)"
proof (cases p)
  case (FileAccessPolicy al ls dr ar wr c pr d a w s)
  then have ok: "compile_globs G dr = Inr d" "compile_globs G ar = Inr a" "compile_globs G wr = Inr w"
    "compile_globs G al = Inr s"
    using assms(2) by auto
  have "(rule_id act j, rs ! j, act) \<in> set (action_rules act rs)"
    if "compile_globs G rs = Inr t" "j \<in> set (glob_set_matches G t path)" for act j rs t
    using glob_set_matches_iff(1) [OF assms(1) that(1)] that(2) by (intro action_rules_mem) auto
  note mem = this [OF ok(1)] this [OF ok(2)] this [OF ok(3)] this [OF ok(4)]
  show ?thesis
    using assms(3) mem glob_set_matches_iff(2) [OF assms(1) ok(1)]
      glob_set_matches_iff(2) [OF assms(1) ok(2)] glob_set_matches_iff(2) [OF assms(1) ok(3)]
    unfolding FileAccessPolicy local_rule_ids_def local_decision_def Let_def
    by (auto split: if_splits) blast+
qed

lemma local_ids_nonempty:
  assumes "glob_laws G" "fp_ok G p" "local_decision G p path \<noteq> FileAllow"
  shows "local_rule_ids G p path \<noteq> []"
  using assms
  by (cases p) (auto simp: local_rule_ids_def local_decision_def Let_def
      glob_set_matches_iff(2) [OF assms(1)] split: if_splits)

lemma matched_ids_rules:
  assumes "glob_laws G" "fp_ok G p" "i \<in> set (matched_rule_ids G path p)"
  shows "\<exists>pat. (i, pat, action_name (fp_authorize G path p)) \<in> set (fp_rules p)"
  using assms(2,3)
proof (induction p arbitrary: i rule: fp_rules.induct)
  case (1 al ls dr ar wr c pr d a w s)
  let ?p = "FileAccessPolicy al ls dr ar wr c pr d a w s"
  consider sc q j where "(sc, q) \<in> set ls" "fp_authorize G path q = fp_authorize G path ?p"
      "j \<in> set (matched_rule_ids G path q)" "i = scoped_id sc j"
    | "local_decision G ?p path = fp_authorize G path ?p" "i \<in> set (local_rule_ids G ?p path)"
    using 1(3) unfolding matched_rule_ids.simps Let_def
    by (fastforce split: if_splits simp del: fp_authorize.simps)
  then show ?case
  proof cases
    case 1
    then have "\<exists>pat. (j, pat, action_name (fp_authorize G path q)) \<in> set (fp_rules q)"
      using "1.IH" [of "(sc, q)" j] "1.prems"(1) by auto
    then obtain pat where "(j, pat, action_name (fp_authorize G path ?p)) \<in> set (fp_rules q)"
      using 1(2) by metis
    then have "(i, pat, action_name (fp_authorize G path ?p)) \<in> set (fp_rules ?p)"
      using 1(1,4) by (force simp del: fp_authorize.simps)
    then show ?thesis by blast
  next
    case 2
    then show ?thesis using local_ids_rules [OF assms(1) "1.prems"(1)] by metis
  qed
qed

lemma authorize_attained:
  "fp_authorize G path p = local_decision G p path
   \<or> (\<exists>sp \<in> set (fp_layers p). fp_authorize G path p = fp_authorize G path (snd sp))"
proof (cases p)
  case (FileAccessPolicy al ls dr ar wr c pr d a w s)
  have "fp_authorize G path p \<in> insert (local_decision G p path) (set (map (\<lambda>sp. fp_authorize G path (snd sp)) ls))"
    unfolding FileAccessPolicy fp_authorize.simps foldl_max_Max by (intro Max_in) auto
  then show ?thesis using FileAccessPolicy by auto
qed

lemma matched_ids_nonempty:
  assumes "glob_laws G" "fp_ok G p" "fp_authorize G path p \<noteq> FileAllow"
  shows "matched_rule_ids G path p \<noteq> []"
  using assms(2,3)
proof (induction p rule: fp_rules.induct)
  case (1 al ls dr ar wr c pr d a w s)
  let ?p = "FileAccessPolicy al ls dr ar wr c pr d a w s"
  from authorize_attained [of G path ?p] show ?case
  proof
    assume "fp_authorize G path ?p = local_decision G ?p path"
    then show ?thesis
      using local_ids_nonempty [OF assms(1) 1(2), of path] 1(3)
      by (simp add: Let_def del: fp_authorize.simps)
  next
    assume "\<exists>sp \<in> set (fp_layers ?p). fp_authorize G path ?p = fp_authorize G path (snd sp)"
    then obtain sp where sp: "sp \<in> set ls" "fp_authorize G path (snd sp) = fp_authorize G path ?p" by auto
    then have "matched_rule_ids G path (snd sp) \<noteq> []"
      using 1(1) [OF sp(1)] 1(2,3) by (simp del: fp_authorize.simps)
    then show ?thesis
      using sp by (auto simp: Let_def simp del: fp_authorize.simps)
  qed
qed

section \<open>Policies without denials\<close>

lemma no_denials_local:
  assumes "glob_laws G" "fp_ok G p" "\<not> has_denials G p" "q \<in> set (policies_in p)"
  shows "local_decision G q path \<le> FileWarn"
proof -
  have "\<not> has_denials G q" using assms(3,4) by (induction p rule: policies_in.induct) auto
  moreover have "set_hits G s path = False" if "compile_globs G rs = Inr s" "set_is_empty G s" for rs s
    using that(1)
  proof (rule compile_globsD)
    fix gs assume "collect_res (build_glob G) rs = Inr gs" "set_build G gs = Some s"
    then show ?thesis
      using assms(1) that(2) by (auto simp: glob_laws_def set_hits_def list_ex_iff)
  qed
  ultimately show ?thesis
    using fp_ok_in [OF assms(2,4)] by (cases q) (auto simp: local_decision_def less_eq_file_access_decision_def)
qed


section \<open>A concrete glob library\<close>

text \<open>Literal patterns: a glob matches the path it spells.\<close>

definition lit_globs :: "(rstr, rstr list) glob_ops" where
  "lit_globs =
     \<lparr>glob_build = Some, glob_is_match = (\<lambda>g p. g = join_on ''/'' p), glob_escape = id,
      set_empty = [], set_build = Some, set_is_empty = (\<lambda>s. s = []),
      set_is_match = (\<lambda>s p. list_ex (\<lambda>g. g = join_on ''/'' p) s),
      set_matches = (\<lambda>s p. filter (\<lambda>i. s ! i = join_on ''/'' p) [0..<length s])\<rparr>"

lemma lit_glob_laws: "glob_laws lit_globs"
  by (auto simp: glob_laws_def lit_globs_def)

definition ex_policy :: "rstr \<Rightarrow> rstr \<Rightarrow> rstr list file_access_policy" where
  "ex_policy deny ask =
     FileAccessPolicy [] [] [deny] [ask] [] None None [deny] [ask] [] []"

lemma ex_policy_ok: "fp_ok lit_globs (ex_policy ''etc/shadow'' ''home/key'')"
  "fp_ok lit_globs (ex_policy ''root'' ''home/mail'')"
  by code_simp+

section \<open>Properties\<close>

text \<open>
  C5. A file policy denies a path exactly when a deny rule of the policy or of one of its
  layers, however deep, matches the path or one of its ancestor directories. No rule of
  another kind and no other layer can take the denial back.
\<close>

theorem file_denial_iff_rule:
  assumes "glob_laws G" "fp_ok G p"
  shows "fp_denied G p path \<longleftrightarrow>
     list_ex (\<lambda>q. list_ex (rule_hits G path) (fp_deny_rules q)) (policies_in p)"
proof -
  have "FileDeny \<le> local_decision G q path \<longleftrightarrow> list_ex (rule_hits G path) (fp_deny_rules q)"
    if "q \<in> set (policies_in p)" for q
    using local_decision_rules [OF assms(1) fp_ok_in [OF assms(2) that]] by simp
  then show ?thesis
    using authorize_ge_iff [of FileDeny G path p] by (auto simp: fp_denied_def list_ex_iff)
qed

theorem file_denial_iff_rule_witness:
  "fp_denied lit_globs
     (fp_layered [(User, ex_policy ''etc/shadow'' ''home/key'')] (ex_policy ''root'' ''home/mail''))
     [''etc'', ''shadow'', ''x'']"
proof -
  let ?p = "fp_layered [(User, ex_policy ''etc/shadow'' ''home/key'')] (ex_policy ''root'' ''home/mail'')"
  have "fp_ok lit_globs ?p"
    "list_ex (\<lambda>q. list_ex (rule_hits lit_globs [''etc'', ''shadow'', ''x'']) (fp_deny_rules q)) (policies_in ?p)"
    by code_simp+
  then show ?thesis using file_denial_iff_rule [OF lit_glob_laws] by blast
qed

text \<open>
  Descending never relaxes access: whatever the policy decides for a directory, it
  decides at least as strictly for everything below it.
\<close>

theorem file_access_descends:
  "fp_authorize G path p \<le> fp_authorize G (path @ rest) p"
  by (rule authorize_mono)

text \<open>
  Merging two policies projected into one view keeps both: the merged policy agrees with
  its rules, and decides every path as strictly as the stricter of the two, whichever layers
  they share.
\<close>

theorem file_extend_is_strictest:
  assumes "glob_laws G" "fp_ok G p" "fp_ok G q" "fp_extend G p q = Inr r"
  shows "fp_ok G r \<and> fp_authorize G path r = max (fp_authorize G path p) (fp_authorize G path q)"
  using extend_merge(1) [OF assms(1,4,2,3)] .

theorem file_extend_is_strictest_witness:
  "\<exists>r. fp_extend lit_globs (ex_policy ''etc/shadow'' ''home/key'') (ex_policy ''root'' ''home/mail'') = Inr r
     \<and> fp_authorize lit_globs [''root''] r = FileDeny
     \<and> fp_authorize lit_globs [''home'', ''key''] r = FileAsk"
proof -
  let ?p = "ex_policy ''etc/shadow'' ''home/key''" and ?q = "ex_policy ''root'' ''home/mail''"
  have "\<not> isl (fp_extend lit_globs ?p ?q)" by code_simp
  then obtain r where r: "fp_extend lit_globs ?p ?q = Inr r" by (auto dest: not_isl_InrD)
  have "max (fp_authorize lit_globs [''root''] ?p) (fp_authorize lit_globs [''root''] ?q) = FileDeny"
    "max (fp_authorize lit_globs [''home'', ''key''] ?p) (fp_authorize lit_globs [''home'', ''key''] ?q) = FileAsk"
    by code_simp+
  then show ?thesis
    using r file_extend_is_strictest [OF lit_glob_laws ex_policy_ok r] by metis
qed

text \<open>
  The rule identifiers reported for a path are those of the admitted plan: each is listed
  by \<open>rules()\<close> with the action that was decided, and a path that is not plainly
  allowed is always explained by at least one.
\<close>

theorem matched_rule_ids_explain:
  assumes "glob_laws G" "fp_ok G p"
  shows "list_all (\<lambda>i. \<exists>pattern. (i, pattern, action_name (fp_authorize G path p)) \<in> set (fp_rules p))
           (matched_rule_ids G path p)
         \<and> (fp_authorize G path p = FileAllow \<or> matched_rule_ids G path p \<noteq> [])"
  using matched_ids_rules [OF assms] matched_ids_nonempty [OF assms] by (auto simp: list_all_iff)

theorem matched_rule_ids_explain_witness:
  "\<exists>pattern. (''user.fs.deny.0'', pattern, ''deny'')
     \<in> set (fp_rules (fp_layered [(User, ex_policy ''etc/shadow'' ''home/key'')] (ex_policy ''root'' ''home/mail'')))"
proof -
  let ?p = "fp_layered [(User, ex_policy ''etc/shadow'' ''home/key'')] (ex_policy ''root'' ''home/mail'')"
  have *: "fp_ok lit_globs ?p" "matched_rule_ids lit_globs [''etc'', ''shadow''] ?p = [''user.fs.deny.0'']"
    "fp_authorize lit_globs [''etc'', ''shadow''] ?p = FileDeny"
    by code_simp+
  show ?thesis
    using matched_rule_ids_explain [OF lit_glob_laws *(1), of "[''etc'', ''shadow'']"] *(2,3) by simp
qed

text \<open>
  Enforcement follows the decision. A policy that reports no denials lets every access
  through; a denied path is refused whatever the approval channel says; an \<open>Ask\<close> passes
  only while the session is being prepared or with an approval.
\<close>

theorem file_check_enforces:
  assumes "glob_laws G" "fp_ok G p"
  shows "(has_denials G p \<or> snd (fp_check G channel st p path) = Inr ())
         \<and> (snd (fp_check G channel st p path) = Inr () \<longleftrightarrow>
              fp_authorize G path p \<le> FileWarn
              \<or> (fp_authorize G path p = FileAsk
                  \<and> (fp_context p \<noteq> None \<and> is_preparing p st
                      \<or> fp_ask_user G channel p path = Some AuditAllow)))"
proof -
  have "fp_authorize G path p \<le> FileWarn" if "\<not> has_denials G p"
    using authorize_ge_iff [of "fp_authorize G path p" G path p] no_denials_local [OF assms that]
    by (auto intro: order.trans)
  then show ?thesis
    by (cases "fp_authorize G path p") (auto simp: fp_check_def less_eq_file_access_decision_def)
qed

theorem file_check_enforces_witness:
  "snd (fp_check lit_globs (\<lambda>_ _. AuditAllow) [] (ex_policy ''root'' ''home/mail'') [''home'', ''mail'']) = Inr ()
   \<and> snd (fp_check lit_globs (\<lambda>_ _. AuditAllow) [] (ex_policy ''root'' ''home/mail'') [''root'', ''x'']) \<noteq> Inr ()"
proof -
  let ?p = "ex_policy ''root'' ''home/mail''"
  have "fp_authorize lit_globs [''home'', ''mail''] ?p = FileAsk"
    "fp_ask_user lit_globs (\<lambda>_ _. AuditAllow) ?p [''home'', ''mail''] = Some AuditAllow"
    "fp_authorize lit_globs [''root'', ''x''] ?p = FileDeny" "\<not> FileDeny \<le> FileWarn"
    by code_simp+
  then show ?thesis
    using file_check_enforces [OF lit_glob_laws ex_policy_ok(2), of "\<lambda>_ _. AuditAllow" "[]"] by simp
qed

text \<open>
  Arming is shared: a session starts in preparation, every view derived from its policy
  shares the flag, and arming the policy ends the preparation of all its views at once
  without touching any other session.
\<close>

theorem arming_reaches_every_view:
  "let (p', st') = fp_bind_session sock run execution view p st in
     is_preparing (fp_for_view w p') st'
     \<and> \<not> is_preparing (fp_for_view w p') (fp_arm p' st')
     \<and> (\<forall>q. fp_preparing q \<noteq> fp_preparing p' \<longrightarrow> is_preparing q (fp_arm p' st') = is_preparing q st')"
  by (auto simp: fp_bind_session_def fp_for_view_def is_preparing_def fp_arm_def nth_append
      split: option.splits)

theorem arming_reaches_every_view_witness:
  "let (p', st') = fp_bind_session None ''r'' ''e'' ''v'' (ex_policy ''root'' ''home/mail'') [True];
       q = set_binding None (Some 0) p'
   in is_preparing q (fp_arm p' st') \<and> \<not> is_preparing (fp_for_view ''w'' p') (fp_arm p' st')"
  using arming_reaches_every_view [of None "''r''" "''e''" "''v''" "ex_policy ''root'' ''home/mail''" "[True]" "''w''"]
  by (auto simp: fp_bind_session_def is_preparing_def fp_arm_def fp_for_view_def)

end
