(* ===== verification/Enforcement.thy ===== *)
theory Enforcement
  imports Net_Policy
begin

text \<open>
  Capability claims of \<open>crates/pvisor-core/src/execution.rs\<close>: what an executor plans to
  enforce at admission and what it observed to be enforced, both as levels per dimension
  that only rise, and the dimensions a run policy asks for.
\<close>

section \<open>Data\<close>

datatype filesystem_access = FsRead | FsReadWrite

record filesystem_capability =
  fsc_path :: rstr
  fsc_access :: filesystem_access

record capability_set =
  cap_models :: "rstr list"
  cap_tools :: "rstr list"
  cap_filesystem :: "filesystem_capability list"
  cap_network :: network_capability
  cap_secrets :: "rstr list"
  cap_allow_subprocess :: bool

record resource_limits =
  rl_memory_bytes :: "u64 option"
  rl_processes :: "u64 option"
  rl_cpu_time_ms :: "u64 option"
  rl_open_files :: "u64 option"
  rl_file_size_bytes :: "u64 option"

definition limits_is_empty :: "resource_limits \<Rightarrow> bool" where
  "limits_is_empty r \<longleftrightarrow>
     rl_memory_bytes r = None \<and> rl_processes r = None \<and> rl_cpu_time_ms r = None
     \<and> rl_open_files r = None \<and> rl_file_size_bytes r = None"

datatype run_state =
    RunCreated | RunStarting | RunRunning | RunCheckpointing | RunSuspended | RunHibernated
  | RunCancelling | RunCompleted | RunFailed | RunCancelled

definition run_is_terminal :: "run_state \<Rightarrow> bool" where
  "run_is_terminal s \<longleftrightarrow> s \<in> {RunCompleted, RunFailed, RunCancelled, RunHibernated}"

datatype capability_dimension =
    DimModels | DimTools | DimFilesystemRead | DimFilesystemWrite | DimNetwork | DimSecrets
  | DimSubprocess | DimResources

fun dimension_name :: "capability_dimension \<Rightarrow> rstr" where
  "dimension_name DimModels = ''models''"
| "dimension_name DimTools = ''tools''"
| "dimension_name DimFilesystemRead = ''filesystem_read''"
| "dimension_name DimFilesystemWrite = ''filesystem_write''"
| "dimension_name DimNetwork = ''network''"
| "dimension_name DimSecrets = ''secrets''"
| "dimension_name DimSubprocess = ''subprocess''"
| "dimension_name DimResources = ''resources''"

datatype enforcement_level = Unenforced | Cooperative | Enforced

fun enforcement_rank :: "enforcement_level \<Rightarrow> nat" where
  "enforcement_rank Unenforced = 0" | "enforcement_rank Cooperative = 1"
| "enforcement_rank Enforced = 2"

lemma enforcement_rank_inj [simp]: "enforcement_rank a = enforcement_rank b \<longleftrightarrow> a = b"
  by (cases a; cases b) simp_all

instantiation enforcement_level :: linorder
begin

definition less_eq_enforcement_level :: "enforcement_level \<Rightarrow> enforcement_level \<Rightarrow> bool" where
  "less_eq_enforcement_level a b \<longleftrightarrow> enforcement_rank a \<le> enforcement_rank b"

definition less_enforcement_level :: "enforcement_level \<Rightarrow> enforcement_level \<Rightarrow> bool" where
  "less_enforcement_level a b \<longleftrightarrow> enforcement_rank a < enforcement_rank b"

instance
  by standard (auto simp: less_eq_enforcement_level_def less_enforcement_level_def)

end

datatype enforcement_plan_level = PlanUnsupported | PlanCooperative | PlanPlanned

fun plan_rank :: "enforcement_plan_level \<Rightarrow> nat" where
  "plan_rank PlanUnsupported = 0" | "plan_rank PlanCooperative = 1" | "plan_rank PlanPlanned = 2"

lemma plan_rank_inj [simp]: "plan_rank a = plan_rank b \<longleftrightarrow> a = b"
  by (cases a; cases b) simp_all

instantiation enforcement_plan_level :: linorder
begin

definition less_eq_enforcement_plan_level ::
  "enforcement_plan_level \<Rightarrow> enforcement_plan_level \<Rightarrow> bool" where
  "less_eq_enforcement_plan_level a b \<longleftrightarrow> plan_rank a \<le> plan_rank b"

definition less_enforcement_plan_level ::
  "enforcement_plan_level \<Rightarrow> enforcement_plan_level \<Rightarrow> bool" where
  "less_enforcement_plan_level a b \<longleftrightarrow> plan_rank a < plan_rank b"

instance
  by standard (auto simp: less_eq_enforcement_plan_level_def less_enforcement_plan_level_def)

end

record enforcement_evidence =
  ee_level :: enforcement_level
  ee_mechanisms :: "rstr list"

type_synonym capability_enforcement_evidence = "capability_dimension \<rightharpoonup> enforcement_evidence"

record enforcement_plan =
  ep_level :: enforcement_plan_level
  ep_mechanisms :: "rstr list"

type_synonym capability_enforcement_plan = "capability_dimension \<rightharpoonup> enforcement_plan"

section \<open>Requested dimensions\<close>

text \<open>The ordered set the source collects into a vector, in the order of the enumeration.\<close>

definition requested_enforcement_dimensions ::
  "capability_set \<Rightarrow> resource_limits \<Rightarrow> capability_dimension list" where
  "requested_enforcement_dimensions capabilities resources =
     (if cap_models capabilities \<noteq> [] then [DimModels] else [])
     @ (if cap_tools capabilities \<noteq> [] then [DimTools] else [])
     @ (if cap_filesystem capabilities \<noteq> [] then [DimFilesystemRead] else [])
     @ (if list_ex (\<lambda>f. fsc_access f = FsReadWrite) (cap_filesystem capabilities)
        then [DimFilesystemWrite] else [])
     @ [DimNetwork]
     @ (if cap_secrets capabilities \<noteq> [] then [DimSecrets] else [])
     @ (if \<not> cap_allow_subprocess capabilities then [DimSubprocess] else [])
     @ (if \<not> limits_is_empty resources then [DimResources] else [])"

section \<open>Observed evidence\<close>

definition push_mechanism :: "rstr \<Rightarrow> rstr list \<Rightarrow> rstr list" where
  "push_mechanism m ms = (if m \<in> set ms then ms else ms @ [m])"

definition evidence_new :: "enforcement_level \<Rightarrow> rstr \<Rightarrow> enforcement_evidence" where
  "evidence_new level mechanism = \<lparr>ee_level = level, ee_mechanisms = [mechanism]\<rparr>"

definition evidence_record ::
  "capability_dimension \<Rightarrow> enforcement_level \<Rightarrow> rstr
     \<Rightarrow> capability_enforcement_evidence \<Rightarrow> capability_enforcement_evidence" where
  "evidence_record dimension level mechanism dims =
     (let evidence = (case dims dimension of
                        None \<Rightarrow> \<lparr>ee_level = Unenforced, ee_mechanisms = []\<rparr> | Some e \<Rightarrow> e);
          evidence = (if level > ee_level evidence then evidence\<lparr>ee_level := level\<rparr> else evidence)
      in dims(dimension \<mapsto> evidence\<lparr>ee_mechanisms := push_mechanism mechanism (ee_mechanisms evidence)\<rparr>))"

definition evidence_enforced ::
  "capability_dimension \<Rightarrow> rstr \<Rightarrow> capability_enforcement_evidence \<Rightarrow> capability_enforcement_evidence" where
  "evidence_enforced dimension mechanism = evidence_record dimension Enforced mechanism"

definition evidence_cooperative ::
  "capability_dimension \<Rightarrow> rstr \<Rightarrow> capability_enforcement_evidence \<Rightarrow> capability_enforcement_evidence" where
  "evidence_cooperative dimension mechanism = evidence_record dimension Cooperative mechanism"

definition evidence_is_enforced :: "capability_enforcement_evidence \<Rightarrow> capability_dimension \<Rightarrow> bool" where
  "evidence_is_enforced dims dimension =
     (case dims dimension of None \<Rightarrow> False | Some e \<Rightarrow> ee_level e = Enforced)"

definition evidence_missing_dimensions ::
  "capability_enforcement_evidence \<Rightarrow> capability_set \<Rightarrow> resource_limits \<Rightarrow> capability_dimension list" where
  "evidence_missing_dimensions dims capabilities resources =
     filter (\<lambda>d. \<not> evidence_is_enforced dims d) (requested_enforcement_dimensions capabilities resources)"

section \<open>Admission plans\<close>

definition plan_record ::
  "capability_dimension \<Rightarrow> enforcement_plan_level \<Rightarrow> rstr
     \<Rightarrow> capability_enforcement_plan \<Rightarrow> capability_enforcement_plan" where
  "plan_record dimension level mechanism dims =
     (let plan = (case dims dimension of
                    None \<Rightarrow> \<lparr>ep_level = PlanUnsupported, ep_mechanisms = []\<rparr> | Some e \<Rightarrow> e);
          plan = (if level > ep_level plan then plan\<lparr>ep_level := level\<rparr> else plan)
      in dims(dimension \<mapsto> plan\<lparr>ep_mechanisms := push_mechanism mechanism (ep_mechanisms plan)\<rparr>))"

definition plan_planned ::
  "capability_dimension \<Rightarrow> rstr \<Rightarrow> capability_enforcement_plan \<Rightarrow> capability_enforcement_plan" where
  "plan_planned dimension mechanism = plan_record dimension PlanPlanned mechanism"

definition plan_cooperative ::
  "capability_dimension \<Rightarrow> rstr \<Rightarrow> capability_enforcement_plan \<Rightarrow> capability_enforcement_plan" where
  "plan_cooperative dimension mechanism = plan_record dimension PlanCooperative mechanism"

definition plan_is_planned :: "capability_enforcement_plan \<Rightarrow> capability_dimension \<Rightarrow> bool" where
  "plan_is_planned dims dimension =
     (case dims dimension of None \<Rightarrow> False | Some e \<Rightarrow> ep_level e = PlanPlanned)"

definition plan_missing_dimensions ::
  "capability_enforcement_plan \<Rightarrow> capability_set \<Rightarrow> resource_limits \<Rightarrow> capability_dimension list" where
  "plan_missing_dimensions dims capabilities resources =
     filter (\<lambda>d. \<not> plan_is_planned dims d) (requested_enforcement_dimensions capabilities resources)"

definition termination_signal_ok :: "int option \<Rightarrow> bool" where
  "termination_signal_ok signal = (case signal of None \<Rightarrow> True | Some s \<Rightarrow> 1 \<le> s \<and> s \<le> 127)"

section \<open>Claims that only rise\<close>

text \<open>
  The contract both kinds of claim keep: recording raises the level of one dimension to the
  maximum of the old and the new, leaves the others alone, and never forgets a mechanism.
  What a client can conclude from a sequence of records is proved once.
\<close>

definition apply_claims :: "('d \<Rightarrow> 'l \<Rightarrow> rstr \<Rightarrow> 'm \<Rightarrow> 'm) \<Rightarrow> ('d \<times> 'l \<times> rstr) list \<Rightarrow> 'm \<Rightarrow> 'm" where
  "apply_claims record_claim cs s = foldl (\<lambda>s (d, l, m). record_claim d l m s) s cs"

lemma apply_claims_simps [simp]:
  "apply_claims f [] s = s"
  "apply_claims f ((d, l, m) # cs) s = apply_claims f cs (f d l m s)"
  by (simp_all add: apply_claims_def)

locale claim_map =
  fixes record_claim :: "capability_dimension \<Rightarrow> 'l :: linorder \<Rightarrow> rstr \<Rightarrow> 'm \<Rightarrow> 'm"
    and level_of :: "'m \<Rightarrow> capability_dimension \<Rightarrow> 'l"
    and mechanisms_of :: "'m \<Rightarrow> capability_dimension \<Rightarrow> rstr list"
    and bottom :: 'l and top_level :: 'l and none :: 'm
  assumes level_none: "level_of none d = bottom"
    and level_record: "level_of (record_claim d l m s) d' = (if d' = d then max (level_of s d) l else level_of s d')"
    and mechanisms_record: "set (mechanisms_of (record_claim d l m s) d')
          = (if d' = d then insert m (set (mechanisms_of s d')) else set (mechanisms_of s d'))"
    and top_greatest: "l \<le> top_level"
    and bottom_not_top: "bottom \<noteq> top_level"
begin

lemma max_top: "max a b = top_level \<longleftrightarrow> a = top_level \<or> b = top_level"
  using top_greatest by (metis max.orderE max_def order.antisym)

lemma level_rises: "level_of s d \<le> level_of (apply_claims record_claim cs s) d"
proof (induction cs arbitrary: s)
  case (Cons c cs)
  obtain d' l m where c: "c = (d', l, m)" by (cases c)
  have "level_of s d \<le> level_of (record_claim d' l m s) d" by (simp add: level_record)
  then show ?case
    using Cons [of "record_claim d' l m s"] by (simp add: c)
qed simp

lemma top_iff:
  "level_of (apply_claims record_claim cs s) d = top_level \<longleftrightarrow>
     level_of s d = top_level \<or> (\<exists>m. (d, top_level, m) \<in> set cs)"
proof (induction cs arbitrary: s)
  case (Cons c cs)
  obtain d' l m where c: "c = (d', l, m)" by (cases c)
  show ?case
    using Cons [of "record_claim d' l m s"] by (auto simp: c level_record max_top)
qed simp

lemma top_from_none:
  "level_of (apply_claims record_claim cs none) d = top_level \<longleftrightarrow> (\<exists>m. (d, top_level, m) \<in> set cs)"
  using top_iff [of cs none d] bottom_not_top by (simp add: level_none)

lemma mechanisms_kept: "set (mechanisms_of s d) \<subseteq> set (mechanisms_of (apply_claims record_claim cs s) d)"
proof (induction cs arbitrary: s)
  case (Cons c cs)
  obtain d' l m where c: "c = (d', l, m)" by (cases c)
  show ?case
    using Cons [of "record_claim d' l m s"] by (auto simp: c mechanisms_record split: if_splits)
qed simp

end

definition evidence_level :: "capability_enforcement_evidence \<Rightarrow> capability_dimension \<Rightarrow> enforcement_level" where
  "evidence_level dims d = (case dims d of None \<Rightarrow> Unenforced | Some e \<Rightarrow> ee_level e)"

definition evidence_mechanisms :: "capability_enforcement_evidence \<Rightarrow> capability_dimension \<Rightarrow> rstr list" where
  "evidence_mechanisms dims d = (case dims d of None \<Rightarrow> [] | Some e \<Rightarrow> ee_mechanisms e)"

lemma evidence_is_enforced_level: "evidence_is_enforced dims d \<longleftrightarrow> evidence_level dims d = Enforced"
  by (simp add: evidence_is_enforced_def evidence_level_def split: option.splits)

interpretation evidence: claim_map evidence_record evidence_level evidence_mechanisms
  Unenforced Enforced "\<lambda>_. None"
proof
  show "l \<le> Enforced" for l by (cases l) (simp_all add: less_eq_enforcement_level_def)
qed (auto simp: evidence_level_def evidence_mechanisms_def evidence_record_def push_mechanism_def
       Let_def max_def not_less split: option.splits)

definition plan_level :: "capability_enforcement_plan \<Rightarrow> capability_dimension \<Rightarrow> enforcement_plan_level" where
  "plan_level dims d = (case dims d of None \<Rightarrow> PlanUnsupported | Some e \<Rightarrow> ep_level e)"

definition plan_mechanisms :: "capability_enforcement_plan \<Rightarrow> capability_dimension \<Rightarrow> rstr list" where
  "plan_mechanisms dims d = (case dims d of None \<Rightarrow> [] | Some e \<Rightarrow> ep_mechanisms e)"

lemma plan_is_planned_level: "plan_is_planned dims d \<longleftrightarrow> plan_level dims d = PlanPlanned"
  by (simp add: plan_is_planned_def plan_level_def split: option.splits)

interpretation plan: claim_map plan_record plan_level plan_mechanisms
  PlanUnsupported PlanPlanned "\<lambda>_. None"
proof
  show "l \<le> PlanPlanned" for l by (cases l) (simp_all add: less_eq_enforcement_plan_level_def)
qed (auto simp: plan_level_def plan_mechanisms_def plan_record_def push_mechanism_def
       Let_def max_def not_less split: option.splits)

lemma requested_iff:
  "d \<in> set (requested_enforcement_dimensions c r) \<longleftrightarrow>
     (case d of
        DimModels \<Rightarrow> cap_models c \<noteq> []
      | DimTools \<Rightarrow> cap_tools c \<noteq> []
      | DimFilesystemRead \<Rightarrow> cap_filesystem c \<noteq> []
      | DimFilesystemWrite \<Rightarrow> (\<exists>f \<in> set (cap_filesystem c). fsc_access f = FsReadWrite)
      | DimNetwork \<Rightarrow> True
      | DimSecrets \<Rightarrow> cap_secrets c \<noteq> []
      | DimSubprocess \<Rightarrow> \<not> cap_allow_subprocess c
      | DimResources \<Rightarrow> \<not> limits_is_empty r)"
  by (cases d) (auto simp: requested_enforcement_dimensions_def list_ex_iff)

section \<open>Properties\<close>

text \<open>
  A dimension counts as missing after a run exactly when the policy asks for it and no
  record in the whole sequence of observations claimed full enforcement of it: a
  cooperative record never satisfies it, a later weaker one never takes it back, and the
  network is always asked for.
\<close>

theorem evidence_missing_iff:
  "d \<in> set (evidence_missing_dimensions
              (foldl (\<lambda>s (d, l, m). evidence_record d l m s) (\<lambda>_. None) cs) c r)
   \<longleftrightarrow> d \<in> set (requested_enforcement_dimensions c r) \<and> (\<nexists>m. (d, Enforced, m) \<in> set cs)"
  using evidence.top_from_none [of cs d]
  by (auto simp: evidence_missing_dimensions_def evidence_is_enforced_level apply_claims_def)

text \<open>
  The same holds of an admission plan: a requested dimension is missing exactly when no
  record planned it, so that \<open>Enforce\<close> mode without any plan is refused whatever the
  capabilities, the network being always requested.
\<close>

theorem plan_missing_iff:
  "(d \<in> set (plan_missing_dimensions
               (foldl (\<lambda>s (d, l, m). plan_record d l m s) (\<lambda>_. None) cs) c r)
    \<longleftrightarrow> d \<in> set (requested_enforcement_dimensions c r) \<and> (\<nexists>m. (d, PlanPlanned, m) \<in> set cs))
   \<and> DimNetwork \<in> set (plan_missing_dimensions (\<lambda>_. None) c r)"
  using plan.top_from_none [of cs d]
  by (auto simp: plan_missing_dimensions_def plan_is_planned_level apply_claims_def
      requested_iff plan_level_def)

end
