(* ===== verification/Agentctl.thy ===== *)
theory Agentctl
  imports Prelude "HOL-Library.AList" "HOL-Library.List_Lexorder" "HOL-Library.Char_ord"
begin

text \<open>
  The cooperative AgentCtl channel: the wire types of
  \<open>crates/pvisor-core/src/protocol.rs\<close> and the run-scoped session and checkpoint state of
  \<open>crates/pvisor/src/runtime/agentctl.rs\<close>.

  The clock and the random session identifiers are arguments of the operations that read
  them. The session table is an association list, updated by key. Every operation returns
  the state it leaves behind on every branch: the source drops stale sessions before some
  of its refusals. JSON parsing is a parameter of \<open>read_request\<close>; sockets, threads and
  the text of error messages are not modelled.
\<close>

section \<open>Wire types\<close>

datatype agent_state = AgentActive | AgentIdle | AgentQuiesced rstr

datatype agent_directive =
    DirContinue
  | DirQuiesce rstr "u64 option"
  | DirShutdown "rstr option"

datatype agent_request =
    Hello u32 rstr rstr
  | Sync u32 rstr agent_state

datatype agent_error_code = InvalidRequest | Unauthorized | VersionMismatch | Conflict

datatype agent_response =
    Welcome rstr u64 agent_directive
  | Synced agent_directive
  | ErrorResponse agent_error_code

definition agentctl_version :: u32 where "agentctl_version = 1"

definition agentctl_max_frame_bytes :: int where "agentctl_max_frame_bytes = 1024 * 1024"

definition agentctl_max_sessions :: nat where "agentctl_max_sessions = 64"

definition sync_interval_ms :: u64 where "sync_interval_ms = 1000"

section \<open>State\<close>

record checkpoint_acknowledgement =
  ack_generation :: u64
  ack_at_unix_ms :: u64

record client_session =
  cs_client_id :: rstr
  cs_state :: agent_state
  cs_last_seen_unix_ms :: u64
  cs_last_sync_unix_ms :: "u64 option"
  cs_checkpoint_ack :: "checkpoint_acknowledgement option"

record active_checkpoint =
  cp_generation :: u64
  cp_checkpoint_id :: rstr
  cp_deadline_unix_ms :: "u64 option"
  cp_participants :: "rstr list"

record agentctl_state =
  ac_run_id :: rstr
  ac_execution_id :: rstr
  ac_token :: rstr
  ac_directive :: agent_directive
  ac_sessions :: "(rstr \<times> client_session) list"
  ac_next_checkpoint_generation :: u64
  ac_active_checkpoint :: "active_checkpoint option"

record agent_client_snapshot =
  snap_client_id :: rstr
  snap_state :: agent_state
  snap_last_sync_unix_ms :: "u64 option"
  snap_stale :: bool

record agentctl_snapshot =
  snap_run_id :: rstr
  snap_execution_id :: rstr
  snap_directive :: agent_directive
  snap_clients :: "agent_client_snapshot list"

datatype 'e agentctl_error =
    EmptyCheckpointId
  | CheckpointWhile agent_directive
  | NoLiveClients
  | GenerationExhausted
  | CheckpointNotOwned
  | DirectiveLost
  | QuiesceTimedOut
  | CaptureFailed 'e

definition ac_new :: "rstr \<Rightarrow> rstr \<Rightarrow> rstr \<Rightarrow> agentctl_state" where
  "ac_new run_id execution_id token =
     \<lparr>ac_run_id = run_id, ac_execution_id = execution_id, ac_token = token,
      ac_directive = DirContinue, ac_sessions = [], ac_next_checkpoint_generation = 0,
      ac_active_checkpoint = None\<rparr>"

definition session_is_stale :: "client_session \<Rightarrow> u64 \<Rightarrow> bool" where
  "session_is_stale session now \<longleftrightarrow>
     sync_interval_ms * 3 < saturating_sub now (cs_last_seen_unix_ms session)"

definition ac_snapshot :: "u64 \<Rightarrow> agentctl_state \<Rightarrow> agentctl_snapshot" where
  "ac_snapshot now st =
     \<lparr>snap_run_id = ac_run_id st, snap_execution_id = ac_execution_id st,
      snap_directive = ac_directive st,
      snap_clients =
        sort_key snap_client_id
          (map (\<lambda>(_, s). \<lparr>snap_client_id = cs_client_id s, snap_state = cs_state s,
                            snap_last_sync_unix_ms = cs_last_sync_unix_ms s,
                            snap_stale = session_is_stale s now\<rparr>) (ac_sessions st))\<rparr>"

section \<open>Checkpoints\<close>

definition retain_live :: "u64 \<Rightarrow> agentctl_state \<Rightarrow> agentctl_state" where
  "retain_live now st =
     st\<lparr>ac_sessions := filter (\<lambda>(_, s). \<not> session_is_stale s now) (ac_sessions st)\<rparr>"

definition clear_acks :: "agentctl_state \<Rightarrow> agentctl_state" where
  "clear_acks st =
     st\<lparr>ac_sessions := map (\<lambda>(k, s). (k, s\<lparr>cs_checkpoint_ack := None\<rparr>)) (ac_sessions st)\<rparr>"

definition finish_checkpoint :: "u64 \<Rightarrow> agentctl_state \<Rightarrow> agentctl_state" where
  "finish_checkpoint generation st =
     (case ac_active_checkpoint st of
        None \<Rightarrow> st
      | Some cp \<Rightarrow>
          if cp_generation cp = generation
          then (clear_acks st)\<lparr>ac_active_checkpoint := None, ac_directive := DirContinue\<rparr>
          else st)"

definition start_checkpoint ::
  "u64 \<Rightarrow> rstr \<Rightarrow> u64 option \<Rightarrow> agentctl_state \<Rightarrow> ('e agentctl_error + u64) \<times> agentctl_state" where
  "start_checkpoint now checkpoint_id deadline st =
     (if trim checkpoint_id = [] then (Inl EmptyCheckpointId, st)
      else if ac_directive st \<noteq> DirContinue then (Inl (CheckpointWhile (ac_directive st)), st)
      else
        (let st = retain_live now st in
         if ac_sessions st = [] then (Inl NoLiveClients, st)
         else
           (case checked_add (ac_next_checkpoint_generation st) 1 of
              None \<Rightarrow> (Inl GenerationExhausted, st)
            | Some generation \<Rightarrow>
                (Inr generation,
                 (clear_acks st)
                   \<lparr>ac_next_checkpoint_generation := generation,
                    ac_active_checkpoint :=
                      Some \<lparr>cp_generation = generation, cp_checkpoint_id = checkpoint_id,
                            cp_deadline_unix_ms = deadline,
                            cp_participants = map fst (ac_sessions st)\<rparr>,
                    ac_directive := DirQuiesce checkpoint_id deadline\<rparr>))))"

definition request_quiesce ::
  "u64 \<Rightarrow> rstr \<Rightarrow> u64 option \<Rightarrow> agentctl_state \<Rightarrow> ('e agentctl_error + unit) \<times> agentctl_state" where
  "request_quiesce now checkpoint_id deadline st =
     (let (r, st') = start_checkpoint now checkpoint_id deadline st
      in (bind_res r (\<lambda>_. Inr ()), st'))"

record checkpoint_guard =
  guard_generation :: u64
  guard_checkpoint_id :: rstr

definition begin_checkpoint ::
  "u64 \<Rightarrow> rstr \<Rightarrow> u64 option \<Rightarrow> agentctl_state
     \<Rightarrow> ('e agentctl_error + checkpoint_guard) \<times> agentctl_state" where
  "begin_checkpoint now checkpoint_id deadline st =
     (let (r, st') = start_checkpoint now checkpoint_id deadline st
      in (bind_res r (\<lambda>g. Inr \<lparr>guard_generation = g, guard_checkpoint_id = checkpoint_id\<rparr>), st'))"

definition participant_ready :: "active_checkpoint \<Rightarrow> agentctl_state \<Rightarrow> rstr \<Rightarrow> bool" where
  "participant_ready cp st session_id =
     (case map_of (ac_sessions st) session_id of
        None \<Rightarrow> False
      | Some session \<Rightarrow>
          cs_state session = AgentQuiesced (cp_checkpoint_id cp)
          \<and> (case cs_checkpoint_ack session of
               None \<Rightarrow> False
             | Some ack \<Rightarrow>
                 ack_generation ack = cp_generation cp
                 \<and> (case cp_deadline_unix_ms cp of
                      None \<Rightarrow> True | Some deadline \<Rightarrow> ack_at_unix_ms ack \<le> deadline)))"

text \<open>
  \<open>capture\<close> is the outcome of the closure, which runs only when every participant is
  ready; the error value of the closure is passed on.
\<close>

definition try_capture ::
  "u64 \<Rightarrow> checkpoint_guard \<Rightarrow> ('e + 'a) \<Rightarrow> agentctl_state
     \<Rightarrow> ('e agentctl_error + 'a option) \<times> agentctl_state" where
  "try_capture now guard capture st =
     (case ac_active_checkpoint st of
        None \<Rightarrow> (Inl CheckpointNotOwned, st)
      | Some cp \<Rightarrow>
          if cp_generation cp \<noteq> guard_generation guard then (Inl CheckpointNotOwned, st)
          else if \<not> (case ac_directive st of
                         DirQuiesce checkpoint_id _ \<Rightarrow> checkpoint_id = cp_checkpoint_id cp
                       | _ \<Rightarrow> False)
          then (Inl DirectiveLost, st)
          else if \<not> list_all (participant_ready cp st) (cp_participants cp)
          then
            (if (case cp_deadline_unix_ms cp of None \<Rightarrow> False | Some deadline \<Rightarrow> deadline \<le> now)
             then (Inl QuiesceTimedOut, st) else (Inr None, st))
          else
            (case capture of Inl e \<Rightarrow> Inl (CaptureFailed e) | Inr a \<Rightarrow> Inr (Some a),
             finish_checkpoint (guard_generation guard) st))"

definition drop_guard :: "checkpoint_guard \<Rightarrow> agentctl_state \<Rightarrow> agentctl_state" where
  "drop_guard guard st = finish_checkpoint (guard_generation guard) st"

definition continue_execution :: "agentctl_state \<Rightarrow> agentctl_state" where
  "continue_execution st =
     (case ac_active_checkpoint st of
        None \<Rightarrow> st
      | Some cp \<Rightarrow> finish_checkpoint (cp_generation cp) st)"

definition request_shutdown :: "rstr option \<Rightarrow> agentctl_state \<Rightarrow> agentctl_state" where
  "request_shutdown reason st =
     (clear_acks st)\<lparr>ac_active_checkpoint := None, ac_directive := DirShutdown reason\<rparr>"

section \<open>Requests\<close>

definition handle_hello ::
  "u64 \<Rightarrow> rstr \<Rightarrow> rstr \<Rightarrow> rstr \<Rightarrow> agentctl_state \<Rightarrow> (agent_error_code + agent_response) \<times> agentctl_state" where
  "handle_hello now session_id token client_id st =
     (if token \<noteq> ac_token st then (Inl Unauthorized, st)
      else if trim client_id = [] then (Inl InvalidRequest, st)
      else if (case ac_directive st of DirQuiesce _ _ \<Rightarrow> True | _ \<Rightarrow> False) then (Inl Conflict, st)
      else
        (let st = retain_live now st in
         if list_ex (\<lambda>(_, s). cs_client_id s = client_id) (ac_sessions st) then (Inl Conflict, st)
         else if agentctl_max_sessions \<le> length (ac_sessions st) then (Inl Conflict, st)
         else
           (Inr (Welcome session_id sync_interval_ms (ac_directive st)),
            st\<lparr>ac_sessions :=
                 AList.update session_id
                   \<lparr>cs_client_id = client_id, cs_state = AgentActive, cs_last_seen_unix_ms = now,
                    cs_last_sync_unix_ms = None, cs_checkpoint_ack = None\<rparr>
                   (ac_sessions st)\<rparr>)))"

definition sync_ack ::
  "u64 \<Rightarrow> agent_state \<Rightarrow> (u64 \<times> rstr \<times> bool) option \<Rightarrow> checkpoint_acknowledgement option
     \<Rightarrow> checkpoint_acknowledgement option" where
  "sync_ack now reported active old =
     (case (reported, active) of
        (AgentQuiesced checkpoint_id, Some (generation, active_id, True)) \<Rightarrow>
          if checkpoint_id = active_id
          then Some (case old of
                       Some ack \<Rightarrow> if ack_generation ack = generation then ack
                                   else \<lparr>ack_generation = generation, ack_at_unix_ms = now\<rparr>
                     | None \<Rightarrow> \<lparr>ack_generation = generation, ack_at_unix_ms = now\<rparr>)
          else None
      | _ \<Rightarrow> None)"

definition handle_sync ::
  "u64 \<Rightarrow> rstr \<Rightarrow> agent_state \<Rightarrow> agentctl_state \<Rightarrow> (agent_error_code + agent_response) \<times> agentctl_state" where
  "handle_sync now session_id reported st =
     (case map_of (ac_sessions st) session_id of
        None \<Rightarrow> (Inl Unauthorized, st)
      | Some session \<Rightarrow>
          (let active = map_option (\<lambda>cp. (cp_generation cp, cp_checkpoint_id cp,
                                          session_id \<in> set (cp_participants cp)))
                          (ac_active_checkpoint st);
               refused = (case reported of
                            AgentQuiesced checkpoint_id \<Rightarrow>
                              cs_state session \<noteq> reported
                              \<and> \<not> (case active of
                                       None \<Rightarrow> False
                                     | Some (_, active_id, participant) \<Rightarrow>
                                         participant \<and> active_id = checkpoint_id)
                          | _ \<Rightarrow> False)
           in if refused then (Inl Conflict, st)
              else
                (Inr (Synced (ac_directive st)),
                 st\<lparr>ac_sessions :=
                      AList.update session_id
                        (session
                           \<lparr>cs_checkpoint_ack := sync_ack now reported active (cs_checkpoint_ack session),
                            cs_state := reported, cs_last_seen_unix_ms := now,
                            cs_last_sync_unix_ms := Some now\<rparr>)
                        (ac_sessions st)\<rparr>)))"

definition handle_request ::
  "u64 \<Rightarrow> rstr \<Rightarrow> agent_request \<Rightarrow> agentctl_state \<Rightarrow> (agent_error_code + agent_response) \<times> agentctl_state" where
  "handle_request now fresh_id request st =
     (case request of
        Hello _ token client_id \<Rightarrow> handle_hello now fresh_id token client_id st
      | Sync _ session_id reported \<Rightarrow> handle_sync now session_id reported st)"

definition dispatch_request ::
  "u64 \<Rightarrow> rstr \<Rightarrow> agent_request \<Rightarrow> agentctl_state \<Rightarrow> (agent_error_code + agent_response) \<times> agentctl_state" where
  "dispatch_request now fresh_id request st =
     (let version = (case request of Hello v _ _ \<Rightarrow> v | Sync v _ _ \<Rightarrow> v) in
      if version \<noteq> agentctl_version then (Inl VersionMismatch, st)
      else handle_request now fresh_id request st)"

text \<open>
  \<open>input\<close> is what the connection delivers before its end, or \<open>None\<close> when reading
  fails; at most one byte more than the frame limit is looked at.
\<close>

definition read_request :: "(rstr \<Rightarrow> agent_request option) \<Rightarrow> rstr option \<Rightarrow> agent_request option" where
  "read_request json input =
     (case input of
        None \<Rightarrow> None
      | Some bytes \<Rightarrow>
          (let frame = read_until (agentctl_max_frame_bytes + 1) bytes in
           if agentctl_max_frame_bytes < int (length frame) then None
           else
             (let frame = (if frame \<noteq> [] \<and> last frame = newline then butlast frame else frame)
              in if frame = [] then None else json frame)))"

definition serve_connection ::
  "(rstr \<Rightarrow> agent_request option) \<Rightarrow> u64 \<Rightarrow> rstr \<Rightarrow> rstr option \<Rightarrow> agentctl_state
     \<Rightarrow> agent_response \<times> agentctl_state" where
  "serve_connection json now fresh_id input st =
     (case read_request json input of
        None \<Rightarrow> (ErrorResponse InvalidRequest, st)
      | Some request \<Rightarrow>
          (let (r, st') = dispatch_request now fresh_id request st
           in (case r of Inl code \<Rightarrow> ErrorResponse code | Inr response \<Rightarrow> response, st')))"

section \<open>Steps\<close>

datatype ac_event =
    EvRequest u64 rstr agent_request
  | EvStart u64 rstr "u64 option"
  | EvCapture u64 checkpoint_guard
  | EvDrop checkpoint_guard
  | EvContinue
  | EvShutdown "rstr option"

fun ac_apply :: "ac_event \<Rightarrow> agentctl_state \<Rightarrow> agentctl_state" where
  "ac_apply (EvRequest now fresh request) st = snd (dispatch_request now fresh request st)"
| "ac_apply (EvStart now checkpoint_id deadline) st =
     snd (start_checkpoint now checkpoint_id deadline st :: (unit agentctl_error + u64) \<times> agentctl_state)"
| "ac_apply (EvCapture now guard) st = snd (try_capture now guard (Inr () :: unit + unit) st)"
| "ac_apply (EvDrop guard) st = drop_guard guard st"
| "ac_apply EvContinue st = continue_execution st"
| "ac_apply (EvShutdown reason) st = request_shutdown reason st"

inductive ac_step :: "agentctl_state \<Rightarrow> agentctl_state \<Rightarrow> bool" where
  step: "ac_step st (ac_apply e st)"

inductive_cases ac_stepE: "ac_step st st'"

lemma try_capture_state: "snd (try_capture now g (c :: 'e + 'a) st) = ac_apply (EvCapture now g) st"
  by (simp add: try_capture_def split: option.splits)

lemma start_checkpoint_state:
  "snd (start_checkpoint now i d st :: ('e agentctl_error + u64) \<times> _) = ac_apply (EvStart now i d) st"
  by (simp add: start_checkpoint_def Let_def split: option.splits)

section \<open>The session table\<close>

lemma update_values_distinct:
  assumes "distinct (map (\<lambda>(_, x). f x) al)" "f v \<notin> (\<lambda>(_, x). f x) ` set al"
  shows "distinct (map (\<lambda>(_, x). f x) (AList.update k v al))"
  using assms
proof (induction al)
  case (Cons a al)
  have "set (map (\<lambda>(_, x). f x) (AList.update k v al)) \<subseteq> insert (f v) ((\<lambda>(_, x). f x) ` set al)"
    by (induction al) (auto split: if_splits)
  moreover obtain j x where a: "a = (j, x)" by (cases a)
  ultimately have "f x \<notin> set (map (\<lambda>(_, x). f x) (AList.update k v al))"
    using Cons.prems by (metis distinct.simps(2) image_insert insertCI insertE list.simps(9)
        list.simps(15) list.set_map old.prod.case subsetD)
  then show ?case using Cons by (auto simp: a)
qed simp

lemma update_values_same:
  "map_of al k = Some x \<Longrightarrow> f v = f x \<Longrightarrow> map (\<lambda>(_, x). f x) (AList.update k v al) = map (\<lambda>(_, x). f x) al"
  by (induction al) auto

lemma update_length: "length (AList.update k v al) = (if k \<in> fst ` set al then length al else Suc (length al))"
  by (induction al) auto

lemma set_update_distinct:
  "distinct (map fst al) \<Longrightarrow> (k', x) \<in> set (AList.update k v al) \<Longrightarrow> (k' = k \<and> x = v) \<or> (k' \<noteq> k \<and> (k', x) \<in> set al)"
  by (induction al) (auto split: if_splits simp: image_iff)

section \<open>The invariant\<close>

definition ack_ok :: "active_checkpoint option \<Rightarrow> client_session \<Rightarrow> bool" where
  "ack_ok active s =
     (case cs_checkpoint_ack s of
        None \<Rightarrow> True
      | Some ack \<Rightarrow>
          (case active of
             None \<Rightarrow> False
           | Some cp \<Rightarrow> ack_generation ack = cp_generation cp
                        \<and> cs_state s = AgentQuiesced (cp_checkpoint_id cp)))"

definition directive_ok :: "agentctl_state \<Rightarrow> bool" where
  "directive_ok st =
     (case ac_active_checkpoint st of
        None \<Rightarrow> (case ac_directive st of DirQuiesce _ _ \<Rightarrow> False | _ \<Rightarrow> True)
      | Some cp \<Rightarrow>
          ac_directive st = DirQuiesce (cp_checkpoint_id cp) (cp_deadline_unix_ms cp)
          \<and> cp_participants cp = map fst (ac_sessions st) \<and> ac_sessions st \<noteq> []
          \<and> cp_generation cp = ac_next_checkpoint_generation st)"

definition ac_inv :: "agentctl_state \<Rightarrow> bool" where
  "ac_inv st \<longleftrightarrow>
     distinct (map fst (ac_sessions st))
     \<and> distinct (map (\<lambda>(_, s). cs_client_id s) (ac_sessions st))
     \<and> length (ac_sessions st) \<le> agentctl_max_sessions
     \<and> directive_ok st
     \<and> (\<forall>(k, s) \<in> set (ac_sessions st). ack_ok (ac_active_checkpoint st) s)"

lemma ac_invI:
  assumes "distinct (map fst (ac_sessions st))" "distinct (map (\<lambda>(_, s). cs_client_id s) (ac_sessions st))"
    "length (ac_sessions st) \<le> agentctl_max_sessions" "directive_ok st"
    "\<And>k s. (k, s) \<in> set (ac_sessions st) \<Longrightarrow> ack_ok (ac_active_checkpoint st) s"
  shows "ac_inv st"
  using assms by (auto simp: ac_inv_def)

lemma ac_inv_new: "ac_inv (ac_new r e t)"
  by (simp add: ac_inv_def ac_new_def directive_ok_def)

lemma clear_acks_fields [simp]:
  "map fst (ac_sessions (clear_acks st)) = map fst (ac_sessions st)"
  "map (\<lambda>(_, s). cs_client_id s) (ac_sessions (clear_acks st)) = map (\<lambda>(_, s). cs_client_id s) (ac_sessions st)"
  "ac_sessions (clear_acks st) = [] \<longleftrightarrow> ac_sessions st = []"
  "length (ac_sessions (clear_acks st)) = length (ac_sessions st)"
  "ac_directive (clear_acks st) = ac_directive st"
  "ac_active_checkpoint (clear_acks st) = ac_active_checkpoint st"
  "ac_next_checkpoint_generation (clear_acks st) = ac_next_checkpoint_generation st"
  "ac_token (clear_acks st) = ac_token st"
  by (simp_all add: clear_acks_def split_def comp_def)

lemma clear_acks_none: "(k, s) \<in> set (ac_sessions (clear_acks st)) \<Longrightarrow> cs_checkpoint_ack s = None"
  by (auto simp: clear_acks_def)

lemma retain_live_fields [simp]:
  "ac_directive (retain_live now st) = ac_directive st"
  "ac_active_checkpoint (retain_live now st) = ac_active_checkpoint st"
  "ac_next_checkpoint_generation (retain_live now st) = ac_next_checkpoint_generation st"
  by (simp_all add: retain_live_def)

lemma retain_live_inv:
  assumes "ac_inv st" "ac_active_checkpoint st = None"
  shows "ac_inv (retain_live now st)"
proof (rule ac_invI)
  show "length (ac_sessions (retain_live now st)) \<le> agentctl_max_sessions"
    using assms(1) by (auto simp: ac_inv_def retain_live_def intro: order.trans [OF length_filter_le])
qed (use assms in \<open>auto simp: ac_inv_def retain_live_def directive_ok_def distinct_map_filter\<close>)

lemma released_inv:
  assumes "ac_inv st" "\<And>c d. dir \<noteq> DirQuiesce c d"
  shows "ac_inv ((clear_acks st)\<lparr>ac_active_checkpoint := None, ac_directive := dir\<rparr>)"
proof (rule ac_invI)
  show "directive_ok ((clear_acks st)\<lparr>ac_active_checkpoint := None, ac_directive := dir\<rparr>)"
    using assms(2) by (simp add: directive_ok_def split: agent_directive.splits)
qed (use assms(1) clear_acks_none in \<open>auto simp: ac_inv_def ack_ok_def split: option.splits\<close>)

lemma finish_inv: "ac_inv st \<Longrightarrow> ac_inv (finish_checkpoint g st)"
  using released_inv [of st DirContinue] by (simp add: finish_checkpoint_def split: option.splits)

lemma shutdown_inv: "ac_inv st \<Longrightarrow> ac_inv (request_shutdown reason st)"
  using released_inv [of st "DirShutdown reason"] by (simp add: request_shutdown_def)

lemma continue_no_active: "ac_inv st \<Longrightarrow> ac_directive st = DirContinue \<Longrightarrow> ac_active_checkpoint st = None"
  by (auto simp: ac_inv_def directive_ok_def split: option.splits)

lemma start_inv:
  assumes "ac_inv st" shows "ac_inv (ac_apply (EvStart now i d) st)"
proof (cases "ac_directive st = DirContinue")
  case True
  let ?r = "retain_live now st"
  have r: "ac_inv ?r" using retain_live_inv [OF assms continue_no_active [OF assms True]] .
  have "ac_inv ((clear_acks ?r)\<lparr>ac_next_checkpoint_generation := g,
          ac_active_checkpoint := Some \<lparr>cp_generation = g, cp_checkpoint_id = i,
            cp_deadline_unix_ms = d, cp_participants = map fst (ac_sessions ?r)\<rparr>,
          ac_directive := DirQuiesce i d\<rparr>)" if "ac_sessions ?r \<noteq> []" for g
    using r that clear_acks_none [of _ _ ?r]
    by (intro ac_invI) (auto simp: ac_inv_def directive_ok_def ack_ok_def split: option.splits)
  then show ?thesis
    using assms r by (simp add: start_checkpoint_def Let_def split: option.splits)
qed (use assms in \<open>simp add: start_checkpoint_def\<close>)

lemma hello_inv:
  assumes "ac_inv st" shows "ac_inv (snd (handle_hello now sid token cid st))"
proof (cases "\<exists>c d. ac_directive st = DirQuiesce c d")
  case False
  let ?r = "retain_live now st"
  let ?v = "\<lparr>cs_client_id = cid, cs_state = AgentActive, cs_last_seen_unix_ms = now,
             cs_last_sync_unix_ms = None, cs_checkpoint_ack = None\<rparr>"
  have none: "ac_active_checkpoint st = None"
    using assms False by (auto simp: ac_inv_def directive_ok_def split: option.splits)
  have r: "ac_inv ?r" using retain_live_inv [OF assms none] .
  have "ac_inv (?r\<lparr>ac_sessions := AList.update sid ?v (ac_sessions ?r)\<rparr>)"
    if "\<not> list_ex (\<lambda>(_, s). cs_client_id s = cid) (ac_sessions ?r)"
      "\<not> agentctl_max_sessions \<le> length (ac_sessions ?r)"
  proof (rule ac_invI)
    show "distinct (map (\<lambda>(_, s). cs_client_id s)
            (ac_sessions (?r\<lparr>ac_sessions := AList.update sid ?v (ac_sessions ?r)\<rparr>)))"
      using r that(1) by (auto simp: ac_inv_def list_ex_iff intro!: update_values_distinct)
  next
    fix k s assume "(k, s) \<in> set (ac_sessions (?r\<lparr>ac_sessions := AList.update sid ?v (ac_sessions ?r)\<rparr>))"
    then have "s = ?v \<or> (k, s) \<in> set (ac_sessions ?r)"
      using r set_update_distinct [of "ac_sessions ?r" k s sid ?v] by (auto simp: ac_inv_def)
    then show "ack_ok (ac_active_checkpoint (?r\<lparr>ac_sessions := AList.update sid ?v (ac_sessions ?r)\<rparr>)) s"
      using r by (auto simp: ac_inv_def ack_ok_def)
  qed (use r that none in \<open>auto simp: ac_inv_def directive_ok_def update_length distinct_update\<close>)
  then show ?thesis
    using assms r by (auto simp: handle_hello_def Let_def split: agent_directive.splits)
qed (use assms in \<open>auto simp: handle_hello_def\<close>)

lemma sync_ack_cases:
  "sync_ack now reported active old = Some a \<Longrightarrow>
     \<exists>i g. reported = AgentQuiesced i \<and> active = Some (g, i, True) \<and> ack_generation a = g
           \<and> (old = Some a \<or> ack_at_unix_ms a = now)"
  by (auto simp: sync_ack_def split: agent_state.splits option.splits if_splits prod.splits bool.splits)

definition synced_session ::
  "u64 \<Rightarrow> rstr \<Rightarrow> agent_state \<Rightarrow> agentctl_state \<Rightarrow> client_session \<Rightarrow> client_session" where
  "synced_session now sid reported st s =
     s\<lparr>cs_checkpoint_ack := sync_ack now reported
         (map_option (\<lambda>cp. (cp_generation cp, cp_checkpoint_id cp, sid \<in> set (cp_participants cp)))
            (ac_active_checkpoint st)) (cs_checkpoint_ack s),
       cs_state := reported, cs_last_seen_unix_ms := now, cs_last_sync_unix_ms := Some now\<rparr>"

lemma handle_sync_state:
  "snd (handle_sync now sid reported st) = st
   \<or> (\<exists>s. map_of (ac_sessions st) sid = Some s
        \<and> fst (handle_sync now sid reported st) = Inr (Synced (ac_directive st))
        \<and> snd (handle_sync now sid reported st)
            = st\<lparr>ac_sessions := AList.update sid (synced_session now sid reported st s) (ac_sessions st)\<rparr>)"
  by (simp add: handle_sync_def Let_def synced_session_def split: option.split)

lemma handle_sync_cases:
  obtains (same) "snd (handle_sync now sid reported st) = st"
  | (accepted) s where "map_of (ac_sessions st) sid = Some s"
      "fst (handle_sync now sid reported st) = Inr (Synced (ac_directive st))"
      "snd (handle_sync now sid reported st)
         = st\<lparr>ac_sessions := AList.update sid (synced_session now sid reported st s) (ac_sessions st)\<rparr>"
  using handle_sync_state [of now sid reported st] by blast

lemma update_keys_same:
  "map_of al k = Some x \<Longrightarrow> map fst (AList.update k v al) = map fst al"
  by (induction al) auto

lemma synced_session_ack:
  assumes "cs_checkpoint_ack (synced_session now sid reported st s) = Some a"
  shows "\<exists>cp. ac_active_checkpoint st = Some cp \<and> reported = AgentQuiesced (cp_checkpoint_id cp)
           \<and> ack_generation a = cp_generation cp \<and> sid \<in> set (cp_participants cp)
           \<and> (cs_checkpoint_ack s = Some a \<or> ack_at_unix_ms a = now)"
  using assms sync_ack_cases [of now reported _ "cs_checkpoint_ack s" a]
  by (fastforce simp: synced_session_def)

lemma sync_inv:
  assumes "ac_inv st" shows "ac_inv (snd (handle_sync now sid reported st))"
proof (cases rule: handle_sync_cases [of now sid reported st])
  case (accepted s)
  let ?v = "synced_session now sid reported st s"
  have keys: "map fst (AList.update sid ?v (ac_sessions st)) = map fst (ac_sessions st)"
    by (rule update_keys_same [OF accepted(1)])
  have len: "length (AList.update sid ?v (ac_sessions st)) = length (ac_sessions st)"
    using keys by (metis length_map)
  have vals: "map (\<lambda>(_, s). cs_client_id s) (AList.update sid ?v (ac_sessions st))
      = map (\<lambda>(_, s). cs_client_id s) (ac_sessions st)"
    by (rule update_values_same [OF accepted(1)]) (simp add: synced_session_def)
  show ?thesis unfolding accepted(3)
  proof (rule ac_invI)
    show "directive_ok (st\<lparr>ac_sessions := AList.update sid ?v (ac_sessions st)\<rparr>)"
      using assms keys len by (auto simp: ac_inv_def directive_ok_def split: option.splits)
  next
    fix k x
    assume "(k, x) \<in> set (ac_sessions (st\<lparr>ac_sessions := AList.update sid ?v (ac_sessions st)\<rparr>))"
    then have "x = ?v \<or> (k, x) \<in> set (ac_sessions st)"
      using assms set_update_distinct [of "ac_sessions st" k x sid ?v] by (auto simp: ac_inv_def)
    moreover have "ack_ok (ac_active_checkpoint st) ?v"
      using synced_session_ack [of now sid reported st s]
      by (auto simp: ack_ok_def synced_session_def split: option.splits)
    ultimately show "ack_ok (ac_active_checkpoint (st\<lparr>ac_sessions := AList.update sid ?v (ac_sessions st)\<rparr>)) x"
      using assms by (auto simp: ac_inv_def)
  qed (use assms keys len vals in \<open>simp_all add: ac_inv_def\<close>)
qed (use assms in simp)

lemma dispatch_inv: "ac_inv st \<Longrightarrow> ac_inv (snd (dispatch_request now fresh request st))"
  by (simp add: dispatch_request_def handle_request_def Let_def hello_inv sync_inv split: agent_request.splits)

lemma capture_cases:
  "snd (try_capture now g c st) = st \<or> snd (try_capture now g c st) = finish_checkpoint (guard_generation g) st"
  by (simp add: try_capture_def split: option.splits)

lemma ac_apply_inv: "ac_inv st \<Longrightarrow> ac_inv (ac_apply e st)"
proof (cases e)
  case (EvStart now i d)
  then show "ac_inv st \<Longrightarrow> ?thesis" using start_inv by blast
next
  case (EvCapture now g)
  then show "ac_inv st \<Longrightarrow> ?thesis" using capture_cases [of now g "Inr () :: unit + unit" st] finish_inv by auto
qed (simp_all add: dispatch_inv drop_guard_def finish_inv shutdown_inv continue_execution_def
       split: option.splits)

interpretation agentctl: state_machine "\<lambda>st. \<exists>r e t. st = ac_new r e t" ac_step ac_inv
  by unfold_locales (auto simp: ac_inv_new ac_apply_inv elim!: ac_stepE)

section \<open>Runs of events\<close>

definition ac_run :: "ac_event list \<Rightarrow> agentctl_state \<Rightarrow> agentctl_state" where
  "ac_run es st = foldl (\<lambda>s e. ac_apply e s) st es"

lemma ac_run_simps [simp]:
  "ac_run [] st = st" "ac_run (es @ [e]) st = ac_apply e (ac_run es st)"
  by (simp_all add: ac_run_def)

lemma ac_run_inv: "ac_inv st \<Longrightarrow> ac_inv (ac_run es st)"
  by (induction es rule: rev_induct) (auto intro: ac_apply_inv)

text \<open>Generations only grow, and only \<open>start_checkpoint\<close> makes one active.\<close>

lemma finish_next [simp]:
  "ac_next_checkpoint_generation (finish_checkpoint g st) = ac_next_checkpoint_generation st"
  by (simp add: finish_checkpoint_def split: option.splits)

lemma finish_active:
  "ac_active_checkpoint (finish_checkpoint g st) = Some cp \<Longrightarrow> finish_checkpoint g st = st"
  by (auto simp: finish_checkpoint_def split: option.splits if_splits)

definition checkpoint_started :: "u64 \<Rightarrow> rstr \<Rightarrow> u64 option \<Rightarrow> u64 \<Rightarrow> agentctl_state \<Rightarrow> agentctl_state" where
  "checkpoint_started now i d g st =
     (clear_acks (retain_live now st))
       \<lparr>ac_next_checkpoint_generation := g,
        ac_active_checkpoint := Some \<lparr>cp_generation = g, cp_checkpoint_id = i,
          cp_deadline_unix_ms = d, cp_participants = map fst (ac_sessions (retain_live now st))\<rparr>,
        ac_directive := DirQuiesce i d\<rparr>"

lemma start_InrD:
  assumes "start_checkpoint now i d st = (Inr g, st')"
  shows "ac_directive st = DirContinue \<and> unat g = unat (ac_next_checkpoint_generation st) + 1
         \<and> st' = checkpoint_started now i d g st"
  using assms checked_add_SomeD [of "ac_next_checkpoint_generation st" 1 g]
  by (auto simp: start_checkpoint_def Let_def checkpoint_started_def split: if_splits option.splits)

lemma start_cases:
  obtains (same) "ac_apply (EvStart now i d) st = st"
  | (retained) "ac_directive st = DirContinue" "ac_apply (EvStart now i d) st = retain_live now st"
  | (started) g where "ac_directive st = DirContinue" "unat g = unat (ac_next_checkpoint_generation st) + 1"
      "ac_apply (EvStart now i d) st = checkpoint_started now i d g st"
proof (cases "start_checkpoint now i d st :: (unit agentctl_error + u64) \<times> agentctl_state")
  case (Pair r st')
  show thesis
  proof (cases r)
    case (Inr g)
    then show thesis using started [of g] start_InrD [OF Pair [unfolded Inr]] Pair by auto
  next
    case (Inl e)
    then have "st' = st \<or> (ac_directive st = DirContinue \<and> st' = retain_live now st)"
      using Pair by (auto simp: start_checkpoint_def Let_def split: if_splits option.splits)
    then show thesis using same retained Pair by auto
  qed
qed

lemma checkpoint_started_fields [simp]:
  "ac_next_checkpoint_generation (checkpoint_started now i d g st) = g"
  "ac_active_checkpoint (checkpoint_started now i d g st) =
     Some \<lparr>cp_generation = g, cp_checkpoint_id = i, cp_deadline_unix_ms = d,
           cp_participants = map fst (ac_sessions (retain_live now st))\<rparr>"
  "ac_directive (checkpoint_started now i d g st) = DirQuiesce i d"
  by (simp_all add: checkpoint_started_def)

lemma checkpoint_started_acks:
  "(k, s) \<in> set (ac_sessions (checkpoint_started now i d g st)) \<Longrightarrow> cs_checkpoint_ack s = None"
  by (auto simp: checkpoint_started_def dest: clear_acks_none)

lemma next_generation_mono:
  "ac_next_checkpoint_generation st \<le> ac_next_checkpoint_generation (ac_apply e st)"
proof (cases e)
  case (EvRequest now f r)
  have "ac_next_checkpoint_generation (snd (handle_sync now sid x st)) = ac_next_checkpoint_generation st" for sid x
    by (cases rule: handle_sync_cases [of now sid x st]) simp_all
  then show ?thesis
    by (simp add: EvRequest dispatch_request_def handle_request_def handle_hello_def Let_def
        split: agent_request.split)
next
  case (EvStart now i d)
  show ?thesis unfolding EvStart
    by (cases rule: start_cases [of now i d st]) (simp_all add: word_le_nat_alt)
next
  case (EvCapture now g)
  then show ?thesis using capture_cases [of now g "Inr () :: unit + unit" st] by auto
qed (simp_all add: drop_guard_def continue_execution_def request_shutdown_def split: option.splits)


section \<open>Where an acknowledgement comes from\<close>

text \<open>
  What a run that started with checkpoint \<open>cp\<close> keeps true: as long as its generation is the
  active one, it is still the same checkpoint, and every acknowledgement was made by a report
  in the run.
\<close>

definition acks_from :: "active_checkpoint \<Rightarrow> ac_event list \<Rightarrow> agentctl_state \<Rightarrow> bool" where
  "acks_from cp es st \<longleftrightarrow>
     cp_generation cp \<le> ac_next_checkpoint_generation st
     \<and> (\<forall>cp'. ac_active_checkpoint st = Some cp' \<and> cp_generation cp' = cp_generation cp \<longrightarrow>
          cp' = cp
          \<and> (\<forall>(k, s) \<in> set (ac_sessions st). \<forall>a. cs_checkpoint_ack s = Some a \<longrightarrow>
               (\<exists>f. EvRequest (ack_at_unix_ms a) f
                      (Sync agentctl_version k (AgentQuiesced (cp_checkpoint_id cp))) \<in> set es)))"

lemma acks_from_unchanged:
  assumes "acks_from cp es st" "ac_next_checkpoint_generation st' = ac_next_checkpoint_generation st"
    and "ac_active_checkpoint st' = None \<or> st' = st"
  shows "acks_from cp (es @ [e]) st'"
  using assms unfolding acks_from_def by fastforce

lemma acks_from_report:
  assumes "acks_from cp es st" "ac_active_checkpoint st = Some cp" "(k, s) \<in> set (ac_sessions st)"
    and "cs_checkpoint_ack s = Some a"
  shows "\<exists>f. EvRequest (ack_at_unix_ms a) f (Sync agentctl_version k (AgentQuiesced (cp_checkpoint_id cp)))
           \<in> set es"
  using assms unfolding acks_from_def by auto

lemma acks_fromI:
  assumes "cp_generation cp \<le> ac_next_checkpoint_generation st"
    and "\<And>cp'. ac_active_checkpoint st = Some cp' \<Longrightarrow> cp_generation cp' = cp_generation cp \<Longrightarrow> cp' = cp"
    and "\<And>k s a. ac_active_checkpoint st = Some cp \<Longrightarrow> (k, s) \<in> set (ac_sessions st) \<Longrightarrow>
           cs_checkpoint_ack s = Some a \<Longrightarrow>
           \<exists>f. EvRequest (ack_at_unix_ms a) f
                 (Sync agentctl_version k (AgentQuiesced (cp_checkpoint_id cp))) \<in> set es"
  shows "acks_from cp es st"
  unfolding acks_from_def using assms by blast

lemma acks_fromD:
  assumes "acks_from cp es st"
  shows "cp_generation cp \<le> ac_next_checkpoint_generation st"
    and "\<And>cp'. ac_active_checkpoint st = Some cp' \<Longrightarrow> cp_generation cp' = cp_generation cp \<Longrightarrow> cp' = cp"
  using assms unfolding acks_from_def by blast+

lemma acks_from_sync:
  assumes inv: "ac_inv st" and old: "acks_from cp es st"
  shows "acks_from cp (es @ [EvRequest now f (Sync agentctl_version sid reported)])
           (snd (handle_sync now sid reported st))"
proof (cases rule: handle_sync_cases [of now sid reported st])
  case same
  then show ?thesis using acks_from_unchanged [OF old] by simp
next
  case (accepted s)
  let ?v = "synced_session now sid reported st s"
  have entry: "(sid, s) \<in> set (ac_sessions st)" using accepted(1) by (rule map_of_SomeD)
  show ?thesis unfolding accepted(3)
  proof (rule acks_fromI)
    fix k x a
    assume "ac_active_checkpoint (st\<lparr>ac_sessions := AList.update sid ?v (ac_sessions st)\<rparr>) = Some cp"
      and x: "(k, x) \<in> set (ac_sessions (st\<lparr>ac_sessions := AList.update sid ?v (ac_sessions st)\<rparr>))"
      and ack: "cs_checkpoint_ack x = Some a"
    then have act: "ac_active_checkpoint st = Some cp" by simp
    have "(k = sid \<and> x = ?v) \<or> (k, x) \<in> set (ac_sessions st)"
      using inv set_update_distinct [of "ac_sessions st" k x sid ?v] x by (auto simp: ac_inv_def)
    then consider "(k, x) \<in> set (ac_sessions st)" | "k = sid" "cs_checkpoint_ack ?v = Some a"
      using ack by auto
    then show "\<exists>f'. EvRequest (ack_at_unix_ms a) f'
          (Sync agentctl_version k (AgentQuiesced (cp_checkpoint_id cp)))
          \<in> set (es @ [EvRequest now f (Sync agentctl_version sid reported)])"
    proof cases
      case 1
      then show ?thesis using acks_from_report [OF old act 1 ack] by auto
    next
      case 2
      then show ?thesis
        using synced_session_ack [OF 2(2)] act acks_from_report [OF old act entry, of a] by auto
    qed
  qed (use acks_fromD [OF old] in auto)
qed

lemma acks_from_hello:
  assumes "ac_inv st" "acks_from cp es st"
  shows "acks_from cp (es @ [e]) (snd (handle_hello now sid token cid st))"
proof (cases "ac_active_checkpoint st")
  case (Some cp')
  then have "snd (handle_hello now sid token cid st) = st"
    using assms(1) by (auto simp: handle_hello_def ac_inv_def directive_ok_def)
  then show ?thesis using acks_from_unchanged [OF assms(2)] by simp
next
  case None
  then show ?thesis
    by (intro acks_from_unchanged [OF assms(2)]) (simp_all add: handle_hello_def Let_def)
qed

lemma acks_from_dispatch:
  assumes "ac_inv st" "acks_from cp es st"
  shows "acks_from cp (es @ [EvRequest now f r]) (snd (dispatch_request now f r st))"
proof (cases r)
  case (Hello v t c)
  then show ?thesis
    using acks_from_hello [OF assms] acks_from_unchanged [OF assms(2), of st]
    by (simp add: dispatch_request_def handle_request_def)
next
  case (Sync v sid x)
  then show ?thesis
    using acks_from_sync [OF assms, of now f sid x] acks_from_unchanged [OF assms(2), of st]
    by (simp add: dispatch_request_def handle_request_def)
qed

lemma acks_from_finish:
  assumes "acks_from cp es st" shows "acks_from cp (es @ [e]) (finish_checkpoint g st)"
  by (intro acks_from_unchanged [OF assms])
     (auto simp: finish_checkpoint_def split: option.splits)

lemma acks_from_start:
  assumes "ac_inv st" "acks_from cp es st"
  shows "acks_from cp (es @ [e]) (ac_apply (EvStart now i d) st)"
proof (cases rule: start_cases [of now i d st])
  case same
  then show ?thesis using acks_from_unchanged [OF assms(2)] by simp
next
  case retained
  then show ?thesis
    using acks_from_unchanged [OF assms(2)] continue_no_active [OF assms(1)] by simp
next
  case (started g)
  then have "unat (cp_generation cp) < unat g"
    using acks_fromD(1) [OF assms(2)] by (simp add: word_le_nat_alt)
  then show ?thesis
    unfolding started(3) by (intro acks_fromI) (auto simp: word_le_nat_alt)
qed

lemma acks_from_apply:
  assumes "ac_inv st" "acks_from cp es st"
  shows "acks_from cp (es @ [e]) (ac_apply e st)"
proof (cases e)
  case (EvStart now i d)
  then show ?thesis using acks_from_start [OF assms] by simp
next
  case (EvCapture now g)
  then show ?thesis
    using capture_cases [of now g "Inr () :: unit + unit" st] acks_from_finish [OF assms(2)]
      acks_from_unchanged [OF assms(2), of st] by auto
next
  case EvContinue
  then show ?thesis
    using acks_from_finish [OF assms(2)] acks_from_unchanged [OF assms(2), of st]
    by (simp add: continue_execution_def split: option.splits)
next
  case (EvShutdown reason)
  then show ?thesis
    by (intro acks_from_unchanged [OF assms(2)]) (simp_all add: request_shutdown_def)
qed (simp_all add: acks_from_dispatch [OF assms] acks_from_finish [OF assms(2)] drop_guard_def)

lemma acks_from_run:
  assumes "ac_inv st" "acks_from cp [] st"
  shows "acks_from cp es (ac_run es st)"
  by (induction es rule: rev_induct)
     (use assms in \<open>auto simp: acks_from_apply ac_run_inv [OF assms(1)]\<close>)

section \<open>Reaching quiescence\<close>

definition in_time :: "active_checkpoint \<Rightarrow> u64 \<Rightarrow> bool" where
  "in_time cp t = (case cp_deadline_unix_ms cp of None \<Rightarrow> True | Some deadline \<Rightarrow> t \<le> deadline)"

definition acks_in_time :: "active_checkpoint \<Rightarrow> agentctl_state \<Rightarrow> bool" where
  "acks_in_time cp st \<longleftrightarrow>
     (\<forall>k s a. map_of (ac_sessions st) k = Some s \<longrightarrow> cs_checkpoint_ack s = Some a \<longrightarrow>
        in_time cp (ack_at_unix_ms a))"

lemma sync_ready:
  assumes "ac_inv st" "ac_active_checkpoint st = Some cp" "k \<in> set (cp_participants cp)"
    and "acks_in_time cp st" "in_time cp t"
  defines "st' \<equiv> snd (handle_sync t k (AgentQuiesced (cp_checkpoint_id cp)) st)"
  shows "ac_active_checkpoint st' = Some cp" "acks_in_time cp st'" "participant_ready cp st' k"
    and "participant_ready cp st k' \<Longrightarrow> participant_ready cp st' k'"
proof -
  let ?r = "AgentQuiesced (cp_checkpoint_id cp)"
  have "k \<in> fst ` set (ac_sessions st)"
    using assms(1-3) by (auto simp: ac_inv_def directive_ok_def)
  then obtain s where s: "map_of (ac_sessions st) k = Some s"
    by (metis map_of_eq_None_iff not_Some_eq)
  let ?v = "synced_session t k ?r st s"
  have st': "st' = st\<lparr>ac_sessions := AList.update k ?v (ac_sessions st)\<rparr>"
    using s assms(2,3) by (simp add: st'_def handle_sync_def Let_def synced_session_def)
  have map': "map_of (ac_sessions st') = (map_of (ac_sessions st))(k \<mapsto> ?v)"
    by (simp add: st' update_conv')
  obtain a where a: "cs_checkpoint_ack ?v = Some a"
    using assms(2,3) by (simp add: synced_session_def sync_ack_def)
  have "ack_generation a = cp_generation cp" "in_time cp (ack_at_unix_ms a)"
    using synced_session_ack [OF a] assms(2,4,5) s unfolding acks_in_time_def by auto
  then show "ac_active_checkpoint st' = Some cp" "acks_in_time cp st'" "participant_ready cp st' k"
    using a assms(2,4)
    by (auto simp: acks_in_time_def participant_ready_def map' in_time_def [symmetric] st' update_conv'
        synced_session_def [of t k ?r st s])
  then show "participant_ready cp st k' \<Longrightarrow> participant_ready cp st' k'"
    by (cases "k' = k") (simp_all add: participant_ready_def map')
qed

definition sync_all :: "(rstr \<Rightarrow> u64) \<Rightarrow> rstr \<Rightarrow> rstr list \<Rightarrow> agentctl_state \<Rightarrow> agentctl_state" where
  "sync_all t i ks st = foldl (\<lambda>s k. snd (handle_sync (t k) k (AgentQuiesced i) s)) st ks"

lemma sync_all_ready:
  assumes "ac_inv st" "ac_active_checkpoint st = Some cp" "set ks \<subseteq> set (cp_participants cp)"
    and "acks_in_time cp st" "\<forall>k \<in> set ks. in_time cp (t k)"
  shows "ac_inv (sync_all t (cp_checkpoint_id cp) ks st)
         \<and> ac_active_checkpoint (sync_all t (cp_checkpoint_id cp) ks st) = Some cp
         \<and> acks_in_time cp (sync_all t (cp_checkpoint_id cp) ks st)
         \<and> (\<forall>k \<in> set ks. participant_ready cp (sync_all t (cp_checkpoint_id cp) ks st) k)"
  using assms(3,5)
proof (induction ks rule: rev_induct)
  case (snoc k ks)
  let ?m = "sync_all t (cp_checkpoint_id cp) ks st"
  have m: "ac_inv ?m" "ac_active_checkpoint ?m = Some cp" "acks_in_time cp ?m"
    "\<forall>k \<in> set ks. participant_ready cp ?m k"
    using snoc by auto
  have "k \<in> set (cp_participants cp)" "in_time cp (t k)" using snoc.prems by auto
  note r = sync_ready [OF m(1,2) this(1) m(3) this(2)]
  have "sync_all t (cp_checkpoint_id cp) (ks @ [k]) st
      = snd (handle_sync (t k) k (AgentQuiesced (cp_checkpoint_id cp)) ?m)"
    by (simp add: sync_all_def)
  then show ?case using r m sync_inv [OF m(1)] by auto
qed (use assms in \<open>simp add: sync_all_def\<close>)

section \<open>Shutdown\<close>

lemma shutdown_kept:
  assumes "ac_inv st" "ac_directive st = DirShutdown reason"
  shows "\<exists>reason'. ac_directive (ac_apply e st) = DirShutdown reason'"
proof -
  have none: "ac_active_checkpoint st = None"
    using assms by (auto simp: ac_inv_def directive_ok_def split: option.splits)
  then have fin: "finish_checkpoint g st = st" for g by (simp add: finish_checkpoint_def)
  show ?thesis
  proof (cases e)
    case (EvRequest now f r)
    have "ac_directive (snd (handle_sync now sid x st)) = ac_directive st" for sid x
      by (cases rule: handle_sync_cases [of now sid x st]) simp_all
    then show ?thesis
      using assms(2) by (simp add: EvRequest dispatch_request_def handle_request_def handle_hello_def
          Let_def split: agent_request.split)
  next
    case (EvCapture now g)
    then show ?thesis using capture_cases [of now g "Inr () :: unit + unit" st] fin assms(2) by auto
  qed (use assms(2) none fin in
        \<open>simp_all add: start_checkpoint_def drop_guard_def continue_execution_def request_shutdown_def\<close>)
qed

section \<open>Properties\<close>

text \<open>
  C21. In every state the channel can reach, whatever requests, checkpoints, captures,
  cancellations and shutdowns arrive in whatever order: at most 64 sessions, no two with one
  client identity; a quiesce directive is published exactly while a checkpoint is active, for
  that checkpoint and its deadline; and the participants of an active checkpoint are exactly
  the live sessions, so none joins, is replaced or expires while it runs.
\<close>

theorem agentctl_reachable_invariant:
  assumes "ac_step\<^sup>*\<^sup>* (ac_new run_id execution_id token) st"
  shows "length (ac_sessions st) \<le> 64
         \<and> distinct (map fst (ac_sessions st))
         \<and> distinct (map (\<lambda>(_, s). cs_client_id s) (ac_sessions st))
         \<and> (case ac_active_checkpoint st of
              None \<Rightarrow> (\<nexists>i d. ac_directive st = DirQuiesce i d)
            | Some cp \<Rightarrow>
                ac_directive st = DirQuiesce (cp_checkpoint_id cp) (cp_deadline_unix_ms cp)
                \<and> cp_participants cp = map fst (ac_sessions st) \<and> cp_participants cp \<noteq> [])"
proof -
  have "ac_inv st" using agentctl.inv_reachable [OF _ assms] by blast
  then show ?thesis
    by (auto simp: ac_inv_def directive_ok_def agentctl_max_sessions_def
        split: option.splits agent_directive.splits)
qed

definition ex_ac :: agentctl_state where
  "ex_ac = ac_new ''run'' ''exec'' ''secret''"

definition ex_hello :: ac_event where
  "ex_hello = EvRequest 100 ''s1'' (Hello 1 ''secret'' ''worker'')"

lemma ex_reach: "ac_step\<^sup>*\<^sup>* (ac_new ''run'' ''exec'' ''secret'') (ac_run es ex_ac)"
  by (induction es rule: rev_induct)
     (auto simp: ex_ac_def intro: rtranclp.rtrancl_into_rtrancl ac_step.step)

theorem agentctl_reachable_invariant_witness:
  "\<exists>cp. ac_active_checkpoint (ac_run [ex_hello, EvStart 200 ''c1'' None] ex_ac) = Some cp
        \<and> cp_participants cp = [''s1'']"
proof -
  let ?st = "ac_run [ex_hello, EvStart 200 ''c1'' None] ex_ac"
  have "ac_active_checkpoint ?st \<noteq> None" "map fst (ac_sessions ?st) = [''s1'']" by code_simp+
  then show ?thesis
    using agentctl_reachable_invariant [OF ex_reach, of "[ex_hello, EvStart 200 ''c1'' None]"]
    by (auto split: option.splits)
qed

text \<open>
  C4. A capture happens only at a safe boundary. When it succeeds for the checkpoint that
  \<open>start_checkpoint\<close> began, every session that was live at its start has, in the events
  since that start, sent a fresh report that it is quiesced for this very checkpoint, no
  later than the deadline: reports kept from earlier checkpoints never count.
\<close>

theorem capture_needs_fresh_reports:
  assumes "ac_step\<^sup>*\<^sup>* (ac_new run_id execution_id token) st"
    and "start_checkpoint now i d st = (Inr (guard_generation guard), st1)"
    and "try_capture now' guard outcome (ac_run es st1) = (Inr (Some captured), st2)"
  shows "ac_sessions st1 \<noteq> []
         \<and> list_all (\<lambda>k. \<exists>t f. EvRequest t f (Sync agentctl_version k (AgentQuiesced i)) \<in> set es
                            \<and> (case d of None \<Rightarrow> True | Some deadline \<Rightarrow> t \<le> deadline))
             (map fst (ac_sessions st1))"
proof -
  note s = start_InrD [OF assms(2)]
  define cp where "cp = \<lparr>cp_generation = guard_generation guard, cp_checkpoint_id = i,
    cp_deadline_unix_ms = d, cp_participants = map fst (ac_sessions st1)\<rparr>"
  have act: "ac_active_checkpoint st1 = Some cp"
    using s by (simp add: cp_def checkpoint_started_def)
  have "st1 = ac_apply (EvStart now i d) st"
    using assms(2) start_checkpoint_state by (metis snd_conv)
  then have inv: "ac_inv st1" using agentctl.inv_reachable [OF _ assms(1)] start_inv by blast
  have "acks_from cp [] st1"
    using s checkpoint_started_acks act by (intro acks_fromI) (auto simp: cp_def)
  then have from_es: "acks_from cp es (ac_run es st1)" by (rule acks_from_run [OF inv])
  have act': "ac_active_checkpoint (ac_run es st1) = Some cp"
    and ready: "list_all (participant_ready cp (ac_run es st1)) (cp_participants cp)"
    using assms(3) acks_fromD(2) [OF from_es]
    by (auto simp: try_capture_def cp_def split: option.splits if_splits sum.splits)
  have "\<exists>t f. EvRequest t f (Sync agentctl_version k (AgentQuiesced i)) \<in> set es
          \<and> (case d of None \<Rightarrow> True | Some deadline \<Rightarrow> t \<le> deadline)" if "participant_ready cp (ac_run es st1) k" for k
    using that acks_from_report [OF from_es act' map_of_SomeD]
    by (fastforce simp: participant_ready_def cp_def split: option.splits)
  then show ?thesis
    using ready inv act by (auto simp: list_all_iff cp_def ac_inv_def directive_ok_def)
qed

theorem capture_needs_fresh_reports_witness:
  "\<exists>t f. EvRequest t f (Sync agentctl_version ''s1'' (AgentQuiesced ''c1''))
           \<in> set [EvRequest 250 ''x'' (Sync 1 ''s1'' (AgentQuiesced ''c1''))] \<and> t \<le> 300"
proof -
  let ?st = "ac_run [ex_hello] ex_ac" and ?g = "\<lparr>guard_generation = 1, guard_checkpoint_id = ''c1''\<rparr>"
  let ?es = "[EvRequest 250 ''x'' (Sync 1 ''s1'' (AgentQuiesced ''c1''))]"
  let ?st1 = "ac_apply (EvStart 200 ''c1'' (Some 300)) ?st"
  have s: "start_checkpoint 200 ''c1'' (Some 300) ?st
      = (Inr (guard_generation ?g) :: unit agentctl_error + u64, ?st1)"
    and c: "fst (try_capture 260 ?g (Inr () :: unit + unit) (ac_run ?es ?st1)) = Inr (Some ())"
    and k: "map fst (ac_sessions ?st1) = [''s1'']"
    by code_simp+
  obtain st2 where c': "try_capture 260 ?g (Inr () :: unit + unit) (ac_run ?es ?st1) = (Inr (Some ()), st2)"
    using c by (metis prod.collapse)
  show ?thesis
    using capture_needs_fresh_reports [OF ex_reach s c'] k by simp
qed

text \<open>
  C32. A checkpoint that every participant answers in time completes: once each session that
  was live at its start has reported itself quiesced before the deadline, in any order and
  however often, the owner's next attempt runs the capture, returns its outcome, and
  publishes \<open>Continue\<close> again.
\<close>

theorem answered_checkpoint_completes:
  assumes "ac_step\<^sup>*\<^sup>* (ac_new run_id execution_id token) st"
    and "start_checkpoint now i d st = (Inr (guard_generation guard), st1)"
    and "set ks = fst ` set (ac_sessions st1)"
    and "\<forall>k \<in> set ks. case d of None \<Rightarrow> True | Some deadline \<Rightarrow> t k \<le> deadline"
  shows "fst (try_capture now' guard (Inr captured) (sync_all t i ks st1)) = Inr (Some captured)
         \<and> ac_directive (snd (try_capture now' guard (Inr captured) (sync_all t i ks st1))) = DirContinue"
proof -
  note s = start_InrD [OF assms(2)]
  define cp where "cp = \<lparr>cp_generation = guard_generation guard, cp_checkpoint_id = i,
    cp_deadline_unix_ms = d, cp_participants = map fst (ac_sessions st1)\<rparr>"
  have act: "ac_active_checkpoint st1 = Some cp"
    using s by (simp add: cp_def checkpoint_started_def)
  have "st1 = ac_apply (EvStart now i d) st"
    using assms(2) start_checkpoint_state by (metis snd_conv)
  then have inv: "ac_inv st1" using agentctl.inv_reachable [OF _ assms(1)] start_inv by blast
  have time: "acks_in_time cp st1"
    using s checkpoint_started_acks by (fastforce simp: acks_in_time_def dest: map_of_SomeD)
  have "set ks \<subseteq> set (cp_participants cp)" "\<forall>k \<in> set ks. in_time cp (t k)"
    using assms(3,4) by (auto simp: cp_def in_time_def)
  note r = sync_all_ready [OF inv act this(1) time this(2)]
  have "ac_directive (sync_all t i ks st1) = DirQuiesce i d"
    using r by (auto simp: ac_inv_def directive_ok_def cp_def)
  moreover have "list_all (participant_ready cp (sync_all t i ks st1)) (cp_participants cp)"
    using r assms(3) by (auto simp: list_all_iff cp_def)
  ultimately show ?thesis
    using r by (simp add: try_capture_def finish_checkpoint_def cp_def)
qed

theorem answered_checkpoint_completes_witness:
  "fst (try_capture 999 \<lparr>guard_generation = 1, guard_checkpoint_id = ''c1''\<rparr> (Inr True :: unit + bool)
     (sync_all (\<lambda>_. 250) ''c1'' [''s1'', ''s1'']
        (ac_apply (EvStart 200 ''c1'' (Some 300)) (ac_run [ex_hello] ex_ac)))) = Inr (Some True)"
proof -
  let ?st = "ac_run [ex_hello] ex_ac" and ?g = "\<lparr>guard_generation = 1, guard_checkpoint_id = ''c1''\<rparr>"
  let ?st1 = "ac_apply (EvStart 200 ''c1'' (Some 300)) ?st"
  have s: "start_checkpoint 200 ''c1'' (Some 300) ?st
      = (Inr (guard_generation ?g) :: unit agentctl_error + u64, ?st1)"
    and k: "map fst (ac_sessions ?st1) = [''s1'']"
    by code_simp+
  have k': "set [''s1'', ''s1''] = fst ` set (ac_sessions ?st1)"
    using k by (metis insert_absorb2 list.set_map list.simps(15))
  show ?thesis
    by (rule conjunct1 [OF answered_checkpoint_completes [OF ex_reach s k']]) simp
qed

text \<open>
  Shutdown is final: once pVisor has published it, no later request, checkpoint, capture,
  release or dropped guard makes the channel publish anything but a shutdown.
\<close>

theorem shutdown_is_final:
  assumes "ac_step\<^sup>*\<^sup>* (ac_new run_id execution_id token) st"
  shows "\<exists>reason'. ac_directive (ac_run es (request_shutdown reason st)) = DirShutdown reason'"
proof (induction es rule: rev_induct)
  case (snoc e es)
  have "ac_inv (ac_run es (request_shutdown reason st))"
    using agentctl.inv_reachable [OF _ assms] shutdown_inv ac_run_inv by blast
  then show ?case using snoc shutdown_kept by auto
qed (simp add: request_shutdown_def)

theorem shutdown_is_final_witness:
  "\<exists>reason'. ac_directive (ac_run [EvContinue, EvStart 300 ''c2'' None]
     (request_shutdown None (ac_run [ex_hello, EvStart 200 ''c1'' None] ex_ac))) = DirShutdown reason'"
  by (rule shutdown_is_final [OF ex_reach])

text \<open>
  A stale guard is harmless. Generations are never reused: a checkpoint started now has a
  larger one than any issued before, so dropping a guard of an earlier checkpoint, or trying
  to capture with it, leaves the new checkpoint exactly as it is.
\<close>

theorem stale_guard_is_harmless:
  assumes "start_checkpoint now i d st = (Inr g, st1)"
    and "guard_generation old \<le> ac_next_checkpoint_generation st"
  shows "guard_generation old < g
         \<and> drop_guard old st1 = st1
         \<and> try_capture now' old outcome st1 = (Inl CheckpointNotOwned, st1)"
proof -
  note s = start_InrD [OF assms(1)]
  then have "guard_generation old < g"
    using assms(2) by (simp add: word_le_nat_alt word_less_nat_alt)
  then show ?thesis
    using s by (auto simp: drop_guard_def finish_checkpoint_def try_capture_def)
qed

theorem stale_guard_is_harmless_witness:
  "let st = ac_run [ex_hello, EvStart 200 ''c1'' None, EvContinue] ex_ac;
       st1 = ac_apply (EvStart 300 ''c2'' None) st;
       old = \<lparr>guard_generation = 1, guard_checkpoint_id = ''c1''\<rparr>
   in drop_guard old st1 = st1"
proof -
  let ?st = "ac_run [ex_hello, EvStart 200 ''c1'' None, EvContinue] ex_ac"
  have "start_checkpoint 300 ''c2'' None ?st
      = (Inr 2 :: unit agentctl_error + u64, ac_apply (EvStart 300 ''c2'' None) ?st)"
    and "guard_generation \<lparr>guard_generation = 1, guard_checkpoint_id = ''c1''\<rparr> \<le> ac_next_checkpoint_generation ?st"
    by code_simp+
  from stale_guard_is_harmless [OF this] show ?thesis unfolding Let_def by blast
qed

end
