(* ===== verification/Operation_Event.thy ===== *)
theory Operation_Event
  imports Enforcement
begin

text \<open>
  Operations and events: the data and the validation of
  \<open>crates/pvisor-core/src/operation.rs\<close> and \<open>crates/pvisor-core/src/event.rs\<close>. A
  validation error is its message. JSON values are a type parameter, and the size check of an
  event takes the serialiser as an argument. Paths are byte strings.
\<close>

section \<open>Operations\<close>

datatype snapshot_ram_storage = RamRaw | RamCompressed

record execution_checkpoint =
  ec_snapshot_id :: rstr
  ec_store :: rstr
  ec_source_run_id :: rstr
  ec_source_execution_id :: rstr
  ec_created_at_unix_ms :: u64
  ec_ram_storage :: snapshot_ram_storage

datatype vm_state = VmRunning | VmPaused | VmOffloaded

record vm_memory =
  vmm_backing_file :: rstr
  vmm_backed_bytes :: u64
  vmm_resident_before_bytes :: "u64 option"
  vmm_resident_after_bytes :: "u64 option"

datatype op_value =
    RunValue run_state "int option"
  | VmValue vm_state "vm_memory option"
  | CheckpointValue execution_checkpoint

datatype 'j failure =
    FailureFailed rstr rstr 'j
  | FailureDenied rstr
  | FailureUnsupported rstr
  | FailureUnknown rstr 'j

datatype 'j outcome = Success op_value | OutcomeError "'j failure"

record binding =
  bind_backend :: rstr
  bind_resource :: rstr
  bind_generation :: u64
  bind_contract :: u16

record op_context =
  ctx_revision :: u64
  ctx_principal :: rstr
  ctx_scope :: "rstr list"
  ctx_policy :: rstr
  ctx_bindings :: "(rstr \<times> binding) list"

datatype placement = PlaceVm rstr | PlaceOverlay rstr

record operation_decision =
  od_id :: rstr
  od_dimension :: capability_dimension
  od_target :: rstr
  od_action :: rstr
  od_enforcement_plan :: enforcement_plan

datatype operation_kind =
    RunPause
  | RunResume
  | RunOffload "rstr option"
  | RunCheckpoint rstr snapshot_ram_storage
  | RunSuspend rstr snapshot_ram_storage
  | RunExecute rstr "rstr list" "rstr option"

record operation =
  op_version :: u16
  op_context_of :: op_context
  op_run_id :: rstr
  op_kind :: operation_kind
  op_placements :: "placement list"
  op_rules :: "operation_decision list"

definition operation_version :: u16 where "operation_version = 1"

text \<open>\<open>!id.trim().is_empty() && id.len() <= 256\<close>\<close>

definition named :: "rstr \<Rightarrow> bool" where
  "named s \<longleftrightarrow> trim s \<noteq> [] \<and> int (length s) \<le> 256"

definition is_absolute :: "rstr \<Rightarrow> bool" where
  "is_absolute path = starts_with path ''/''"

text \<open>\<open>Path::file_name\<close>: the last component, when it is a normal one.\<close>

definition has_file_name :: "rstr \<Rightarrow> bool" where
  "has_file_name path =
     (let comps = filter (\<lambda>c. c \<noteq> [] \<and> c \<noteq> ''.'') (split_on CHR ''/'' path)
      in comps \<noteq> [] \<and> last comps \<noteq> ''..'')"

definition checkpoint_validate :: "execution_checkpoint \<Rightarrow> rstr + unit" where
  "checkpoint_validate c =
     bind_res
       (ensure (length (ec_snapshot_id c) = 64
                \<and> list_all (\<lambda>b. is_ascii_digit b \<or> (97 \<le> (of_char b :: nat) \<and> (of_char b :: nat) \<le> 102)) (ec_snapshot_id c))
          ''invalid execution checkpoint identity'') (\<lambda>_.
     ensure (is_absolute (ec_store c) \<and> int (length (ec_store c)) \<le> 4096
             \<and> named (ec_source_run_id c) \<and> named (ec_source_execution_id c)
             \<and> 0 < ec_created_at_unix_ms c)
       ''incomplete execution checkpoint binding'')"

fun outcome_validate :: "'j outcome \<Rightarrow> rstr + unit" where
  "outcome_validate (Success (CheckpointValue checkpoint)) = checkpoint_validate checkpoint"
| "outcome_validate (Success (RunValue state _)) =
     ensure (run_is_terminal state) ''run result requires a terminal state''"
| "outcome_validate (Success (VmValue state memory)) =
     bind_res
       (ensure ((state = VmOffloaded) = (memory \<noteq> None))
          ''offloaded VM requires a RAM report; pause/resume must not carry one'') (\<lambda>_.
     case memory of
       None \<Rightarrow> Inr ()
     | Some m \<Rightarrow> ensure (is_absolute (vmm_backing_file m) \<and> 0 < vmm_backed_bytes m)
                   ''invalid live RAM report'')"
| "outcome_validate (OutcomeError _) = Inr ()"

definition scope_ok :: "rstr list \<Rightarrow> bool" where
  "scope_ok scope \<longleftrightarrow> scope \<noteq> [] \<and> length scope \<le> 16 \<and> list_all named scope"

definition binding_validate :: "rstr \<times> binding \<Rightarrow> rstr + unit" where
  "binding_validate nb =
     ensure (fst nb \<noteq> [] \<and> bind_backend (snd nb) \<noteq> [] \<and> bind_resource (snd nb) \<noteq> []
             \<and> bind_contract (snd nb) = 1)
       ''invalid resource binding''"

definition context_validate :: "op_context \<Rightarrow> rstr + unit" where
  "context_validate c =
     bind_res
       (ensure (trim (ctx_principal c) \<noteq> [] \<and> trim (ctx_policy c) \<noteq> [])
          ''context requires principal and policy'') (\<lambda>_.
     bind_res (ensure (scope_ok (ctx_scope c)) ''invalid scope'') (\<lambda>_.
     all_res binding_validate (ctx_bindings c)))"

fun kind_name :: "operation_kind \<Rightarrow> rstr" where
  "kind_name (RunExecute _ _ _) = ''run.execute''"
| "kind_name RunPause = ''run.pause''"
| "kind_name RunResume = ''run.resume''"
| "kind_name (RunOffload _) = ''run.offload''"
| "kind_name (RunCheckpoint _ _) = ''run.checkpoint''"
| "kind_name (RunSuspend _ _) = ''run.suspend''"

fun kind_validate :: "operation_kind \<Rightarrow> rstr + unit" where
  "kind_validate (RunCheckpoint request_id _) =
     ensure (named request_id) ''checkpoint request id must contain 1..256 bytes''"
| "kind_validate (RunSuspend request_id _) =
     ensure (named request_id) ''checkpoint request id must contain 1..256 bytes''"
| "kind_validate (RunExecute program _ _) = ensure (trim program \<noteq> []) ''empty operation program''"
| "kind_validate (RunOffload (Some file)) =
     ensure (file \<noteq> [] \<and> int (length file) \<le> 4096 \<and> has_file_name file) ''invalid RAM backing path''"
| "kind_validate _ = Inr ()"

definition symbol_char :: "char \<Rightarrow> bool" where
  "symbol_char b \<longleftrightarrow> is_ascii_alphanumeric b \<or> b \<in> set ''_.-''"

definition symbol :: "rstr \<Rightarrow> rstr + unit" where
  "symbol name =
     ensure (name \<noteq> [] \<and> int (length name) \<le> 128 \<and> list_all symbol_char name) ''invalid symbol''"

fun placement_name :: "placement \<Rightarrow> rstr" where
  "placement_name (PlaceVm name) = name"
| "placement_name (PlaceOverlay name) = name"

fun rules_validate :: "rstr list \<Rightarrow> operation_decision list \<Rightarrow> rstr + unit" where
  "rules_validate ids [] = Inr ()"
| "rules_validate ids (rule # rules) =
     bind_res (symbol (od_id rule)) (\<lambda>_.
     bind_res (ensure (od_id rule \<notin> set ids) ''duplicate Operation rule'') (\<lambda>_.
     bind_res (ensure (od_target rule \<noteq> [] \<and> od_action rule \<noteq> []) ''empty Operation rule'') (\<lambda>_.
     rules_validate (od_id rule # ids) rules)))"

definition operation_validate :: "operation \<Rightarrow> rstr + unit" where
  "operation_validate p =
     bind_res (ensure (op_version p = operation_version) ''unsupported Operation version'') (\<lambda>_.
     bind_res (ensure (op_run_id p \<noteq> []) ''empty Run identity'') (\<lambda>_.
     bind_res (kind_validate (op_kind p)) (\<lambda>_.
     bind_res (context_validate (op_context_of p)) (\<lambda>_.
     bind_res (ensure (length (op_placements p) \<le> 32) ''too many placements'') (\<lambda>_.
     bind_res (all_res (\<lambda>pl. ensure (trim (placement_name pl) \<noteq> []) ''empty placement name'') (op_placements p)) (\<lambda>_.
     bind_res (ensure (int (length (op_rules p)) \<le> 1024) ''too many Operation rules'') (\<lambda>_.
     rules_validate [] (op_rules p))))))))"

section \<open>Observations\<close>

record rule_counters =
  rc_allowed :: "u64 option"
  rc_succeeded :: "u64 option"
  rc_denied :: "u64 option"
  rc_failed :: "u64 option"
  rc_effects :: "u64 option"
  rc_uncertain_effects :: "u64 option"
  rc_bytes_read :: "u64 option"
  rc_bytes_written :: "u64 option"

record path_operation_counters =
  pc_hits :: u64
  pc_allowed :: u64
  pc_succeeded :: u64
  pc_denied :: u64
  pc_failed :: u64
  pc_effects :: u64
  pc_uncertain_effects :: u64
  pc_bytes_read :: u64
  pc_bytes_written :: u64

record filesystem_observation =
  fo_paths :: "(rstr \<times> (rstr \<times> path_operation_counters) list) list"
  fo_rules :: "(rstr \<times> path_operation_counters) list"
  fo_overflow_hits :: u64

record 'j operation_observation =
  oo_outcome :: "'j outcome"
  oo_rules :: "(rstr \<times> rule_counters) list"
  oo_filesystem :: "filesystem_observation option"

fun outcome_matches :: "operation_kind \<Rightarrow> op_value \<Rightarrow> bool" where
  "outcome_matches (RunExecute _ _ _) (RunValue _ _) = True"
| "outcome_matches (RunCheckpoint _ _) (CheckpointValue _) = True"
| "outcome_matches (RunSuspend _ _) (CheckpointValue _) = True"
| "outcome_matches RunPause (VmValue VmPaused _) = True"
| "outcome_matches RunResume (VmValue VmRunning _) = True"
| "outcome_matches (RunOffload _) (VmValue VmOffloaded _) = True"
| "outcome_matches _ _ = False"

fun kind_ram_storage :: "operation_kind \<Rightarrow> snapshot_ram_storage option" where
  "kind_ram_storage (RunCheckpoint _ s) = Some s"
| "kind_ram_storage (RunSuspend _ s) = Some s"
| "kind_ram_storage _ = None"

definition success_validate :: "operation \<Rightarrow> op_value \<Rightarrow> rstr + unit" where
  "success_validate plan value =
     bind_res (ensure (outcome_matches (op_kind plan) value) ''outcome does not match operation primitive'') (\<lambda>_.
     case value of
       CheckpointValue checkpoint \<Rightarrow>
         bind_res (ensure (ec_source_run_id checkpoint = op_run_id plan) ''checkpoint belongs to another Run'') (\<lambda>_.
         case kind_ram_storage (op_kind plan) of
           Some s \<Rightarrow> ensure (ec_ram_storage checkpoint = s) ''checkpoint RAM encoding mismatch''
         | None \<Rightarrow> Inr ())
     | _ \<Rightarrow> Inr ())"

definition counters_validate :: "path_operation_counters \<Rightarrow> rstr + unit" where
  "counters_validate c =
     bind_res (ensure (saturating_add (pc_allowed c) (pc_denied c) = pc_hits c)
                 ''filesystem hit counts do not reconcile'') (\<lambda>_.
     bind_res (ensure (saturating_add (pc_succeeded c) (pc_failed c) = pc_allowed c)
                 ''filesystem outcomes do not reconcile'') (\<lambda>_.
     ensure (pc_effects c \<le> pc_succeeded c \<and> pc_uncertain_effects c \<le> pc_failed c)
       ''filesystem effect counts exceed outcomes''))"

definition filesystem_validate :: "rstr list \<Rightarrow> filesystem_observation \<Rightarrow> rstr + unit" where
  "filesystem_validate ids f =
     bind_res (ensure (int (length (fo_paths f)) \<le> 8192) ''too many observed paths'') (\<lambda>_.
     bind_res (ensure (list_all (\<lambda>kv. fst kv \<in> set ids) (fo_rules f))
                 ''filesystem observation references an unknown rule'') (\<lambda>_.
     all_res counters_validate (concat (map (map snd \<circ> snd) (fo_paths f)) @ map snd (fo_rules f))))"

definition observation_validate :: "'j operation_observation \<Rightarrow> operation \<Rightarrow> rstr + unit" where
  "observation_validate ob plan =
     bind_res (operation_validate plan) (\<lambda>_.
     bind_res (outcome_validate (oo_outcome ob)) (\<lambda>_.
     bind_res (case oo_outcome ob of Success value \<Rightarrow> success_validate plan value | OutcomeError _ \<Rightarrow> Inr ()) (\<lambda>_.
     let ids = remdups (map od_id (op_rules plan)) in
     bind_res (ensure (list_all (\<lambda>kv. fst kv \<in> set ids) (oo_rules ob)) ''observation references an unknown rule'') (\<lambda>_.
     bind_res (ensure (length (oo_rules ob) = length ids) ''observation omits a Operation rule'') (\<lambda>_.
     case oo_filesystem ob of None \<Rightarrow> Inr () | Some f \<Rightarrow> filesystem_validate ids f)))))"

section \<open>Events\<close>

datatype event_level = LevelTrace | LevelDebug | LevelInfo | LevelWarn | LevelError

datatype granularity = Milestone | GranularityOperation | Detail

datatype origin = OriginBackend | OriginPolicy | OriginReplay | OriginRuntime

datatype 'j fact =
    FactContext op_context
  | FactRequested operation
  | FactRewritten operation operation
  | FactPlaced operation
  | FactDispatched rstr rstr
  | FactCompleted rstr "'j outcome" origin
  | FactObservation rstr rstr u16 'j

record 'j event =
  ev_version :: u16
  ev_id :: rstr
  ev_trace_id :: rstr
  ev_producer :: rstr
  ev_observed_at_unix_ms :: u64
  ev_scope :: "rstr list"
  ev_context :: "rstr option"
  ev_operation :: "rstr option"
  ev_caused_by :: "rstr list"
  ev_level :: event_level
  ev_granularity :: granularity
  ev_data :: "'j fact"

definition event_version :: u16 where "event_version = 5"

definition max_event_bytes :: int where "max_event_bytes = 1024 * 1024"

fun fact_domain :: "'j fact \<Rightarrow> rstr" where
  "fact_domain (FactObservation domain _ _ _) = domain"
| "fact_domain (FactContext _) = ''execution''"
| "fact_domain _ = ''run''"

fun fact_name :: "'j fact \<Rightarrow> rstr" where
  "fact_name (FactObservation _ name _ _) = name"
| "fact_name (FactContext _) = ''context''"
| "fact_name (FactRequested _) = ''requested''"
| "fact_name (FactRewritten _ _) = ''rewritten''"
| "fact_name (FactPlaced _) = ''placed''"
| "fact_name (FactDispatched _ _) = ''dispatched''"
| "fact_name (FactCompleted _ _ _) = ''completed''"

fun observation_payload :: "'j fact \<Rightarrow> 'j option" where
  "observation_payload (FactObservation _ _ _ payload) = Some payload"
| "observation_payload _ = None"

fun causes_validate :: "rstr \<Rightarrow> rstr list \<Rightarrow> rstr list \<Rightarrow> rstr + unit" where
  "causes_validate self seen [] = Inr ()"
| "causes_validate self seen (i # is) =
     bind_res (ensure (i \<noteq> [] \<and> int (length i) \<le> 256 \<and> i \<noteq> self \<and> i \<notin> set seen) ''invalid causal reference'')
       (\<lambda>_. causes_validate self (i # seen) is)"

fun fact_validate :: "'j event \<Rightarrow> 'j fact \<Rightarrow> rstr + unit" where
  "fact_validate e (FactContext definition) =
     bind_res (context_validate definition) (\<lambda>_.
     ensure (ev_context e \<noteq> None \<and> ev_operation e = None \<and> ev_scope e = ctx_scope definition)
       ''invalid context fact'')"
| "fact_validate e (FactRequested op) = operation_validate op"
| "fact_validate e (FactPlaced op) = operation_validate op"
| "fact_validate e (FactRewritten before after) =
     bind_res (operation_validate before) (\<lambda>_.
     bind_res (operation_validate after) (\<lambda>_.
     bind_res (ensure (op_run_id before = op_run_id after
                       \<and> kind_name (op_kind before) = kind_name (op_kind after))
                 ''rewrite changes operation identity or kind'') (\<lambda>_.
     ensure (op_placements before = op_placements after) ''rewrite changes placement'')))"
| "fact_validate e (FactDispatched backend run_id) =
     bind_res (ensure (trim backend \<noteq> []) ''invalid backend'') (\<lambda>_.
     ensure (run_id \<noteq> []) ''empty Run identity'')"
| "fact_validate e (FactCompleted run_id outcome _) =
     bind_res (ensure (run_id \<noteq> []) ''empty Run identity'') (\<lambda>_. outcome_validate outcome)"
| "fact_validate e (FactObservation domain name version _) =
     bind_res (symbol domain) (\<lambda>_.
     bind_res (symbol name) (\<lambda>_.
     ensure (0 < version) ''invalid observation version''))"

fun needs_operation :: "'j fact \<Rightarrow> bool" where
  "needs_operation (FactContext _) = False"
| "needs_operation (FactObservation _ _ _ _) = False"
| "needs_operation _ = True"

definition event_validate :: "('j event \<Rightarrow> rstr option) \<Rightarrow> 'j event \<Rightarrow> rstr + unit" where
  "event_validate to_json e =
     bind_res (ensure (ev_version e = event_version) ''unsupported trace event version'') (\<lambda>_.
     bind_res (all_res (\<lambda>i. ensure (named i) ''invalid event identity'') [ev_id e, ev_trace_id e, ev_producer e]) (\<lambda>_.
     bind_res (ensure (scope_ok (ev_scope e)) ''invalid event scope'') (\<lambda>_.
     bind_res (ensure (length (ev_caused_by e) \<le> 64) ''too many causal references'') (\<lambda>_.
     bind_res (causes_validate (ev_id e) [] (ev_caused_by e)) (\<lambda>_.
     bind_res (all_res (\<lambda>i. ensure (i \<noteq> [] \<and> int (length i) \<le> 256) ''invalid execution reference'')
                 (case_option [] (\<lambda>i. [i]) (ev_context e) @ case_option [] (\<lambda>i. [i]) (ev_operation e))) (\<lambda>_.
     bind_res (fact_validate e (ev_data e)) (\<lambda>_.
     bind_res (ensure (\<not> needs_operation (ev_data e) \<or> (ev_operation e \<noteq> None \<and> ev_context e \<noteq> None))
                 ''operation fact requires operation and context'') (\<lambda>_.
     case to_json e of
       None \<Rightarrow> Inl ''serialization failed''
     | Some bytes \<Rightarrow> ensure (int (length bytes) \<le> max_event_bytes) ''event exceeds size limit''))))))))"

record position =
  pos_journal :: rstr
  pos_offset :: u64

datatype durability = Volatile | LocalSync

record receipt =
  rcpt_event :: rstr
  rcpt_position :: position
  rcpt_durability :: durability

record 'j record_entry =
  rec_position :: position
  rec_event :: "'j event"

section \<open>What validation establishes\<close>

lemma causes_validate_Inr:
  "causes_validate self seen is = Inr u \<longleftrightarrow>
     distinct is \<and> set is \<inter> set seen = {} \<and> self \<notin> set is
     \<and> list_all (\<lambda>i. i \<noteq> [] \<and> int (length i) \<le> 256) is"
  by (induction "is" arbitrary: seen) (auto simp: res_simps)

lemma rules_validate_Inr:
  "rules_validate ids rules = Inr u \<Longrightarrow>
     distinct (map od_id rules) \<and> set (map od_id rules) \<inter> set ids = {}
     \<and> list_all (\<lambda>r. symbol (od_id r) = Inr () \<and> od_target r \<noteq> [] \<and> od_action r \<noteq> []) rules"
proof (induction rules arbitrary: ids)
  case (Cons r rules)
  then have r: "symbol (od_id r) = Inr ()" "od_id r \<notin> set ids" "od_target r \<noteq> []" "od_action r \<noteq> []"
    "rules_validate (od_id r # ids) rules = Inr u"
    by (auto simp: res_simps)
  then show ?case using Cons.IH [OF r(5)] by auto
qed simp

lemma event_validate_causes:
  "event_validate to_json e = Inr u \<Longrightarrow>
     distinct (ev_caused_by e) \<and> ev_id e \<notin> set (ev_caused_by e) \<and> length (ev_caused_by e) \<le> 64"
  by (auto simp: event_validate_def res_simps causes_validate_Inr)

text \<open>What the counters of one kind of access promise, read as numbers: additions stop at the largest counter.\<close>

definition reconciled :: "path_operation_counters \<Rightarrow> bool" where
  "reconciled c \<longleftrightarrow>
     unat (pc_hits c) = min (unat (pc_allowed c) + unat (pc_denied c)) (2 ^ 64 - 1)
     \<and> unat (pc_allowed c) = min (unat (pc_succeeded c) + unat (pc_failed c)) (2 ^ 64 - 1)
     \<and> pc_effects c \<le> pc_succeeded c \<and> pc_uncertain_effects c \<le> pc_failed c"

lemma counters_validate_iff: "counters_validate c = Inr u \<longleftrightarrow> reconciled c"
proof -
  have "saturating_add a b = h \<longleftrightarrow> unat h = min (unat a + unat b) (2 ^ 64 - 1)" for a b h :: u64
    using unat_saturating_add [of a b] by (auto simp: word_unat_eq_iff)
  then show ?thesis by (auto simp: counters_validate_def reconciled_def res_simps)
qed

lemma success_validate_iff:
  "success_validate plan v = Inr u \<longleftrightarrow> outcome_matches (op_kind plan) v
     \<and> (\<forall>c. v = CheckpointValue c \<longrightarrow>
          ec_source_run_id c = op_run_id plan \<and> kind_ram_storage (op_kind plan) = Some (ec_ram_storage c))"
  by (cases v; cases "op_kind plan") (auto simp: success_validate_def res_simps)

text \<open>As many distinct known keys as there are rules are the keys of all rules.\<close>

lemma keys_counted:
  assumes "distinct xs" "distinct ids"
  shows "set xs \<subseteq> set ids \<and> length xs = length ids \<longleftrightarrow> set xs = set ids"
  using assms by (metis List.finite_set card_subset_eq distinct_card order_refl)

lemma plan_ids_distinct: "operation_validate plan = Inr () \<Longrightarrow> distinct (map od_id (op_rules plan))"
  using rules_validate_Inr by (fastforce simp: operation_validate_def res_simps)

section \<open>Properties\<close>


definition ex_operation :: operation where
  "ex_operation =
     \<lparr>op_version = 1,
      op_context_of = \<lparr>ctx_revision = 1, ctx_principal = ''agent'', ctx_scope = [''run''],
                       ctx_policy = ''default'', ctx_bindings = []\<rparr>,
      op_run_id = ''r1'', op_kind = RunPause, op_placements = [],
      op_rules = [\<lparr>od_id = ''fs.deny.0'', od_dimension = DimFilesystemRead, od_target = ''secret'',
                   od_action = ''deny'',
                   od_enforcement_plan = \<lparr>ep_level = PlanPlanned, ep_mechanisms = []\<rparr>\<rparr>]\<rparr>"

definition ex_counters :: path_operation_counters where
  "ex_counters = \<lparr>pc_hits = 9, pc_allowed = 6, pc_succeeded = 4, pc_denied = 3, pc_failed = 2, pc_effects = 4,
     pc_uncertain_effects = 1, pc_bytes_read = 0, pc_bytes_written = 12\<rparr>"

definition ex_observation :: "unit operation_observation" where
  "ex_observation =
     \<lparr>oo_outcome = Success (VmValue VmPaused None),
      oo_rules = [(''fs.deny.0'', \<lparr>rc_allowed = None, rc_succeeded = None, rc_denied = Some 2,
                     rc_failed = None, rc_effects = None, rc_uncertain_effects = None,
                     rc_bytes_read = None, rc_bytes_written = None\<rparr>)],
      oo_filesystem = Some \<lparr>fo_paths = [(''/work'', [(''write'', ex_counters)])],
                            fo_rules = [(''fs.deny.0'', ex_counters)], fo_overflow_hits = 0\<rparr>\<rparr>"


end
