(* ===== verification/Causality.thy ===== *)
theory Causality
  imports Prelude "HOL-Library.AList" "HOL-Library.List_Lexorder" "HOL-Library.Char_ord"
begin

text \<open>
  The causal graph of a trace (\<open>crates/pvisor-journal/src/journal.rs\<close>): the search that
  \<open>append\<close> runs before it commits an event some earlier record already refers to, and the
  iterative depth-first search \<open>validate_causality\<close> that a scan runs over the whole file.

  A \<open>BTreeMap<String, Vec<String>>\<close> is an association list with distinct keys, visited in
  sorted order. A \<open>Vec\<close> used as a stack is a list whose head is the top, so pushing a slice
  prepends its reverse. Both searches are total: their termination proofs count the
  identifiers not yet met. Both are shown to decide acyclicity.
\<close>

type_synonym causes = "(rstr \<times> rstr list) list"

definition causal :: "causes \<Rightarrow> (rstr \<times> rstr) set" where
  "causal g = {(a, b). \<exists>es. map_of g a = Some es \<and> b \<in> set es}"

section \<open>The search of an append\<close>

function (sequential) reaches_event :: "rstr \<Rightarrow> causes \<Rightarrow> rstr list \<Rightarrow> rstr list \<Rightarrow> bool" where
  "reaches_event target g [] visited = False"
| "reaches_event target g (i # pending) visited =
     (if i = target then True
      else if i \<in> set visited then reaches_event target g pending visited
      else (case map_of g i of
              Some edges \<Rightarrow> reaches_event target g (rev edges @ pending) (i # visited)
            | None \<Rightarrow> reaches_event target g pending (i # visited)))"
  by pat_completeness auto
termination
proof (relation "measures [\<lambda>(_, g, _, visited). card (dom (map_of g) - set visited),
                           \<lambda>(_, _, pending, _). length pending]")
  fix target i :: rstr and g :: causes and pending visited edges :: "rstr list"
  assume "i \<notin> set visited" "map_of g i = Some edges"
  then have "dom (map_of g) - set (i # visited) \<subset> dom (map_of g) - set visited" by auto
  then have "card (dom (map_of g) - set (i # visited)) < card (dom (map_of g) - set visited)"
    by (intro psubset_card_mono) (simp_all add: finite_dom_map_of)
  then show "((target, g, rev edges @ pending, i # visited), target, g, i # pending, visited)
               \<in> measures [\<lambda>(_, g, _, visited). card (dom (map_of g) - set visited),
                            \<lambda>(_, _, pending, _). length pending]"
    by simp
next
  fix target i :: rstr and g :: causes and pending visited :: "rstr list"
  assume "map_of g i = None"
  then have "dom (map_of g) - set (i # visited) = dom (map_of g) - set visited" by auto
  then show "((target, g, pending, i # visited), target, g, i # pending, visited)
               \<in> measures [\<lambda>(_, g, _, visited). card (dom (map_of g) - set visited),
                            \<lambda>(_, _, pending, _). length pending]"
    by simp
qed auto

lemma reaches_event_sound:
  "reaches_event t g pending visited \<Longrightarrow> \<exists>p \<in> set pending. (p, t) \<in> (causal g)\<^sup>*"
proof (induction t g pending visited rule: reaches_event.induct)
  case (2 t g i pending visited)
  show ?case
  proof (cases "i = t \<or> i \<in> set visited \<or> map_of g i = None")
    case True
    then show ?thesis using 2 by (auto split: if_splits option.splits)
  next
    case False
    then obtain edges where edges: "map_of g i = Some edges" by blast
    with False 2(3, 4) obtain p where "p \<in> set edges \<union> set pending" "(p, t) \<in> (causal g)\<^sup>*"
      by auto
    moreover have "(i, p) \<in> causal g" if "p \<in> set edges" using edges that by (auto simp: causal_def)
    ultimately show ?thesis by (auto intro: converse_rtrancl_into_rtrancl)
  qed
qed simp

lemma reaches_event_complete:
  "\<lbrakk> \<not> reaches_event t g pending visited; t \<notin> set visited;
     causal g `` set visited \<subseteq> set visited \<union> set pending \<rbrakk>
   \<Longrightarrow> \<exists>V. set visited \<union> set pending \<subseteq> V \<and> t \<notin> V \<and> causal g `` V \<subseteq> V"
proof (induction t g pending visited rule: reaches_event.induct)
  case (1 t g visited)
  then show ?case by (intro exI [of _ "set visited"]) auto
next
  case (2 t g i pending visited)
  have "i \<noteq> t" using 2(4) by auto
  have succ: "causal g `` {i} = (case map_of g i of None \<Rightarrow> {} | Some es \<Rightarrow> set es)"
    by (auto simp: causal_def split: option.splits)
  have split: "causal g `` set (i # visited) = causal g `` {i} \<union> causal g `` set visited" by auto
  show ?case
  proof (cases "i \<in> set visited")
    case True
    then have "set visited \<union> set (i # pending) = set visited \<union> set pending" by auto
    then show ?thesis using 2(1) [OF \<open>i \<noteq> t\<close> True] 2(4-6) True \<open>i \<noteq> t\<close> by simp
  next
    case False
    show ?thesis
    proof (cases "map_of g i")
      case None
      have "set (i # visited) \<union> set pending = set visited \<union> set (i # pending)" by auto
      then show ?thesis
        using 2(2) [OF \<open>i \<noteq> t\<close> False None] 2(4-6) False \<open>i \<noteq> t\<close> None succ split by simp
    next
      case (Some es)
      have "\<exists>V. set (i # visited) \<union> set (rev es @ pending) \<subseteq> V \<and> t \<notin> V \<and> causal g `` V \<subseteq> V"
      proof (rule 2(3) [OF \<open>i \<noteq> t\<close> False Some])
        show "\<not> reaches_event t g (rev es @ pending) (i # visited)" "t \<notin> set (i # visited)"
          using 2(4, 5) False \<open>i \<noteq> t\<close> Some by simp_all
        show "causal g `` set (i # visited) \<subseteq> set (i # visited) \<union> set (rev es @ pending)"
          using 2(6) unfolding split succ Some by auto
      qed
      then show ?thesis by auto
    qed
  qed
qed

lemma Image_closed_rtrancl: "R `` V \<subseteq> V \<Longrightarrow> (x, y) \<in> R\<^sup>* \<Longrightarrow> x \<in> V \<Longrightarrow> y \<in> V"
  by (metis Image_closed_trancl ImageI)

lemma reaches_event_iff:
  "reaches_event t g pending [] \<longleftrightarrow> (\<exists>p \<in> set pending. (p, t) \<in> (causal g)\<^sup>*)"
proof
  assume "\<exists>p \<in> set pending. (p, t) \<in> (causal g)\<^sup>*"
  then obtain p where p: "p \<in> set pending" "(p, t) \<in> (causal g)\<^sup>*" by blast
  show "reaches_event t g pending []"
  proof (rule ccontr)
    assume "\<not> reaches_event t g pending []"
    then obtain V where V: "set pending \<subseteq> V" "t \<notin> V" "causal g `` V \<subseteq> V"
      using reaches_event_complete [of t g pending "[]"] by auto
    then show False using Image_closed_rtrancl [OF V(3) p(2)] p(1) by blast
  qed
qed (rule reaches_event_sound)

text \<open>A new node closes a cycle exactly when one of its causes leads back to it.\<close>

lemma rtrancl_from_target:
  "(s, x) \<in> (R \<union> {x} \<times> S)\<^sup>* \<longleftrightarrow> (s, x) \<in> R\<^sup>*"
proof
  assume "(s, x) \<in> (R \<union> {x} \<times> S)\<^sup>*"
  then show "(s, x) \<in> R\<^sup>*"
    by (induction rule: converse_rtrancl_induct) (auto intro: converse_rtrancl_into_rtrancl)
qed (meson in_rtrancl_UnI)

lemma acyclic_add_node:
  "finite S \<Longrightarrow> acyclic (R \<union> {x} \<times> S) \<longleftrightarrow> acyclic R \<and> (\<forall>s \<in> S. (s, x) \<notin> R\<^sup>*)"
proof (induction S rule: finite_induct)
  case (insert s S)
  have "R \<union> {x} \<times> insert s S = insert (x, s) (R \<union> {x} \<times> S)" by auto
  then show ?case using insert by (simp add: acyclic_insert rtrancl_from_target conj_ac)
qed simp

lemma causal_update:
  "map_of g i = None \<Longrightarrow> causal (AList.update i es g) = causal g \<union> {i} \<times> set es"
  by (auto simp: causal_def update_conv split: if_splits)

lemma acyclic_update:
  "map_of g i = None \<Longrightarrow>
     acyclic (causal (AList.update i es g)) \<longleftrightarrow> acyclic (causal g) \<and> \<not> reaches_event i g es []"
  by (simp add: causal_update acyclic_add_node reaches_event_iff)

section \<open>Validation of a whole graph\<close>

text \<open>Colour 1 is on the path, 2 is finished; a stack entry is an identifier and whether it is an exit marker.\<close>

definition known_edges :: "causes \<Rightarrow> rstr \<Rightarrow> rstr list" where
  "known_edges g i =
     (case map_of g i of None \<Rightarrow> [] | Some edges \<Rightarrow> filter (\<lambda>e. map_of g e \<noteq> None) edges)"

definition coloured :: "(rstr \<Rightarrow> nat option) \<Rightarrow> rstr set" where
  "coloured colors = {x. colors x = Some 1 \<or> colors x = Some 2}"

function (sequential) causality_dfs ::
  "causes \<Rightarrow> (rstr \<times> bool) list \<Rightarrow> (rstr \<rightharpoonup> nat) \<Rightarrow> rstr + (rstr \<rightharpoonup> nat)" where
  "causality_dfs g [] colors = Inr colors"
| "causality_dfs g ((i, exiting) # stack) colors =
     (if exiting then causality_dfs g stack (colors(i \<mapsto> 2))
      else if colors i = Some 1 then Inl (''causal cycle at '' @ i)
      else if colors i = Some 2 then causality_dfs g stack colors
      else causality_dfs g (rev (map (\<lambda>e. (e, False)) (known_edges g i)) @ (i, True) # stack)
             (colors(i \<mapsto> 1)))"
  by pat_completeness auto

abbreviation dfs_measures :: "((causes \<times> (rstr \<times> bool) list \<times> (rstr \<Rightarrow> nat option))
     \<times> causes \<times> (rstr \<times> bool) list \<times> (rstr \<Rightarrow> nat option)) set" where
  "dfs_measures \<equiv>
     measures [\<lambda>(g, _, colors). card (dom (map_of g) - coloured colors),
               \<lambda>(_, stack, _). sum_list (map (\<lambda>(_, exiting). if exiting then 1 else 2) stack)]"

lemma uncoloured_mono:
  "coloured c \<subseteq> coloured c' \<Longrightarrow> card (dom (map_of g) - coloured c') \<le> card (dom (map_of g) - coloured c)"
  by (intro card_mono) (auto simp: finite_dom_map_of)

lemma uncoloured_less:
  assumes "i \<in> dom (map_of g)" "i \<notin> coloured c"
  shows "card (dom (map_of g) - coloured (c(i \<mapsto> 1))) < card (dom (map_of g) - coloured c)"
proof (rule psubset_card_mono)
  show "dom (map_of g) - coloured (c(i \<mapsto> 1)) \<subset> dom (map_of g) - coloured c"
    using assms by (auto simp: coloured_def split: if_splits)
qed (simp add: finite_dom_map_of)

termination causality_dfs
proof (relation dfs_measures)
  fix g :: causes and i exiting stack and colors :: "rstr \<Rightarrow> nat option"
  assume exiting
  have "card (dom (map_of g) - coloured (colors(i \<mapsto> 2))) \<le> card (dom (map_of g) - coloured colors)"
    by (rule uncoloured_mono) (auto simp: coloured_def)
  then show "((g, stack, colors(i \<mapsto> 2)), g, (i, exiting) # stack, colors) \<in> dfs_measures"
    using \<open>exiting\<close> by auto
next
  fix g :: causes and i exiting stack and colors :: "rstr \<Rightarrow> nat option"
  assume "\<not> exiting" "colors i \<noteq> Some 1" "colors i \<noteq> Some 2"
  then have new: "i \<notin> coloured colors" by (simp add: coloured_def)
  show "((g, rev (map (\<lambda>e. (e, False)) (known_edges g i)) @ (i, True) # stack, colors(i \<mapsto> 1)),
           g, (i, exiting) # stack, colors) \<in> dfs_measures"
  proof (cases "i \<in> dom (map_of g)")
    case True
    then show ?thesis using uncoloured_less [OF True new] by simp
  next
    case False
    have "card (dom (map_of g) - coloured (colors(i \<mapsto> 1))) \<le> card (dom (map_of g) - coloured colors)"
      by (rule uncoloured_mono) (use new in \<open>auto simp: coloured_def\<close>)
    moreover have "known_edges g i = []" using False by (simp add: known_edges_def domIff)
    ultimately show ?thesis using \<open>\<not> exiting\<close> by auto
  qed
qed auto

fun causality_all :: "causes \<Rightarrow> rstr list \<Rightarrow> (rstr \<rightharpoonup> nat) \<Rightarrow> rstr + unit" where
  "causality_all g [] colors = Inr ()"
| "causality_all g (start # starts) colors =
     bind_res (causality_dfs g [(start, False)] colors) (causality_all g starts)"

definition validate_causality :: "causes \<Rightarrow> rstr + unit" where
  "validate_causality g = causality_all g (sort (map fst g)) Map.empty"

section \<open>The validation decides acyclicity\<close>

definition known :: "causes \<Rightarrow> (rstr \<times> rstr) set" where
  "known g = {(a, b). b \<in> set (known_edges g a)}"

lemma known_iff: "(a, b) \<in> known g \<longleftrightarrow> (a, b) \<in> causal g \<and> b \<in> dom (map_of g)"
  by (cases "map_of g a") (auto simp: known_def known_edges_def causal_def)

lemma causal_source: "(a, b) \<in> causal g \<Longrightarrow> a \<in> dom (map_of g)"
  by (auto simp: causal_def)

lemma known_trancl: "(a, b) \<in> (causal g)\<^sup>+ \<Longrightarrow> b \<in> dom (map_of g) \<Longrightarrow> (a, b) \<in> (known g)\<^sup>+"
proof (induction rule: converse_trancl_induct)
  case (step a c)
  then have "c \<in> dom (map_of g)" by (meson causal_source tranclD)
  with step show ?case by (meson known_iff trancl_into_trancl2)
qed (simp add: known_iff r_into_trancl)

lemma acyclic_known: "acyclic (known g) \<longleftrightarrow> acyclic (causal g)"
proof
  assume "acyclic (known g)"
  then show "acyclic (causal g)"
    unfolding acyclic_def by (meson causal_source known_trancl tranclD)
next
  assume "acyclic (causal g)"
  then show "acyclic (known g)" by (rule acyclic_subset) (auto simp: known_iff)
qed

abbreviation markers :: "(rstr \<times> bool) list \<Rightarrow> rstr list" where
  "markers stack \<equiv> map fst (filter snd stack)"

definition finished :: "(rstr \<Rightarrow> nat option) \<Rightarrow> rstr set" where
  "finished colors = {x. colors x = Some 2}"

lemma finished_upd [simp]:
  "finished (colors(i \<mapsto> 2)) = insert i (finished colors)"
  "i \<notin> coloured colors \<Longrightarrow> finished (colors(i \<mapsto> 1)) = finished colors"
  "finished Map.empty = {}"
  by (auto simp: finished_def coloured_def)

text \<open>Every entry is a successor of the first exit marker below it.\<close>

fun linked :: "(rstr \<times> rstr) set \<Rightarrow> (rstr \<times> bool) list \<Rightarrow> bool" where
  "linked R [] = True"
| "linked R ((y, b) # stack) =
     ((case markers stack of [] \<Rightarrow> True | x # _ \<Rightarrow> (x, y) \<in> R) \<and> linked R stack)"

text \<open>The successors of an exit marker are finished or lie above it.\<close>

fun covered :: "(rstr \<times> rstr) set \<Rightarrow> rstr set \<Rightarrow> (rstr \<times> bool) list \<Rightarrow> bool" where
  "covered R D [] = True"
| "covered R D ((x, b) # stack) = ((b \<longrightarrow> R `` {x} \<subseteq> D) \<and> covered R (insert x D) stack)"

definition dfs_inv :: "causes \<Rightarrow> (rstr \<times> bool) list \<Rightarrow> (rstr \<rightharpoonup> nat) \<Rightarrow> bool" where
  "dfs_inv g stack colors \<longleftrightarrow>
     distinct (markers stack) \<and> set (markers stack) = {x. colors x = Some 1}
     \<and> linked (known g) stack \<and> covered (known g) (finished colors) stack
     \<and> known g `` finished colors \<subseteq> finished colors
     \<and> (\<forall>x \<in> finished colors. (x, x) \<notin> (known g)\<^sup>+)"

lemma covered_mono: "covered R D stack \<Longrightarrow> D \<subseteq> E \<Longrightarrow> covered R E stack"
proof (induction R D stack arbitrary: E rule: covered.induct)
  case (2 R D x b stack)
  then have "covered R (insert x E) stack" by (meson covered.simps(2) insert_mono)
  with 2 show ?case by auto
qed simp

lemma covered_push: "covered R D (map (\<lambda>e. (e, False)) es @ stack) = covered R (set es \<union> D) stack"
  by (induction es arbitrary: D) simp_all

lemma linked_push:
  "linked R (map (\<lambda>e. (e, False)) es @ stack) \<longleftrightarrow>
     linked R stack \<and> (\<forall>e \<in> set es. case markers stack of [] \<Rightarrow> True | x # _ \<Rightarrow> (x, e) \<in> R)"
proof (induction es)
  case (Cons e es)
  have "filter snd (map (\<lambda>e. (e, False)) es) = []" by (induction es) simp_all
  with Cons show ?case by auto
qed simp

lemma linked_path: "linked R ((y, b) # stack) \<Longrightarrow> x \<in> set (markers stack) \<Longrightarrow> (x, y) \<in> R\<^sup>+"
proof (induction stack arbitrary: y b)
  case (Cons e stack)
  obtain z c where e: "e = (z, c)" by (cases e)
  show ?case
  proof (cases c)
    case True
    then have "(z, y) \<in> R" "x = z \<or> (x, z) \<in> R\<^sup>+" using Cons e by auto
    then show ?thesis by (auto intro: trancl_into_trancl)
  next
    case False
    then have "linked R ((y, b) # stack)" using Cons.prems(1) e by simp
    then show ?thesis using Cons.IH Cons.prems(2) e False by simp
  qed
qed simp

lemma dfs_inv_exit: "dfs_inv g ((i, True) # stack) colors \<Longrightarrow> dfs_inv g stack (colors(i \<mapsto> 2))"
proof -
  assume inv: "dfs_inv g ((i, True) # stack) colors"
  let ?B = "finished colors"
  have grey: "colors i = Some 1" and succ: "known g `` {i} \<subseteq> ?B" and closed: "known g `` ?B \<subseteq> ?B"
    using inv by (auto simp: dfs_inv_def)
  have "(i, i) \<notin> (known g)\<^sup>+"
  proof
    assume "(i, i) \<in> (known g)\<^sup>+"
    then obtain s where "(i, s) \<in> known g" "(s, i) \<in> (known g)\<^sup>*" by (meson tranclD)
    then have "i \<in> ?B" using Image_closed_rtrancl [OF closed] succ by blast
    then show False using grey by (simp add: finished_def)
  qed
  moreover have "set (markers stack) = {x. (colors(i \<mapsto> 2)) x = Some 1}"
    using inv grey by (auto simp: dfs_inv_def)
  ultimately show ?thesis using inv succ closed unfolding dfs_inv_def finished_upd by auto
qed

lemma dfs_inv_skip:
  "dfs_inv g ((i, False) # stack) colors \<Longrightarrow> colors i = Some 2 \<Longrightarrow> dfs_inv g stack colors"
  by (auto simp: dfs_inv_def insert_absorb finished_def)

lemma dfs_inv_enter:
  assumes inv: "dfs_inv g ((i, False) # stack) colors" and new: "i \<notin> coloured colors"
  shows "dfs_inv g (rev (map (\<lambda>e. (e, False)) (known_edges g i)) @ (i, True) # stack) (colors(i \<mapsto> 1))"
proof -
  let ?es = "rev (known_edges g i)" and ?s = "(i, True) # stack"
  have none: "filter snd (map (\<lambda>e. (e, False)) ?es) = []" by (induction ?es) auto
  have "covered (known g) (insert i (set ?es \<union> finished colors)) stack"
    using inv by (auto simp: dfs_inv_def elim: covered_mono)
  then have "covered (known g) (finished colors) (map (\<lambda>e. (e, False)) ?es @ ?s)"
    unfolding covered_push by (auto simp: known_def)
  moreover have "linked (known g) (map (\<lambda>e. (e, False)) ?es @ ?s)"
    using inv unfolding linked_push by (auto simp: dfs_inv_def known_def)
  moreover have "markers (map (\<lambda>e. (e, False)) ?es @ ?s) = i # markers stack" by (simp add: none)
  moreover have "distinct (i # markers stack)" "set (i # markers stack) = {x. (colors(i \<mapsto> 1)) x = Some 1}"
    using inv new by (auto simp: dfs_inv_def coloured_def)
  ultimately show ?thesis
    using inv unfolding dfs_inv_def rev_map finished_upd(2) [OF new] by (auto simp only: simp_thms)
qed

lemma causality_dfs_inv:
  "dfs_inv g stack colors \<Longrightarrow>
     (case causality_dfs g stack colors of
        Inl _ \<Rightarrow> \<not> acyclic (known g)
      | Inr c \<Rightarrow> dfs_inv g [] c \<and> finished colors \<union> fst ` set stack \<subseteq> finished c)"
proof (induction g stack colors rule: causality_dfs.induct)
  case (2 g i exiting stack colors)
  consider (exit) exiting | (grey) "\<not> exiting" "colors i = Some 1"
    | (finished) "\<not> exiting" "colors i = Some 2" | (new) "\<not> exiting" "i \<notin> coloured colors"
    by (auto simp: coloured_def)
  then show ?case
  proof cases
    case exit
    then have "dfs_inv g stack (colors(i \<mapsto> 2))" using 2(4) dfs_inv_exit by simp
    note IH = 2(1) [OF exit this]
    then show ?thesis using exit
      by (cases "causality_dfs g stack (colors(i \<mapsto> 2))") (auto simp del: fun_upd_apply)
  next
    case grey
    then have "i \<in> set (markers stack)" "linked (known g) ((i, exiting) # stack)"
      using 2(4) by (auto simp: dfs_inv_def)
    then have "(i, i) \<in> (known g)\<^sup>+" by (metis linked_path)
    then show ?thesis using grey by (auto simp: acyclic_def)
  next
    case finished
    then have "dfs_inv g stack colors" using 2(4) dfs_inv_skip by simp
    then show ?thesis
      using 2(2) [OF finished(1) _ finished(2)] finished
      by (cases "causality_dfs g stack colors") (auto simp: finished_def)
  next
    case new
    let ?stack = "rev (map (\<lambda>e. (e, False)) (known_edges g i)) @ (i, True) # stack"
    have white: "colors i \<noteq> Some 1" "colors i \<noteq> Some 2" using new(2) by (auto simp: coloured_def)
    have "dfs_inv g ?stack (colors(i \<mapsto> 1))" using dfs_inv_enter 2(4) new by simp
    note IH = 2(3) [OF new(1) white this]
    then show ?thesis
      using new white by (cases "causality_dfs g ?stack (colors(i \<mapsto> 1))") (auto simp del: fun_upd_apply One_nat_def)
  qed
qed simp

lemma causality_all_inv:
  "dfs_inv g [] colors \<Longrightarrow>
     (case causality_all g starts colors of
        Inl _ \<Rightarrow> \<not> acyclic (known g)
      | Inr _ \<Rightarrow> \<exists>c. dfs_inv g [] c \<and> finished colors \<union> set starts \<subseteq> finished c)"
proof (induction starts arbitrary: colors)
  case (Cons start starts)
  have "dfs_inv g [(start, False)] colors" using Cons.prems by (auto simp: dfs_inv_def)
  from causality_dfs_inv [OF this] show ?case
  proof (cases "causality_dfs g [(start, False)] colors")
    case (Inr c)
    then have c: "dfs_inv g [] c" "insert start (finished colors) \<subseteq> finished c"
      using causality_dfs_inv [OF \<open>dfs_inv g [(start, False)] colors\<close>] by auto
    show ?thesis using Cons.IH [OF c(1)] c(2) Inr by (auto split: sum.splits)
  qed simp
qed auto

lemma validate_causality_acyclic: "validate_causality g = Inr () \<longleftrightarrow> acyclic (causal g)"
proof -
  have start: "dfs_inv g [] Map.empty" by (simp add: dfs_inv_def)
  note inv = causality_all_inv [OF start, of "sort (map fst g)"]
  show ?thesis
  proof (cases "validate_causality g")
    case (Inl e)
    then show ?thesis using inv by (simp add: validate_causality_def acyclic_known)
  next
    case (Inr u)
    then obtain c where c: "dfs_inv g [] c" "fst ` set g \<subseteq> finished c"
      using inv by (auto simp: validate_causality_def)
    have "(x, x) \<notin> (known g)\<^sup>+" for x
    proof
      assume cycle: "(x, x) \<in> (known g)\<^sup>+"
      then have "x \<in> dom (map_of g)" by (meson causal_source known_iff tranclD)
      then have "x \<in> finished c" using c(2) by (auto simp: dom_map_of_conv_image_fst)
      then show False using c(1) cycle by (simp add: dfs_inv_def)
    qed
    then have "acyclic (known g)" by (simp add: acyclic_def)
    then show ?thesis using Inr by (simp add: acyclic_known)
  qed
qed

section \<open>Properties\<close>

text \<open>
  C9. The validation of a journal's causal graph is a decision procedure: on every graph the
  iterative search ends, and it fails exactly when some event is, through any number of
  recorded causes, a cause of itself. References to events that are not recorded never make
  it fail.
\<close>

theorem validate_causality_decides:
  "(\<exists>m. validate_causality g = Inl m) \<longleftrightarrow> (\<exists>i. (i, i) \<in> (causal g)\<^sup>+)"
proof (cases "validate_causality g")
  case (Inl m)
  then show ?thesis using validate_causality_acyclic [of g] by (auto simp: acyclic_def)
next
  case (Inr u)
  then show ?thesis using validate_causality_acyclic [of g] by (auto simp: acyclic_def)
qed

text \<open>
  C29. The incremental check of an append agrees with the validation of the whole graph: for
  a valid graph and an event it does not hold yet, the search from the causes of the event
  finds the event exactly when recording it would make the full validation fail.
\<close>

theorem append_check_agrees_with_validation:
  assumes "validate_causality g = Inr ()" "map_of g i = None"
  shows "reaches_event i g (rev es) [] \<longleftrightarrow> validate_causality (AList.update i es g) \<noteq> Inr ()"
  using assms acyclic_update [OF assms(2), of es]
  by (simp add: validate_causality_acyclic reaches_event_iff)

theorem append_check_agrees_with_validation_witness:
  "reaches_event ''b'' [(''a'', [''b''])] (rev [''c'', ''a'']) []
   \<longleftrightarrow> validate_causality [(''a'', [''b'']), (''b'', [''c'', ''a''])] \<noteq> Inr ()"
proof -
  have "validate_causality [(''a'', [''b''])] = Inr ()" by code_simp
  then show ?thesis
    using append_check_agrees_with_validation [of "[(''a'', [''b''])]" "''b''" "[''c'', ''a'']"] by simp
qed

end
