(* ===== verification/Journal.thy ===== *)
theory Journal
  imports Operation_Event Causality
begin

text \<open>
  The single-writer trace journal (\<open>crates/pvisor-journal/src/journal.rs\<close>) and its producer
  (\<open>trace.rs\<close>).

  The state of a journal is the \<open>State\<close> behind its mutex: the \<open>BTreeMap\<close>s are association
  lists with distinct keys, the file is its bytes, and \<open>js_live\<close> collects what was sent to
  subscribers. \<open>serde_json\<close> and \<open>sha2\<close> are the parameter \<open>journal_io\<close>; \<open>journal_laws\<close> states
  what the journal relies on: compact JSON has no newline, trailing white space is ignored, a
  record that can be read back reads back as itself (the \<open>float_roundtrip\<close> feature is on), and
  a record is larger than its event by its position at most.

  A write to the file takes an argument: \<open>None\<close> when it and the sync succeed, \<open>Some n\<close> when it
  fails with the first \<open>n\<close> bytes in the file. The mutex serialises the operations, so that
  a history of a journal is a sequence of steps.
\<close>

section \<open>State and parameters\<close>

record journal_header =
  jh_format :: rstr
  jh_journal :: rstr

record ('j, 'h) journal_io =
  io_event :: "'j event \<Rightarrow> rstr option"
  io_record :: "'j record_entry \<Rightarrow> rstr option"
  io_parse_record :: "rstr \<Rightarrow> 'j record_entry option"
  io_header :: "journal_header \<Rightarrow> rstr"
  io_parse_header :: "rstr \<Rightarrow> journal_header option"
  io_sha :: "rstr \<Rightarrow> 'h"

record ('j, 'h) journal_state =
  js_id :: rstr
  js_file :: "rstr option"
  js_seen :: "(rstr \<times> u64 \<times> 'h) list"
  js_causes :: causes
  js_unresolved :: "rstr set"
  js_memory :: "'j record_entry list"
  js_poisoned :: bool
  js_live :: "'j event list"

datatype append_error = Rejected rstr | Unknown rstr

definition journal_laws :: "('j, 'h) journal_io \<Rightarrow> bool" where
  "journal_laws io \<longleftrightarrow>
     (\<forall>r s. io_record io r = Some s \<longrightarrow>
        newline \<notin> set s \<and> io_parse_record io (s @ [newline]) = io_parse_record io s
        \<and> (\<forall>r'. io_parse_record io s = Some r' \<longrightarrow> r' = r)
        \<and> (\<forall>t. io_event io (rec_event r) = Some t \<longrightarrow>
             int (length s) \<le> int (length t) + 6 * int (length (pos_journal (rec_position r))) + 128))
     \<and> (\<forall>h. newline \<notin> set (io_header io h)
           \<and> io_parse_header io (io_header io h @ [newline]) = Some h
           \<and> int (length (io_header io h))
              \<le> 6 * int (length (jh_format h)) + 6 * int (length (jh_journal h)) + 128)"

section \<open>Operations\<close>

definition trace_format :: rstr where
  "trace_format = ''pvisor.trace/'' @ show_nat (unat event_version)"

definition journal_memory :: "rstr \<Rightarrow> ('j, 'h) journal_state" where
  "journal_memory fresh_id =
     \<lparr>js_id = fresh_id, js_file = None, js_seen = [], js_causes = [], js_unresolved = {},
      js_memory = [], js_poisoned = False, js_live = []\<rparr>"

definition digest :: "('j, 'h) journal_io \<Rightarrow> 'j event \<Rightarrow> 'h option" where
  "digest io e = map_option (io_sha io) (io_event io e)"

definition read_line :: "rstr \<Rightarrow> rstr + rstr" where
  "read_line input =
     (let line = read_until (max_event_bytes + 4097) input in
      if int (length line) \<le> max_event_bytes + 4096 then Inr line
      else Inl ''trace record exceeds size limit'')"

lemma read_line_prefix: "read_line input = Inr line \<Longrightarrow> line @ drop (length line) input = input"
  by (auto simp: read_line_def Let_def read_until_prefix split: if_splits)

function scan_records ::
  "('j, 'h) journal_io \<Rightarrow> bool \<Rightarrow> bool \<Rightarrow> rstr \<Rightarrow> rstr \<Rightarrow> causes \<Rightarrow> u64 \<Rightarrow> nat \<Rightarrow> 'j record_entry list
     \<Rightarrow> rstr + (causes \<times> nat \<times> 'j record_entry list)" where
  "scan_records io repair_tail retain journal input ids offset valid_bytes records =
     (case read_line input of
        Inl e \<Rightarrow> Inl e
      | Inr line \<Rightarrow>
          if line = [] then Inr (ids, valid_bytes, records)
          else if last line \<noteq> newline then
            (if repair_tail then Inr (ids, valid_bytes, records) else Inl ''incomplete trace tail'')
          else
            (case io_parse_record io line of
               None \<Rightarrow> Inl ''corrupt complete trace record''
             | Some record \<Rightarrow>
                 (case event_validate (io_event io) (rec_event record) of
                    Inl e \<Rightarrow> Inl e
                  | Inr _ \<Rightarrow>
                      if rec_position record \<noteq> \<lparr>pos_journal = journal, pos_offset = offset\<rparr>
                      then Inl ''trace position discontinuity''
                      else if map_of ids (ev_id (rec_event record)) \<noteq> None
                      then Inl ''duplicate event identity''
                      else scan_records io repair_tail retain journal (drop (length line) input)
                             (AList.update (ev_id (rec_event record)) (ev_caused_by (rec_event record)) ids)
                             (offset + 1) (valid_bytes + length line)
                             (if retain then records @ [record] else records))))"
  by pat_completeness auto
termination
proof (relation "measure (\<lambda>(_, _, _, _, input, _). length input)", goal_cases)
  case (2 io repair_tail retain journal input ids offset valid_bytes records line)
  then have "line \<noteq> []" "line @ drop (length line) input = input" using read_line_prefix by auto
  then have "input \<noteq> []" by auto
  then show ?case using \<open>line \<noteq> []\<close> by simp
qed simp

declare scan_records.simps [simp del]

definition scan ::
  "('j, 'h) journal_io \<Rightarrow> bool \<Rightarrow> bool \<Rightarrow> rstr \<Rightarrow> rstr + (rstr \<times> 'j record_entry list \<times> rstr)" where
  "scan io repair_tail retain contents =
     bind_res (read_line contents) (\<lambda>line.
     bind_res (ensure (line \<noteq> [] \<and> last line = newline) ''incomplete trace header'') (\<lambda>_.
     case io_parse_header io line of
       None \<Rightarrow> Inl ''not a trace journal''
     | Some header \<Rightarrow>
         bind_res (ensure (jh_format header = trace_format \<and> jh_journal header \<noteq> []
                           \<and> int (length (jh_journal header)) \<le> 256) ''unsupported journal header'') (\<lambda>_.
         bind_res (scan_records io repair_tail retain (jh_journal header) (drop (length line) contents)
                     [] 0 (length line) []) (\<lambda>(ids, valid_bytes, records).
         bind_res (validate_causality ids) (\<lambda>_.
         Inr (jh_journal header, records,
              if repair_tail \<and> length contents \<noteq> valid_bytes then take valid_bytes contents
              else contents))))))"

fun index_records ::
  "('j, 'h) journal_io \<Rightarrow> 'j record_entry list \<Rightarrow> (rstr \<times> u64 \<times> 'h) list \<Rightarrow> causes
     \<Rightarrow> rstr + ((rstr \<times> u64 \<times> 'h) list \<times> causes)" where
  "index_records io [] seen causes = Inr (seen, causes)"
| "index_records io (record # records) seen causes =
     (case digest io (rec_event record) of
        None \<Rightarrow> Inl ''serialization failed''
      | Some hash \<Rightarrow>
          if map_of seen (ev_id (rec_event record)) \<noteq> None then Inl ''duplicate event in journal''
          else index_records io records
                 (AList.update (ev_id (rec_event record)) (pos_offset (rec_position record), hash) seen)
                 (AList.update (ev_id (rec_event record)) (ev_caused_by (rec_event record)) causes))"

definition unresolved_causes :: "causes \<Rightarrow> rstr set" where
  "unresolved_causes causes = set (filter (\<lambda>i. map_of causes i = None) (concat (map snd causes)))"

text \<open>
  What the operating system answers while a journal is opened: the parent directory, the
  descriptor, its kind, the permissions, the lock, the write of a first header (with how much
  of it is in the file when it fails), the truncation of a torn tail with its sync, and the final
  sync.
\<close>

record open_env =
  oe_directory :: bool
  oe_opened :: bool
  oe_regular :: bool
  oe_permissions :: bool
  oe_unlocked :: bool
  oe_header_fault :: "nat option"
  oe_truncated :: bool
  oe_truncation_synced :: bool
  oe_synced :: bool

definition header_line :: "('j, 'h) journal_io \<Rightarrow> rstr \<Rightarrow> rstr" where
  "header_line io journal = io_header io \<lparr>jh_format = trace_format, jh_journal = journal\<rparr> @ [newline]"

definition open_journal_file :: "open_env \<Rightarrow> rstr + unit" where
  "open_journal_file env =
     bind_res (ensure (oe_opened env) ''cannot open trace journal'') (\<lambda>_.
     ensure (oe_regular env) ''trace journal must be a regular file'')"

definition open_contents ::
  "('j, 'h) journal_io \<Rightarrow> rstr \<Rightarrow> open_env \<Rightarrow> rstr \<Rightarrow> (rstr + (rstr \<times> 'j record_entry list)) \<times> rstr" where
  "open_contents io fresh_id env contents =
     (if contents = [] then
        (case oe_header_fault env of
           Some n \<Rightarrow> (Inl ''write failed'', take n (header_line io fresh_id))
         | None \<Rightarrow> (Inr (fresh_id, []), header_line io fresh_id))
      else
        (case scan io True True contents of
           Inl e \<Rightarrow> (Inl e, contents)
         | Inr (journal, records, repaired) \<Rightarrow>
             if repaired = contents then (Inr (journal, records), contents)
             else if \<not> oe_truncated env then (Inl ''truncation failed'', contents)
             else if \<not> oe_truncation_synced env then (Inl ''sync failed'', repaired)
             else (Inr (journal, records), repaired)))"

definition journal_open ::
  "('j, 'h) journal_io \<Rightarrow> rstr \<Rightarrow> open_env \<Rightarrow> rstr \<Rightarrow> (rstr + ('j, 'h) journal_state) \<times> rstr" where
  "journal_open io fresh_id env contents =
     (case bind_res (ensure (oe_directory env) ''create directory tree'') (\<lambda>_.
           bind_res (open_journal_file env) (\<lambda>_.
           bind_res (ensure (oe_permissions env) ''set permissions'') (\<lambda>_.
           ensure (oe_unlocked env) ''trace journal already has a writer''))) of
        Inl e \<Rightarrow> (Inl e, contents)
      | Inr _ \<Rightarrow>
          (case open_contents io fresh_id env contents of
             (Inl e, contents') \<Rightarrow> (Inl e, contents')
           | (Inr (journal, records), contents') \<Rightarrow>
               (bind_res (ensure (oe_synced env) ''sync failed'') (\<lambda>_.
                bind_res (index_records io records [] []) (\<lambda>(seen, causes).
                Inr \<lparr>js_id = journal, js_file = Some contents', js_seen = seen, js_causes = causes,
                     js_unresolved = unresolved_causes causes, js_memory = [], js_poisoned = False,
                     js_live = []\<rparr>)), contents')))"

text \<open>\<open>read\<close> and \<open>validate\<close> look at a closed file and never change it.\<close>

definition journal_read :: "('j, 'h) journal_io \<Rightarrow> open_env \<Rightarrow> rstr \<Rightarrow> rstr + 'j record_entry list" where
  "journal_read io env contents =
     bind_res (open_journal_file env) (\<lambda>_.
     bind_res (ensure (oe_unlocked env) ''close the trace writer before inspecting its journal'') (\<lambda>_.
     bind_res (scan io False True contents) (\<lambda>(_, records, _). Inr records)))"

definition journal_validate :: "('j, 'h) journal_io \<Rightarrow> open_env \<Rightarrow> rstr \<Rightarrow> rstr + unit" where
  "journal_validate io env contents =
     bind_res (open_journal_file env) (\<lambda>_.
     bind_res (ensure (oe_unlocked env) ''close the trace writer before validation'') (\<lambda>_.
     bind_res (scan io False False contents) (\<lambda>_. Inr ())))"

definition js_durability :: "('j, 'h) journal_state \<Rightarrow> durability" where
  "js_durability st = (if js_file st \<noteq> None then LocalSync else Volatile)"

definition js_receipt :: "('j, 'h) journal_state \<Rightarrow> rstr \<Rightarrow> u64 \<Rightarrow> receipt" where
  "js_receipt st i offset =
     \<lparr>rcpt_event = i, rcpt_position = \<lparr>pos_journal = js_id st, pos_offset = offset\<rparr>,
      rcpt_durability = js_durability st\<rparr>"

definition index_event ::
  "'j event \<Rightarrow> u64 \<Rightarrow> 'h \<Rightarrow> ('j, 'h) journal_state \<Rightarrow> ('j, 'h) journal_state" where
  "index_event e offset hash st =
     (let seen = AList.update (ev_id e) (offset, hash) (js_seen st) in
      st\<lparr>js_seen := seen,
         js_unresolved := (js_unresolved st - {ev_id e})
            \<union> set (filter (\<lambda>i. map_of seen i = None) (ev_caused_by e)),
         js_causes := AList.update (ev_id e) (ev_caused_by e) (js_causes st),
         js_live := js_live st @ [e]\<rparr>)"

definition next_record :: "('j, 'h) journal_state \<Rightarrow> 'j event \<Rightarrow> 'j record_entry" where
  "next_record st e =
     \<lparr>rec_position = \<lparr>pos_journal = js_id st, pos_offset = of_nat (length (js_seen st))\<rparr>, rec_event = e\<rparr>"

definition commit_event ::
  "('j, 'h) journal_io \<Rightarrow> nat option \<Rightarrow> 'j event \<Rightarrow> 'h \<Rightarrow> ('j, 'h) journal_state
     \<Rightarrow> (append_error + receipt) \<times> ('j, 'h) journal_state" where
  "commit_event io fault e hash st =
     (let record = next_record st e; offset = pos_offset (rec_position record) in
      case io_record io record of
        None \<Rightarrow> (Inl (Rejected ''serialization failed''), st)
      | Some bytes \<Rightarrow>
          if io_parse_record io bytes = None then (Inl (Rejected ''unreadable trace record''), st)
          else
            (case js_file st of
               Some contents \<Rightarrow>
                 (case fault of
                    Some n \<Rightarrow>
                      (Inl (Unknown ''write failed''),
                       st\<lparr>js_file := Some (contents @ take n (bytes @ [newline])), js_poisoned := True\<rparr>)
                  | None \<Rightarrow>
                      (Inr (js_receipt st (ev_id e) offset),
                       index_event e offset hash (st\<lparr>js_file := Some (contents @ bytes @ [newline])\<rparr>)))
             | None \<Rightarrow>
                 (Inr (js_receipt st (ev_id e) offset),
                  index_event e offset hash (st\<lparr>js_memory := js_memory st @ [record]\<rparr>))))"

definition append_event ::
  "('j, 'h) journal_io \<Rightarrow> nat option \<Rightarrow> 'j event \<Rightarrow> ('j, 'h) journal_state
     \<Rightarrow> (append_error + receipt) \<times> ('j, 'h) journal_state" where
  "append_event io fault e st =
     (case event_validate (io_event io) e of
        Inl m \<Rightarrow> (Inl (Rejected m), st)
      | Inr _ \<Rightarrow>
          (case digest io e of
             None \<Rightarrow> (Inl (Rejected ''serialization failed''), st)
           | Some hash \<Rightarrow>
               if js_poisoned st then (Inl (Unknown ''previous write failed''), st)
               else
                 (case map_of (js_seen st) (ev_id e) of
                    Some (offset, prior) \<Rightarrow>
                      if prior \<noteq> hash then (Inl (Rejected ''event identity has different content''), st)
                      else (Inr (js_receipt st (ev_id e) offset), st)
                  | None \<Rightarrow>
                      if ev_id e \<in> js_unresolved st
                         \<and> reaches_event (ev_id e) (js_causes st) (rev (ev_caused_by e)) []
                      then (Inl (Rejected ''causal cycle''), st)
                      else commit_event io fault e hash st)))"

definition journal_records :: "('j, 'h) journal_io \<Rightarrow> ('j, 'h) journal_state \<Rightarrow> rstr + 'j record_entry list" where
  "journal_records io st =
     bind_res (ensure (\<not> js_poisoned st) ''reopen journal after write error'') (\<lambda>_.
     case js_file st of
       Some contents \<Rightarrow> bind_res (scan io False True contents) (\<lambda>(_, records, _). Inr records)
     | None \<Rightarrow> Inr (js_memory st))"

text \<open>
  \<open>copied\<close> is the number of bytes \<open>io::copy\<close> reports, \<open>None\<close> when it or the sync fails; the
  output receives that prefix.
\<close>

definition snapshot_to :: "nat option \<Rightarrow> u64 \<Rightarrow> ('j, 'h) journal_state \<Rightarrow> (rstr + nat) \<times> rstr" where
  "snapshot_to copied max_bytes st =
     (if js_poisoned st then (Inl ''reopen journal after write error'', [])
      else
        (case js_file st of
           None \<Rightarrow> (Inl ''durable trace export requires a file journal'', [])
         | Some contents \<Rightarrow>
             if unat max_bytes < length contents then (Inl ''trace exceeds artifact export limit'', [])
             else
               (case copied of
                  None \<Rightarrow> (Inl ''copy failed'', [])
                | Some n \<Rightarrow>
                    (if n = length contents then Inr n else Inl ''trace changed while snapshotting'',
                     take n contents))))"

section \<open>Producers\<close>

record trace =
  tr_id :: rstr
  tr_producer :: rstr

fun fact_granularity :: "'j fact \<Rightarrow> granularity" where
  "fact_granularity (FactContext _) = Detail"
| "fact_granularity _ = GranularityOperation"

fun failure_level :: "'j failure \<Rightarrow> event_level" where
  "failure_level (FailureDenied _) = LevelWarn"
| "failure_level (FailureUnsupported _) = LevelWarn"
| "failure_level _ = LevelError"

fun fact_level :: "'j fact \<Rightarrow> event_level" where
  "fact_level (FactCompleted _ (OutcomeError failure) _) = failure_level failure"
| "fact_level _ = LevelInfo"

definition trace_event ::
  "rstr \<Rightarrow> u64 \<Rightarrow> trace \<Rightarrow> rstr list \<Rightarrow> rstr option \<Rightarrow> rstr option \<Rightarrow> rstr list \<Rightarrow> 'j fact \<Rightarrow> 'j event" where
  "trace_event fresh_id now t scope context operation caused_by data =
     \<lparr>ev_version = event_version, ev_id = fresh_id, ev_trace_id = tr_id t, ev_producer = tr_producer t,
      ev_observed_at_unix_ms = now, ev_scope = scope, ev_context = context, ev_operation = operation,
      ev_caused_by = caused_by, ev_level = fact_level data, ev_granularity = fact_granularity data,
      ev_data = data\<rparr>"

definition trace_emit ::
  "('j, 'h) journal_io \<Rightarrow> nat option \<Rightarrow> 'j event \<Rightarrow> ('j, 'h) journal_state
     \<Rightarrow> (append_error + rstr) \<times> ('j, 'h) journal_state" where
  "trace_emit io fault e st =
     (let (r, st') = append_event io fault e st
      in (bind_res r (\<lambda>receipt. Inr (rcpt_event receipt)), st'))"

section \<open>What a file of records is\<close>

abbreviation rec_id :: "'j record_entry \<Rightarrow> rstr" where
  "rec_id r \<equiv> ev_id (rec_event r)"

definition causes_of :: "'j record_entry list \<Rightarrow> causes" where
  "causes_of rs = map (\<lambda>r. (rec_id r, ev_caused_by (rec_event r))) rs"

definition seen_of :: "('j, 'h) journal_io \<Rightarrow> 'j record_entry list \<Rightarrow> (rstr \<times> u64 \<times> 'h) list" where
  "seen_of io rs = map (\<lambda>r. (rec_id r, pos_offset (rec_position r), the (digest io (rec_event r)))) rs"

definition record_line :: "('j, 'h) journal_io \<Rightarrow> 'j record_entry \<Rightarrow> rstr" where
  "record_line io r = the (io_record io r) @ [newline]"

definition lines_of :: "('j, 'h) journal_io \<Rightarrow> 'j record_entry list \<Rightarrow> rstr" where
  "lines_of io rs = concat (map (record_line io) rs)"

definition record_ok :: "('j, 'h) journal_io \<Rightarrow> 'j record_entry \<Rightarrow> bool" where
  "record_ok io r \<longleftrightarrow>
     event_validate (io_event io) (rec_event r) = Inr ()
     \<and> (\<exists>s. io_record io r = Some s \<and> io_parse_record io s = Some r)"

definition positions_from :: "rstr \<Rightarrow> u64 \<Rightarrow> 'j record_entry list \<Rightarrow> bool" where
  "positions_from journal offset rs \<longleftrightarrow>
     (\<forall>k < length rs. rec_position (rs ! k) = \<lparr>pos_journal = journal, pos_offset = offset + of_nat k\<rparr>)"

definition records_ok :: "('j, 'h) journal_io \<Rightarrow> rstr \<Rightarrow> 'j record_entry list \<Rightarrow> bool" where
  "records_ok io journal rs \<longleftrightarrow>
     distinct (map rec_id rs) \<and> positions_from journal 0 rs \<and> list_all (record_ok io) rs
     \<and> acyclic (causal (causes_of rs))"

definition journal_id_ok :: "rstr \<Rightarrow> bool" where
  "journal_id_ok i \<longleftrightarrow> i \<noteq> [] \<and> int (length i) \<le> 256"

definition torn_tail :: "('j, 'h) journal_io \<Rightarrow> rstr \<Rightarrow> 'j record_entry list \<Rightarrow> rstr \<Rightarrow> bool" where
  "torn_tail io journal rs tail \<longleftrightarrow>
     tail = [] \<or> (\<exists>r n. records_ok io journal (rs @ [r]) \<and> tail = take n (record_line io r))"

definition committed :: "('j, 'h) journal_io \<Rightarrow> ('j, 'h) journal_state \<Rightarrow> 'j record_entry list \<Rightarrow> bool" where
  "committed io st rs \<longleftrightarrow>
     records_ok io (js_id st) rs \<and> journal_id_ok (js_id st)
     \<and> js_seen st = seen_of io rs \<and> js_causes st = causes_of rs
     \<and> js_unresolved st = unresolved_causes (causes_of rs)
     \<and> (case js_file st of
          None \<Rightarrow> js_memory st = rs \<and> \<not> js_poisoned st
        | Some c \<Rightarrow> js_memory st = []
            \<and> (\<exists>tail. c = header_line io (js_id st) @ lines_of io rs @ tail
                 \<and> torn_tail io (js_id st) rs tail \<and> (tail \<noteq> [] \<longrightarrow> js_poisoned st)))"

text \<open>The state that opening a file of these records gives.\<close>

definition state_of :: "('j, 'h) journal_io \<Rightarrow> rstr \<Rightarrow> 'j record_entry list \<Rightarrow> ('j, 'h) journal_state" where
  "state_of io journal rs =
     \<lparr>js_id = journal, js_file = Some (header_line io journal @ lines_of io rs), js_seen = seen_of io rs,
      js_causes = causes_of rs, js_unresolved = unresolved_causes (causes_of rs), js_memory = [],
      js_poisoned = False, js_live = []\<rparr>"

lemma update_new: "map_of xs k = None \<Longrightarrow> AList.update k v xs = xs @ [(k, v)]"
  by (induction xs) (auto split: if_splits)

lemma causes_of_simps [simp]:
  "causes_of [] = []"
  "causes_of (r # rs) = (rec_id r, ev_caused_by (rec_event r)) # causes_of rs"
  "causes_of (rs @ qs) = causes_of rs @ causes_of qs"
  "map fst (causes_of rs) = map rec_id rs"
  by (simp_all add: causes_of_def comp_def)

lemma seen_of_simps [simp]:
  "seen_of io [] = []"
  "seen_of io (r # rs) = (rec_id r, pos_offset (rec_position r), the (digest io (rec_event r))) # seen_of io rs"
  "seen_of io (rs @ qs) = seen_of io rs @ seen_of io qs"
  "map fst (seen_of io rs) = map rec_id rs"
  "length (seen_of io rs) = length rs"
  by (simp_all add: seen_of_def comp_def)

lemma lines_of_simps [simp]:
  "lines_of io [] = []"
  "lines_of io (r # rs) = record_line io r @ lines_of io rs"
  "lines_of io (rs @ qs) = lines_of io rs @ lines_of io qs"
  by (simp_all add: lines_of_def)

lemma map_of_None_iff: "map_of xs k = None \<longleftrightarrow> k \<notin> set (map fst xs)"
  by (simp add: map_of_eq_None_iff)

lemma positions_from_Cons [simp]:
  "positions_from j off (r # rs) \<longleftrightarrow>
     rec_position r = \<lparr>pos_journal = j, pos_offset = off\<rparr> \<and> positions_from j (off + 1) rs"
  by (auto simp: positions_from_def less_Suc_eq_0_disj add.assoc)

lemma positions_from_snoc [simp]:
  "positions_from j off (rs @ [r]) \<longleftrightarrow>
     positions_from j off rs \<and> rec_position r = \<lparr>pos_journal = j, pos_offset = off + of_nat (length rs)\<rparr>"
  by (auto simp: positions_from_def nth_append less_Suc_eq)

lemma event_validate_bytes:
  "event_validate io e = Inr u \<Longrightarrow> \<exists>t. io e = Some t \<and> int (length t) \<le> max_event_bytes"
  by (auto simp: event_validate_def bind_res_Inr_iff split: option.splits)

lemma record_ok_line:
  assumes "journal_laws io" "record_ok io r" "journal_id_ok (pos_journal (rec_position r))"
  obtains s where "record_line io r = s @ [newline]" "io_record io r = Some s" "newline \<notin> set s"
    "int (length s) < max_event_bytes + 4096" "io_parse_record io (record_line io r) = Some r"
proof -
  obtain s t where s: "io_record io r = Some s" "io_parse_record io s = Some r"
    and t: "io_event io (rec_event r) = Some t" "int (length t) \<le> max_event_bytes"
    using assms(2) event_validate_bytes [of "io_event io" "rec_event r"] by (auto simp: record_ok_def)
  then have "newline \<notin> set s" "io_parse_record io (s @ [newline]) = Some r"
    "int (length s) \<le> int (length t) + 6 * int (length (pos_journal (rec_position r))) + 128"
    using assms(1) by (auto simp: journal_laws_def)
  then show thesis using that [of s] s t assms(3) by (auto simp: record_line_def journal_id_ok_def)
qed

lemma read_line_line:
  "newline \<notin> set s \<Longrightarrow> int (length s) < max_event_bytes + 4096 \<Longrightarrow>
     read_line (s @ newline # rest) = Inr (s @ [newline])"
  by (simp add: read_line_def read_until_line)

lemma read_line_tail:
  "newline \<notin> set s \<Longrightarrow> int (length s) < max_event_bytes + 4096 \<Longrightarrow> read_line s = Inr s"
  by (simp add: read_line_def read_until_tail)

lemma scan_records_end:
  "read_line input = Inr line \<Longrightarrow> line = [] \<or> last line \<noteq> newline \<Longrightarrow> line = [] \<or> repair \<Longrightarrow>
     scan_records io repair retain journal input ids offset valid records = Inr (ids, valid, records)"
  using scan_records.simps [of io repair retain journal input ids offset valid records] by auto

lemma scan_records_record:
  "\<lbrakk> read_line input = Inr line; line \<noteq> []; last line = newline; io_parse_record io line = Some r;
     event_validate (io_event io) (rec_event r) = Inr ();
     rec_position r = \<lparr>pos_journal = journal, pos_offset = offset\<rparr>; map_of ids (rec_id r) = None \<rbrakk>
   \<Longrightarrow> scan_records io repair retain journal input ids offset valid records =
         scan_records io repair retain journal (drop (length line) input)
           (ids @ [(rec_id r, ev_caused_by (rec_event r))]) (offset + 1) (valid + length line)
           (if retain then records @ [r] else records)"
  using scan_records.simps [of io repair retain journal input ids offset valid records]
  by (simp add: update_new)

lemma scan_records_lines:
  assumes laws: "journal_laws io" and journal: "journal_id_ok journal"
    and tail: "newline \<notin> set tail" "int (length tail) < max_event_bytes + 4096" "tail = [] \<or> repair"
  shows "\<lbrakk> list_all (record_ok io) rs; positions_from journal offset rs; distinct (map rec_id rs);
           set (map rec_id rs) \<inter> set (map fst ids) = {} \<rbrakk>
    \<Longrightarrow> scan_records io repair retain journal (lines_of io rs @ tail) ids offset valid records =
          Inr (ids @ causes_of rs, valid + length (lines_of io rs), if retain then records @ rs else records)"
proof (induction rs arbitrary: ids offset valid records)
  case Nil
  have last: "tail = [] \<or> last tail \<noteq> newline" using tail(1) last_in_set by metis
  have "scan_records io repair retain journal tail ids offset valid records = Inr (ids, valid, records)"
    by (rule scan_records_end [OF read_line_tail [OF tail(1, 2)] last tail(3)])
  then show ?case by simp
next
  case (Cons r rs)
  have ok: "record_ok io r" "journal_id_ok (pos_journal (rec_position r))"
    using Cons.prems(1, 2) journal by simp_all
  from record_ok_line [OF laws this] obtain s where s: "record_line io r = s @ [newline]"
    "newline \<notin> set s" "int (length s) < max_event_bytes + 4096"
    "io_parse_record io (record_line io r) = Some r" by blast
  have valid: "event_validate (io_event io) (rec_event r) = Inr ()"
    using Cons.prems(1) by (simp add: record_ok_def)
  have new: "map_of ids (rec_id r) = None" using Cons.prems(4) by (auto simp: map_of_None_iff)
  let ?line = "record_line io r" and ?input = "record_line io r @ lines_of io rs @ tail"
  have line: "?line \<noteq> []" "last ?line = newline" "read_line ?input = Inr ?line"
    using s(1) read_line_line [OF s(2, 3)] by simp_all
  have pos: "rec_position r = \<lparr>pos_journal = journal, pos_offset = offset\<rparr>"
    using Cons.prems(2) by simp
  have "scan_records io repair retain journal (lines_of io (r # rs) @ tail) ids offset valid records =
      scan_records io repair retain journal (drop (length ?line) ?input)
        (ids @ [(rec_id r, ev_caused_by (rec_event r))]) (offset + 1) (valid + length ?line)
        (if retain then records @ [r] else records)"
    using scan_records_record [OF line(3, 1, 2) s(4) valid pos new] by (simp only: lines_of_simps append_assoc)
  also have "drop (length ?line) ?input = lines_of io rs @ tail" by simp
  also have "scan_records io repair retain journal (lines_of io rs @ tail)
        (ids @ [(rec_id r, ev_caused_by (rec_event r))]) (offset + 1) (valid + length ?line)
        (if retain then records @ [r] else records)
      = Inr (ids @ causes_of (r # rs), valid + length (lines_of io (r # rs)),
                       if retain then records @ (r # rs) else records)"
    using Cons.prems by (subst Cons.IH) auto
  finally show ?case .
qed

section \<open>Opening a file\<close>

lemma length_trace_format: "length trace_format = 14"
  by (simp add: trace_format_def event_version_def show_nat.simps)

lemma header_line_facts:
  assumes "journal_laws io" "journal_id_ok journal"
  obtains s where "header_line io journal = s @ [newline]" "newline \<notin> set s"
    "int (length s) < max_event_bytes + 4096"
    "io_parse_header io (header_line io journal) = Some \<lparr>jh_format = trace_format, jh_journal = journal\<rparr>"
proof -
  let ?h = "\<lparr>jh_format = trace_format, jh_journal = journal\<rparr>"
  have "newline \<notin> set (io_header io ?h)" "io_parse_header io (io_header io ?h @ [newline]) = Some ?h"
    "int (length (io_header io ?h)) \<le> 6 * 14 + 6 * int (length journal) + 128"
    using conjunct2 [OF assms(1) [unfolded journal_laws_def], THEN spec, of ?h]
    by (simp_all add: length_trace_format)
  then show thesis using that assms(2) by (auto simp: header_line_def journal_id_ok_def max_event_bytes_def)
qed

lemma scan_file:
  assumes laws: "journal_laws io" and ok: "records_ok io journal rs" "journal_id_ok journal"
    and tail: "newline \<notin> set tail" "int (length tail) < max_event_bytes + 4096" "tail = [] \<or> repair"
  shows "scan io repair retain (header_line io journal @ lines_of io rs @ tail) =
           Inr (journal, if retain then rs else [], header_line io journal @ lines_of io rs)"
proof -
  obtain s where s: "header_line io journal = s @ [newline]" "newline \<notin> set s"
    "int (length s) < max_event_bytes + 4096"
    "io_parse_header io (header_line io journal) = Some \<lparr>jh_format = trace_format, jh_journal = journal\<rparr>"
    using header_line_facts [OF laws ok(2)] by blast
  let ?input = "lines_of io rs @ tail"
  have "read_line (header_line io journal @ ?input) = Inr (header_line io journal)"
    using read_line_line [OF s(2, 3)] s(1) by simp
  moreover have "scan_records io repair retain journal ?input [] 0 (length (header_line io journal)) [] =
      Inr (causes_of rs, length (header_line io journal @ lines_of io rs), if retain then rs else [])"
    using scan_records_lines [OF laws ok(2) tail, of rs 0 "[]"] ok(1) by (simp add: records_ok_def)
  moreover have "validate_causality (causes_of rs) = Inr ()"
    using ok(1) by (simp add: records_ok_def validate_causality_acyclic)
  moreover have "header_line io journal \<noteq> []" "last (header_line io journal) = newline" using s(1) by simp_all
  moreover have "journal \<noteq> []" "int (length journal) \<le> 256" using ok(2) by (simp_all add: journal_id_ok_def)
  ultimately show ?thesis
    using s(4) tail(3) by (cases "tail = []") (simp_all add: scan_def ensure_def)
qed

lemma index_records_of:
  "\<lbrakk> list_all (record_ok io) rs; distinct (map rec_id rs); set (map rec_id rs) \<inter> set (map fst seen) = {};
     map fst causes = map fst seen \<rbrakk>
   \<Longrightarrow> index_records io rs seen causes = Inr (seen @ seen_of io rs, causes @ causes_of rs)"
proof (induction rs arbitrary: seen causes)
  case (Cons r rs)
  obtain h where hash: "digest io (rec_event r) = Some h"
    using Cons.prems(1) event_validate_bytes [of "io_event io" "rec_event r"]
    by (auto simp: record_ok_def digest_def)
  have "map_of seen (rec_id r) = None" "map_of causes (rec_id r) = None"
    using Cons.prems(3, 4) by (auto simp: map_of_None_iff)
  then have "index_records io (r # rs) seen causes =
      index_records io rs (seen @ seen_of io [r]) (causes @ causes_of [r])"
    using hash by (simp add: update_new)
  also have "\<dots> = Inr ((seen @ seen_of io [r]) @ seen_of io rs, (causes @ causes_of [r]) @ causes_of rs)"
    using Cons.prems by (intro Cons.IH) auto
  finally show ?case by simp
qed simp

text \<open>A torn tail is a strict prefix of the next line, or the whole of it.\<close>

lemma torn_tail_cases:
  assumes laws: "journal_laws io" and id: "journal_id_ok journal" and tail: "torn_tail io journal rs tail"
  obtains (torn) "newline \<notin> set tail" "int (length tail) < max_event_bytes + 4096"
    | (complete) r where "records_ok io journal (rs @ [r])" "tail = record_line io r"
proof (cases "tail = []")
  case True
  then show thesis using that(1) by (simp add: max_event_bytes_def)
next
  case False
  then obtain r n where r: "records_ok io journal (rs @ [r])" "tail = take n (record_line io r)"
    using tail by (auto simp: torn_tail_def)
  then have "record_ok io r" "journal_id_ok (pos_journal (rec_position r))"
    using id by (auto simp: records_ok_def)
  from record_ok_line [OF laws this] obtain s where s: "record_line io r = s @ [newline]"
    "newline \<notin> set s" "int (length s) < max_event_bytes + 4096" by blast
  show thesis
  proof (cases "n \<le> length s")
    case True
    then have "tail = take n s" using r(2) s(1) by simp
    then have "newline \<notin> set tail" "length tail \<le> length s" using s(2) by (auto dest: in_set_takeD)
    then show thesis using that(1) s(3) by simp
  next
    case False
    then show thesis using that(2) r s(1) by simp
  qed
qed

definition env_ok :: "open_env \<Rightarrow> bool" where
  "env_ok env \<longleftrightarrow> oe_directory env \<and> oe_opened env \<and> oe_regular env \<and> oe_permissions env
     \<and> oe_unlocked env \<and> oe_header_fault env = None \<and> oe_truncated env
     \<and> oe_truncation_synced env \<and> oe_synced env"

lemma open_file_torn:
  assumes laws: "journal_laws io" and ok: "records_ok io journal rs" "journal_id_ok journal" and env: "env_ok env"
    and tail: "newline \<notin> set tail" "int (length tail) < max_event_bytes + 4096"
  shows "journal_open io fresh env (header_line io journal @ lines_of io rs @ tail) =
           (Inr (state_of io journal rs), header_line io journal @ lines_of io rs)"
proof -
  let ?c = "header_line io journal @ lines_of io rs"
  have "scan io True True (?c @ tail) = Inr (journal, rs, ?c)"
    using scan_file [OF laws ok tail] by simp
  moreover have "index_records io rs [] [] = Inr (seen_of io rs, causes_of rs)"
    using index_records_of [of io rs "[]" "[]"] ok(1) by (simp add: records_ok_def)
  moreover have "header_line io journal \<noteq> []" by (simp add: header_line_def)
  ultimately show ?thesis
    using env by (simp add: journal_open_def env_ok_def open_contents_def open_journal_file_def
        ensure_def state_of_def)
qed

lemma open_file:
  assumes "journal_laws io" "journal_id_ok journal" "env_ok env" "records_ok io journal rs"
    "torn_tail io journal rs tail"
  obtains rs' where "journal_open io fresh env (header_line io journal @ lines_of io rs @ tail) =
      (Inr (state_of io journal rs'), header_line io journal @ lines_of io rs')"
    "records_ok io journal rs'" "rs' = rs \<or> (\<exists>r. rs' = rs @ [r] \<and> tail = record_line io r)"
  using assms(1, 2, 5)
proof (cases rule: torn_tail_cases)
  case torn
  then show ?thesis using that [of rs] open_file_torn [OF assms(1, 4, 2, 3) torn] assms(4) by simp
next
  case (complete r)
  have "journal_open io fresh env (header_line io journal @ lines_of io (rs @ [r]) @ []) =
      (Inr (state_of io journal (rs @ [r])), header_line io journal @ lines_of io (rs @ [r]))"
    by (rule open_file_torn [OF assms(1) complete(1) assms(2, 3)]) (simp_all add: max_event_bytes_def)
  then show ?thesis using that [of "rs @ [r]"] complete by simp
qed

section \<open>Appending\<close>

lemma unresolved_iff:
  "i \<in> unresolved_causes g \<longleftrightarrow> i \<in> \<Union> (set ` snd ` set g) \<and> map_of g i = None"
  by (auto simp: unresolved_causes_def)

lemma unresolved_eq: "unresolved_causes g = (\<Union> (set ` snd ` set g)) - set (map fst g)"
  by (rule set_eqI) (simp only: unresolved_iff map_of_None_iff Diff_iff)

lemma unresolved_snoc:
  "map_of g i = None \<Longrightarrow>
     unresolved_causes (g @ [(i, es)]) =
       (unresolved_causes g - {i}) \<union> set (filter (\<lambda>c. map_of (g @ [(i, es)]) c = None) es)"
  by (auto simp: unresolved_iff map_of_None_iff) force

lemma unreferenced_new:
  assumes "i \<notin> unresolved_causes g" "map_of g i = None" "i \<notin> set es"
  shows "\<not> reaches_event i g es []"
proof
  assume "reaches_event i g es []"
  then obtain p where "p \<in> set es" "(p, i) \<in> (causal g)\<^sup>*" by (auto simp: reaches_event_iff)
  moreover from this assms(3) have "p \<noteq> i" by auto
  ultimately obtain q where "(q, i) \<in> causal g" by (meson rtranclE)
  then obtain us where "map_of g q = Some us" "i \<in> set us" by (auto simp: causal_def)
  then have "i \<in> \<Union> (set ` snd ` set g)" by (force dest: map_of_SomeD)
  then show False using assms(1, 2) by (simp add: unresolved_iff)
qed

lemma reaches_event_rev: "reaches_event i g (rev es) [] = reaches_event i g es []"
  by (simp add: reaches_event_iff)

lemma next_record_ok:
  assumes laws: "journal_laws io" and c: "committed io st rs"
    and valid: "event_validate (io_event io) e = Inr ()" and new: "map_of (js_seen st) (ev_id e) = None"
    and causes: "\<not> (ev_id e \<in> js_unresolved st \<and> reaches_event (ev_id e) (js_causes st) (rev (ev_caused_by e)) [])"
    and bytes: "io_record io (next_record st e) = Some bytes" "io_parse_record io bytes \<noteq> None"
  shows "records_ok io (js_id st) (rs @ [next_record st e])"
proof -
  let ?g = "causes_of rs" and ?i = "ev_id e" and ?r = "next_record st e"
  have fresh: "map_of ?g ?i = None" using new c by (simp add: committed_def map_of_None_iff del: set_map)
  have "?i \<notin> set (ev_caused_by e)" using event_validate_causes [OF valid] by blast
  then have "\<not> reaches_event ?i ?g (ev_caused_by e) []"
    using causes c fresh unreferenced_new [of ?i ?g] by (auto simp: committed_def reaches_event_rev)
  then have "acyclic (causal (causes_of (rs @ [?r])))"
    using c acyclic_update [OF fresh, of "ev_caused_by e"] update_new [OF fresh]
    by (simp add: committed_def records_ok_def next_record_def)
  moreover have "record_ok io ?r"
  proof -
    obtain r' where "io_parse_record io bytes = Some r'" using bytes(2) by blast
    moreover from this have "r' = ?r" using laws bytes(1) by (auto simp: journal_laws_def)
    ultimately show ?thesis using valid bytes(1) by (simp add: record_ok_def next_record_def)
  qed
  moreover have "rec_id ?r \<notin> set (map rec_id rs)"
    using fresh by (simp add: map_of_None_iff next_record_def del: set_map)
  ultimately show ?thesis
    using c by (simp add: committed_def records_ok_def) (simp add: next_record_def)
qed

lemma append_event_cases:
  assumes laws: "journal_laws io" and c: "committed io st rs"
    and step: "append_event io fault e st = (res, st')"
  obtains (unchanged) "st' = st"
    | (commit) hash bytes where "(res, st') = commit_event io fault e hash st" "digest io e = Some hash"
        "\<not> js_poisoned st" "map_of (js_seen st) (ev_id e) = None"
        "io_record io (next_record st e) = Some bytes" "io_parse_record io bytes \<noteq> None"
        "records_ok io (js_id st) (rs @ [next_record st e])"
proof (cases "st' = st")
  case False
  then obtain u hash where valid: "event_validate (io_event io) e = Inr u" and h: "digest io e = Some hash"
    and np: "\<not> js_poisoned st"
    using step by (auto simp: append_event_def split: sum.splits option.splits if_splits)
  with False step have new: "map_of (js_seen st) (ev_id e) = None"
    by (auto simp: append_event_def split: option.splits if_splits)
  with False step valid h np
  have causes: "\<not> (ev_id e \<in> js_unresolved st \<and> reaches_event (ev_id e) (js_causes st) (rev (ev_caused_by e)) [])"
    and commit: "(res, st') = commit_event io fault e hash st"
    by (auto simp: append_event_def split: if_splits)
  obtain bytes where b: "io_record io (next_record st e) = Some bytes" "io_parse_record io bytes \<noteq> None"
    using False commit by (auto simp: commit_event_def Let_def split: option.splits if_splits)
  show thesis
    using that(2) [OF commit h np new b] next_record_ok [OF laws c _ new causes b] valid by simp
qed (use that in blast)

lemma index_event_committed:
  assumes c: "js_seen st = seen_of io rs" "js_causes st = causes_of rs" "js_unresolved st = unresolved_causes (causes_of rs)"
    and new: "map_of (js_seen st) (ev_id e) = None" and h: "digest io e = Some hash"
    and r: "rec_event r = e" "pos_offset (rec_position r) = offset"
  shows "js_seen (index_event e offset hash st) = seen_of io (rs @ [r])"
    "js_causes (index_event e offset hash st) = causes_of (rs @ [r])"
    "js_unresolved (index_event e offset hash st) = unresolved_causes (causes_of (rs @ [r]))"
proof -
  have fresh: "map_of (causes_of rs) (ev_id e) = None"
    using new c(1) by (simp add: map_of_None_iff del: set_map)
  show "js_seen (index_event e offset hash st) = seen_of io (rs @ [r])"
    "js_causes (index_event e offset hash st) = causes_of (rs @ [r])"
    using c new fresh h r by (simp_all add: index_event_def Let_def update_new)
  have "map fst (AList.update (ev_id e) (offset, hash) (js_seen st)) = map fst (causes_of (rs @ [r]))"
    using c(1) new r by (simp add: update_new)
  then have "map_of (AList.update (ev_id e) (offset, hash) (js_seen st)) i = None
      \<longleftrightarrow> map_of (causes_of (rs @ [r])) i = None" for i
    unfolding map_of_None_iff by metis
  then show "js_unresolved (index_event e offset hash st) = unresolved_causes (causes_of (rs @ [r]))"
    using unresolved_snoc [OF fresh, of "ev_caused_by e"] c(3) r
    by (simp add: index_event_def Let_def)
qed

lemma committed_append:
  assumes laws: "journal_laws io" and c: "committed io st rs"
    and step: "append_event io fault e st = (res, st')"
  obtains rs' where "committed io st' rs'" "rs' = rs \<or> rs' = rs @ [next_record st e]"
proof (rule append_event_cases [OF assms])
  assume "st' = st"
  then show thesis using that c by blast
next
  fix hash bytes
  let ?r = "next_record st e"
  assume commit: "(res, st') = commit_event io fault e hash st" and h: "digest io e = Some hash"
    and np: "\<not> js_poisoned st" and new: "map_of (js_seen st) (ev_id e) = None"
    and b: "io_record io ?r = Some bytes" "io_parse_record io bytes \<noteq> None"
    and ok: "records_ok io (js_id st) (rs @ [?r])"
  have r: "rec_event ?r = e" "pos_offset (rec_position ?r) = of_nat (length (js_seen st))"
    by (simp_all add: next_record_def)
  have line: "record_line io ?r = bytes @ [newline]" using b by (simp add: record_line_def)
  note idx = index_event_committed [where io = io and rs = rs and r = ?r, OF _ _ _ _ h r]
  show thesis
  proof (cases "js_file st")
    case None
    then have "st' = index_event e (of_nat (length (js_seen st))) hash (st\<lparr>js_memory := js_memory st @ [?r]\<rparr>)"
      using commit b r by (simp add: commit_event_def Let_def)
    then have "committed io st' (rs @ [?r])"
      using c None ok new idx [of "st\<lparr>js_memory := js_memory st @ [?r]\<rparr>"] np
      by (simp add: committed_def) (simp add: index_event_def Let_def)
    then show thesis by (rule that) simp
  next
    case (Some contents)
    then have contents: "contents = header_line io (js_id st) @ lines_of io rs" using c np by (auto simp: committed_def)
    show thesis
    proof (cases fault)
      case None
      let ?st = "st\<lparr>js_file := Some (contents @ bytes @ [newline])\<rparr>"
      have "st' = index_event e (of_nat (length (js_seen st))) hash ?st"
        using commit b r Some None by (simp add: commit_event_def Let_def)
      then have "committed io st' (rs @ [?r])"
        using c Some ok new idx [of ?st] np contents line
        by (simp add: committed_def) (simp add: index_event_def Let_def torn_tail_def)
      then show thesis by (rule that) simp
    next
      case (Some n)
      then have "st' = st\<lparr>js_file := Some (contents @ take n (bytes @ [newline])), js_poisoned := True\<rparr>"
        using commit b \<open>js_file st = Some contents\<close> by (simp add: commit_event_def Let_def)
      moreover have "torn_tail io (js_id st) rs (take n (bytes @ [newline]))"
        unfolding torn_tail_def using ok line by metis
      ultimately have "committed io st' rs"
        using c contents \<open>js_file st = Some contents\<close> by (simp add: committed_def)
      then show thesis by (rule that) simp
    qed
  qed
qed

lemma committed_state_of:
  "records_ok io journal rs \<Longrightarrow> journal_id_ok journal \<Longrightarrow> committed io (state_of io journal rs) rs"
  by (simp add: committed_def state_of_def torn_tail_def)

lemma committed_file_open:
  assumes "journal_laws io" "committed io st rs" "js_file st = Some contents" "env_ok env"
  obtains rs' where "journal_open io fresh env contents =
      (Inr (state_of io (js_id st) rs'), header_line io (js_id st) @ lines_of io rs')"
    "committed io (state_of io (js_id st) rs') rs'"
    "rs' = rs \<or> (\<exists>r. rs' = rs @ [r] \<and> contents = header_line io (js_id st) @ lines_of io rs @ record_line io r)"
proof -
  obtain tail where tail: "contents = header_line io (js_id st) @ lines_of io rs @ tail"
    "torn_tail io (js_id st) rs tail"
    using assms(2, 3) by (auto simp: committed_def)
  have ok: "records_ok io (js_id st) rs" "journal_id_ok (js_id st)"
    using assms(2) by (simp_all add: committed_def)
  from open_file [OF assms(1) ok(2) assms(4) ok(1) tail(2), of fresh] obtain rs' where
    "journal_open io fresh env contents =
       (Inr (state_of io (js_id st) rs'), header_line io (js_id st) @ lines_of io rs')"
    "records_ok io (js_id st) rs'" "rs' = rs \<or> (\<exists>r. rs' = rs @ [r] \<and> tail = record_line io r)"
    unfolding tail(1) by blast
  then show thesis using that [of rs'] committed_state_of [OF _ ok(2)] tail(1) by blast
qed

section \<open>Histories\<close>

text \<open>
  A journal starts in memory or on an empty file. Its history is a sequence of appends, each
  of which may fail after any number of bytes, and of reopenings of whatever is in the file.
\<close>

definition journal_init :: "('j, 'h) journal_io \<Rightarrow> ('j, 'h) journal_state \<Rightarrow> bool" where
  "journal_init io st \<longleftrightarrow>
     (\<exists>i. journal_id_ok i \<and>
        (st = journal_memory i \<or> (\<exists>env c. journal_open io i env [] = (Inr st, c))))"

inductive journal_step :: "('j, 'h) journal_io \<Rightarrow> ('j, 'h) journal_state \<Rightarrow> ('j, 'h) journal_state \<Rightarrow> bool"
  for io where
  append: "append_event io fault e st = (res, st') \<Longrightarrow> journal_step io st st'"
| reopen: "js_file st = Some c \<Longrightarrow> env_ok env \<Longrightarrow> journal_open io i env c = (Inr st', c')
     \<Longrightarrow> journal_step io st st'"

inductive_cases journal_stepE: "journal_step io st st'"

lemma records_ok_Nil: "records_ok io journal []"
  by (simp add: records_ok_def positions_from_def causal_def acyclic_def)

lemma open_empty: "journal_open io i env [] = (Inr st, c) \<Longrightarrow> st = state_of io i []"
  by (auto simp: journal_open_def open_contents_def state_of_def unresolved_causes_def res_simps
      split: sum.splits option.splits)

lemma committed_init:
  assumes "journal_init io st"
  shows "committed io st []"
proof -
  obtain i where i: "journal_id_ok i" "st = journal_memory i \<or> st = state_of io i []"
    using assms by (auto simp: journal_init_def dest!: open_empty)
  moreover have "committed io (journal_memory i) []"
    using i(1) records_ok_Nil by (simp add: committed_def journal_memory_def unresolved_causes_def)
  ultimately show ?thesis using committed_state_of [OF records_ok_Nil] by auto
qed

lemma committed_step:
  assumes "journal_laws io" "committed io st rs" "journal_step io st st'"
  shows "\<exists>es. committed io st' (rs @ es)"
  using assms(3)
proof (cases rule: journal_step.cases)
  case (append fault e res)
  from committed_append [OF assms(1, 2) append] show ?thesis by (metis append_Nil2)
next
  case (reopen c env i c')
  from committed_file_open [OF assms(1, 2) reopen(1, 2), of i] reopen(3) show ?thesis
    by (metis append_Nil2 fst_conv sum.inject(2))
qed

interpretation journal: state_machine "\<lambda>st. journal_laws io \<and> journal_init io st" "journal_step io"
  "\<lambda>st. journal_laws io \<and> (\<exists>rs. committed io st rs)" for io
  by unfold_locales (use committed_init committed_step in \<open>blast+\<close>)

text \<open>What a step keeps: the identity, the kind of storage, and every position ever given.\<close>

lemma append_keeps:
  assumes "append_event io fault e st = (res, st')"
  shows "js_id st' = js_id st" "js_durability st' = js_durability st"
    "map_of (js_seen st) i = Some v \<Longrightarrow> map_of (js_seen st') i = Some v"
  using assms
  by (auto simp: append_event_def commit_event_def index_event_def Let_def js_durability_def update_conv
      split: sum.splits option.splits if_splits)

lemma open_keeps:
  assumes "journal_laws io" "committed io st rs" "js_file st = Some c" "env_ok env"
    "journal_open io i env c = (Inr st', c')"
  shows "js_id st' = js_id st" "js_durability st' = js_durability st"
    "map_of (js_seen st) k = Some v \<Longrightarrow> map_of (js_seen st') k = Some v"
proof -
  from committed_file_open [OF assms(1-4), of i] obtain rs' where rs':
    "st' = state_of io (js_id st) rs'" "rs' = rs \<or> (\<exists>r. rs' = rs @ [r])"
    using assms(5) by auto
  then show "js_id st' = js_id st" "js_durability st' = js_durability st"
    using assms(3) by (auto simp: state_of_def js_durability_def)
  have "js_seen st = seen_of io rs" using assms(2) by (simp add: committed_def)
  then show "map_of (js_seen st) k = Some v \<Longrightarrow> map_of (js_seen st') k = Some v"
    using rs' by (auto simp: state_of_def map_add_Some_iff)
qed

lemma steps_keep:
  assumes laws: "journal_laws io" and c: "committed io st rs" and steps: "(journal_step io)\<^sup>*\<^sup>* st st'"
  shows "(\<exists>rs'. committed io st' rs') \<and> js_id st' = js_id st \<and> js_durability st' = js_durability st
    \<and> (\<forall>i v. map_of (js_seen st) i = Some v \<longrightarrow> map_of (js_seen st') i = Some v)"
  using steps
proof (induction rule: rtranclp_induct)
  case base
  then show ?case using c by blast
next
  case (step u w)
  then obtain us where us: "committed io u us" by blast
  from step(2) have "js_id w = js_id u \<and> js_durability w = js_durability u
      \<and> (\<forall>i v. map_of (js_seen u) i = Some v \<longrightarrow> map_of (js_seen w) i = Some v)"
    by (cases rule: journal_step.cases) (use append_keeps open_keeps [OF laws us] in \<open>metis\<close>)+
  then show ?case using committed_step [OF laws us step(2)] step(3) by auto
qed

lemma state_of_live: "\<not> js_poisoned (state_of io i rs)"
  by (simp add: state_of_def)

lemma append_receipt:
  assumes "append_event io fault e st = (Inr receipt, st')"
  obtains offset hash where "event_validate (io_event io) e = Inr ()" "digest io e = Some hash"
    "map_of (js_seen st') (ev_id e) = Some (offset, hash)" "receipt = js_receipt st' (ev_id e) offset"
  using assms
  by (auto simp: append_event_def commit_event_def index_event_def next_record_def Let_def js_receipt_def
      js_durability_def update_conv split: sum.splits option.splits if_splits)

lemma commit_fault:
  assumes "journal_laws io" "committed io st rs"
    and "append_event io (Some n) e st = (Inl (Unknown m), st')" "\<not> js_poisoned st"
  obtains hash bytes contents where
    "digest io e = Some hash" "map_of (js_seen st) (ev_id e) = None" "event_validate (io_event io) e = Inr ()"
    "\<not> (ev_id e \<in> js_unresolved st \<and> reaches_event (ev_id e) (js_causes st) (rev (ev_caused_by e)) [])"
    "io_record io (next_record st e) = Some bytes" "io_parse_record io bytes \<noteq> None"
    "js_file st = Some contents"
    "st' = st\<lparr>js_file := Some (contents @ take n (bytes @ [newline])), js_poisoned := True\<rparr>"
  using assms(3, 4)
  by (auto simp: append_event_def commit_event_def Let_def split: sum.splits option.splits if_splits)

text \<open>A retry on the journal as it was before the write, and on the journal that has the record.\<close>

lemma commit_live:
  "fst (commit_event io fault e hash (st\<lparr>js_live := l\<rparr>)) = fst (commit_event io fault e hash st)"
  "snd (commit_event io fault e hash (st\<lparr>js_live := l\<rparr>))\<lparr>js_live := []\<rparr> =
     snd (commit_event io fault e hash st)\<lparr>js_live := []\<rparr>"
  unfolding commit_event_def index_event_def next_record_def js_receipt_def js_durability_def Let_def
  by (auto split: option.split)

lemma append_live:
  "fst (append_event io fault e (st\<lparr>js_live := l\<rparr>)) = fst (append_event io fault e st)"
  "snd (append_event io fault e (st\<lparr>js_live := l\<rparr>))\<lparr>js_live := []\<rparr> =
     snd (append_event io fault e st)\<lparr>js_live := []\<rparr>"
  unfolding append_event_def js_receipt_def js_durability_def
  by (auto simp: commit_live split: sum.split option.split)

lemma state_of_committed:
  "committed io st rs \<Longrightarrow> js_file st = Some c \<Longrightarrow> \<not> js_poisoned st \<Longrightarrow>
     state_of io (js_id st) rs = st\<lparr>js_live := []\<rparr>"
  by (auto simp: committed_def state_of_def)

lemma retry_after:
  assumes c: "committed io st rs" "js_file st = Some contents" "\<not> js_poisoned st"
    and f: "digest io e = Some hash" "map_of (js_seen st) (ev_id e) = None" "event_validate (io_event io) e = Inr ()"
      "\<not> (ev_id e \<in> js_unresolved st \<and> reaches_event (ev_id e) (js_causes st) (rev (ev_caused_by e)) [])"
      "io_record io (next_record st e) = Some bytes" "io_parse_record io bytes \<noteq> None"
    and contents: "contents = header_line io (js_id st) @ lines_of io rs"
  defines "re \<equiv> state_of io (js_id st) (rs @ [next_record st e])"
  shows "fst (append_event io None e re) = fst (append_event io None e st)"
    "snd (append_event io None e re)\<lparr>js_live := []\<rparr> = snd (append_event io None e st)\<lparr>js_live := []\<rparr>"
proof -
  let ?r = "next_record st e" and ?off = "of_nat (length (js_seen st)) :: u64"
  let ?st = "st\<lparr>js_file := Some (contents @ bytes @ [newline])\<rparr>"
  have r: "rec_event ?r = e" "pos_offset (rec_position ?r) = ?off" by (simp_all add: next_record_def)
  have first: "append_event io None e st = (Inr (js_receipt st (ev_id e) ?off), index_event e ?off hash ?st)"
    using c f r by (simp add: append_event_def commit_event_def Let_def)
  have "map_of (js_seen re) (ev_id e) = Some (?off, hash)"
    using c(1) f(1, 2) r by (simp add: re_def state_of_def committed_def map_add_def)
  then have second: "append_event io None e re = (Inr (js_receipt re (ev_id e) ?off), re)"
    using f by (simp add: append_event_def re_def state_of_def)
  have "index_event e ?off hash ?st\<lparr>js_live := []\<rparr> = re"
    using index_event_committed [where io = io and rs = rs and r = ?r and st = ?st, OF _ _ _ _ f(1) r] c f contents
    by (simp add: re_def state_of_def committed_def record_line_def) (simp add: index_event_def Let_def)
  then show "snd (append_event io None e re)\<lparr>js_live := []\<rparr> = snd (append_event io None e st)\<lparr>js_live := []\<rparr>"
    using first second by (simp add: re_def state_of_def)
  show "fst (append_event io None e re) = fst (append_event io None e st)"
    using first second c(2) by (simp add: js_receipt_def re_def state_of_def js_durability_def)
qed

section \<open>Properties\<close>

text \<open>
  C19. Whatever is appended, in whatever order, however many writes fail part-way and however
  often the file is reopened: the journal holds every event once, at consecutive positions
  from zero, its causal graph has no cycle, and the pending forward references it tracks are
  exactly the causes not yet recorded.
\<close>

theorem journal_reachable_invariant:
  assumes "journal_laws io" "journal_init io st0" "(journal_step io)\<^sup>*\<^sup>* st0 st"
  shows "distinct (map fst (js_seen st)) \<and> map (fst \<circ> snd) (js_seen st) = map of_nat [0..<length (js_seen st)]
    \<and> map fst (js_causes st) = map fst (js_seen st) \<and> acyclic (causal (js_causes st))
    \<and> js_unresolved st = (\<Union> (set ` snd ` set (js_causes st))) - set (map fst (js_causes st))"
proof -
  obtain rs where rs: "committed io st rs" using journal.inv_reachable [of io st0 st] assms by blast
  then have "map (fst \<circ> snd) (js_seen st) = map of_nat [0..<length (js_seen st)]"
    by (intro nth_equalityI) (auto simp: committed_def records_ok_def positions_from_def seen_of_def)
  then show ?thesis
    using rs by (simp add: committed_def records_ok_def unresolved_eq del: set_map)
qed

text \<open>
  C14. Reopening restores the journal: the bytes an unfailed history left in the file open to
  exactly the state that was in memory, unchanged on disk, and reading the closed file gives
  the records of the running journal, with their identities in order.
\<close>

theorem journal_reopen_roundtrip:
  assumes "journal_laws io" "journal_init io st0" "(journal_step io)\<^sup>*\<^sup>* st0 st"
    and "js_file st = Some c" "\<not> js_poisoned st" "env_ok env"
  shows "journal_open io i env c = (Inr (st\<lparr>js_live := []\<rparr>), c)
    \<and> (\<exists>rs. journal_read io env c = Inr rs \<and> journal_records io st = Inr rs
         \<and> map (\<lambda>r. ev_id (rec_event r)) rs = map fst (js_seen st))"
proof -
  obtain rs where rs: "committed io st rs" using journal.inv_reachable [of io st0 st] assms(1-3) by blast
  then have ok: "records_ok io (js_id st) rs" "journal_id_ok (js_id st)"
    and c: "c = header_line io (js_id st) @ lines_of io rs @ []"
    using assms(4, 5) by (auto simp: committed_def)
  have tail: "newline \<notin> set []" "int (length []) < max_event_bytes + 4096"
    by (simp_all add: max_event_bytes_def)
  have "journal_open io i env c = (Inr (st\<lparr>js_live := []\<rparr>), c)"
    using open_file_torn [OF assms(1) ok assms(6) tail] c state_of_committed [OF rs assms(4, 5)] by simp
  moreover have "scan io False True c = Inr (js_id st, rs, c)"
    using scan_file [OF assms(1) ok tail] c by simp
  ultimately show ?thesis
    using assms(4-6) rs by (auto simp: journal_read_def journal_records_def open_journal_file_def env_ok_def
        ensure_def committed_def)
qed

text \<open>
  C2. Crash and retry is exactly once. When the write of an event fails after any number of
  bytes, reopening the file always succeeds, and appending the event again returns the very
  receipt, and leaves the very journal and file, that the append would have given had it not
  failed: the event is neither lost nor recorded twice.
\<close>

theorem crash_retry_exactly_once:
  assumes "journal_laws io" "journal_init io st0" "(journal_step io)\<^sup>*\<^sup>* st0 st" "\<not> js_poisoned st"
    and "append_event io (Some n) e st = (Inl (Unknown m), st')" "js_file st' = Some c" "env_ok env"
  shows "\<exists>re c'. journal_open io i env c = (Inr re, c')
    \<and> fst (append_event io None e re) = fst (append_event io None e st)
    \<and> snd (append_event io None e re)\<lparr>js_live := []\<rparr> = snd (append_event io None e st)\<lparr>js_live := []\<rparr>"
proof -
  obtain rs where rs: "committed io st rs" using journal.inv_reachable [of io st0 st] assms(1-3) by blast
  from commit_fault [OF assms(1) rs assms(5, 4)] obtain hash bytes contents where
    f: "digest io e = Some hash" "map_of (js_seen st) (ev_id e) = None" "event_validate (io_event io) e = Inr ()"
      "\<not> (ev_id e \<in> js_unresolved st \<and> reaches_event (ev_id e) (js_causes st) (rev (ev_caused_by e)) [])"
      "io_record io (next_record st e) = Some bytes" "io_parse_record io bytes \<noteq> None"
      "js_file st = Some contents"
      "st' = st\<lparr>js_file := Some (contents @ take n (bytes @ [newline])), js_poisoned := True\<rparr>" by blast
  let ?r = "next_record st e" and ?j = "js_id st"
  have ok: "records_ok io ?j rs" "journal_id_ok ?j" and contents: "contents = header_line io ?j @ lines_of io rs"
    using rs f(7) assms(4) by (auto simp: committed_def)
  have line: "record_line io ?r = bytes @ [newline]" using f(5) by (simp add: record_line_def)
  have next_ok: "records_ok io ?j (rs @ [?r])" by (rule next_record_ok [OF assms(1) rs f(3, 2, 4, 5, 6)])
  have c: "c = header_line io ?j @ lines_of io rs @ take n (record_line io ?r)"
    using assms(6) f(8) contents line by simp
  show ?thesis
  proof (cases "n \<le> length bytes")
    case True
    have "record_ok io ?r" "journal_id_ok (pos_journal (rec_position ?r))"
      using next_ok ok(2) by (simp_all add: records_ok_def)
    from record_ok_line [OF assms(1) this] have "newline \<notin> set bytes" "int (length bytes) < max_event_bytes + 4096"
      using f(5) by (metis option.inject)+
    then have tail: "newline \<notin> set (take n bytes)" "int (length (take n bytes)) < max_event_bytes + 4096"
      by (auto dest: in_set_takeD)
    have "take n (record_line io ?r) = take n bytes" using True line by simp
    then have "journal_open io i env c = (Inr (state_of io ?j rs), contents)"
      using open_file_torn [OF assms(1) ok assms(7) tail] c contents by simp
    then show ?thesis using append_live [where st = st and l = "[]"] state_of_committed [OF rs f(7) assms(4)] by simp
  next
    case False
    have "c = header_line io ?j @ lines_of io (rs @ [?r]) @ []" using c line False by simp
    then have open_eq: "journal_open io i env c =
        (Inr (state_of io ?j (rs @ [?r])), header_line io ?j @ lines_of io (rs @ [?r]))"
      using open_file_torn [OF assms(1) next_ok ok(2) assms(7), of "[]"] by (simp add: max_event_bytes_def)
    show ?thesis using open_eq retry_after [OF rs f(7) assms(4) f(1, 2, 3, 4, 5, 6) contents] by blast
  qed
qed

text \<open>
  C33. A receipt is for good. Once an event has a receipt, then after any further history,
  failed writes and reopenings included, every append of it returns the same receipt, writes
  nothing and notifies nobody, and every event that reuses its identity with other content is
  rejected, as long as the handle is not poisoned by a failed write. A poisoned handle refuses all of these
  as unknown and changes nothing; reopening the file always succeeds then, and gives
  the receipt again.
\<close>

theorem receipt_is_stable:
  assumes "journal_laws io" "journal_init io st0" "(journal_step io)\<^sup>*\<^sup>* st0 st"
    and "append_event io fault e st = (Inr receipt, st')" "(journal_step io)\<^sup>*\<^sup>* st' later"
  shows "append_event io fault' e later =
      (if js_poisoned later then Inl (Unknown ''previous write failed'') else Inr receipt, later)
    \<and> (\<forall>e'. ev_id e' = ev_id e \<and> event_validate (io_event io) e' = Inr () \<and> digest io e' \<noteq> digest io e \<longrightarrow>
         append_event io fault' e' later =
           (Inl (if js_poisoned later then Unknown ''previous write failed''
                 else Rejected ''event identity has different content''), later))
    \<and> (\<forall>c env i. js_file later = Some c \<and> env_ok env \<longrightarrow>
         (\<exists>re c'. journal_open io i env c = (Inr re, c') \<and> append_event io fault' e re = (Inr receipt, re)))"
proof -
  obtain rs where rs: "committed io st rs" using journal.inv_reachable [of io st0 st] assms(1-3) by blast
  have "journal_step io st st'" using assms(4) by (rule journal_step.append)
  then obtain rs' where rs': "committed io st' rs'" using committed_step [OF assms(1) rs] by blast
  from append_receipt [OF assms(4)] obtain offset hash where
    v: "event_validate (io_event io) e = Inr ()" "digest io e = Some hash"
      "map_of (js_seen st') (ev_id e) = Some (offset, hash)" "receipt = js_receipt st' (ev_id e) offset"
    by blast
  have keep: "js_id s = js_id st' \<and> js_durability s = js_durability st'
      \<and> map_of (js_seen s) (ev_id e) = Some (offset, hash)" if "(journal_step io)\<^sup>*\<^sup>* st' s" for s
    using steps_keep [OF assms(1) rs' that] v(3) by blast
  have "append_event io fault' e later =
      (if js_poisoned later then Inl (Unknown ''previous write failed'') else Inr receipt, later)"
    using v keep [OF assms(5)] by (simp add: append_event_def js_receipt_def)
  moreover have "append_event io fault' e' later =
      (Inl (if js_poisoned later then Unknown ''previous write failed''
            else Rejected ''event identity has different content''), later)"
    if other: "ev_id e' = ev_id e" "event_validate (io_event io) e' = Inr ()" "digest io e' \<noteq> digest io e" for e'
  proof -
    obtain hash' where "digest io e' = Some hash'" using event_validate_bytes [OF other(2)] by (auto simp: digest_def)
    then show ?thesis using other v(2) keep [OF assms(5)] by (simp add: append_event_def)
  qed
  moreover have "\<exists>re c'. journal_open io i env c = (Inr re, c') \<and> append_event io fault' e re = (Inr receipt, re)"
    if c: "js_file later = Some c" "env_ok env" for c env i
  proof -
    obtain ls where "committed io later ls" using steps_keep [OF assms(1) rs' assms(5)] by blast
    from committed_file_open [OF assms(1) this c, of i] obtain re c' where
      re: "journal_open io i env c = (Inr re, c')" "\<not> js_poisoned re"
      by (metis prod.collapse state_of_live)
    have "(journal_step io)\<^sup>*\<^sup>* st' re" using assms(5) journal_step.reopen [OF c re(1)] by simp
    from keep [OF this] show ?thesis using v re by (auto simp: append_event_def js_receipt_def)
  qed
  ultimately show ?thesis by blast
qed

text \<open>
  C34. What a failed append means. A rejection changes nothing at all. An unknown outcome
  issues no receipt and no notification, keeps the indexes, and poisons the handle: until
  the file is reopened no append succeeds, and neither records nor a snapshot are given out.
\<close>

theorem append_failure_contract:
  assumes "append_event io fault e st = (Inl err, st')"
  shows "case err of
           Rejected m \<Rightarrow> st' = st
         | Unknown m \<Rightarrow>
             js_poisoned st' \<and> js_seen st' = js_seen st \<and> js_live st' = js_live st
             \<and> isl (journal_records io st') \<and> isl (fst (snapshot_to copied max_bytes st'))
             \<and> isl (fst (append_event io fault' e' st')) \<and> snd (append_event io fault' e' st') = st'"
proof -
  have poisoned: "isl (journal_records io s) \<and> isl (fst (snapshot_to copied max_bytes s))
      \<and> isl (fst (append_event io fault' e' s)) \<and> snd (append_event io fault' e' s) = s"
    if "js_poisoned s" for s :: "('a, 'b) journal_state"
    using that by (simp add: journal_records_def snapshot_to_def append_event_def ensure_def
        split: sum.split option.split)
  have "case err of Rejected m \<Rightarrow> st' = st
      | Unknown m \<Rightarrow> js_poisoned st' \<and> js_seen st' = js_seen st \<and> js_live st' = js_live st"
    using assms by (auto simp: append_event_def commit_event_def Let_def
        split: sum.splits option.splits if_splits)
  then show ?thesis using poisoned [of st'] by (cases err) simp_all
qed

section \<open>An instance\<close>

text \<open>A header encoding that escapes newline, comma and backslash; one readable record.\<close>

fun esc :: "rstr \<Rightarrow> rstr" where
  "esc [] = []"
| "esc (c # s) =
     (if c = newline then [CHR 0x5C, CHR ''n'']
      else if c = CHR 0x5C \<or> c = CHR '','' then [CHR 0x5C, c] else [c]) @ esc s"

fun field :: "rstr \<Rightarrow> (rstr \<times> rstr) option" where
  "field [] = None"
| "field (c # s) =
     (if c = CHR '','' then Some ([], s)
      else if c = CHR 0x5C then
        (case s of [] \<Rightarrow> None
         | d # s' \<Rightarrow> map_option (\<lambda>(a, b). ((if d = CHR ''n'' then newline else d) # a, b)) (field s'))
      else map_option (\<lambda>(a, b). (c # a, b)) (field s))"

lemma field_esc: "field (esc s @ CHR '','' # rest) = Some (s, rest)"
  by (induction s) auto

lemma esc_newline: "newline \<notin> set (esc s)"
  by (induction s) auto

lemma esc_length: "length (esc s) \<le> 2 * length s"
  by (induction s) auto

definition ex_event :: "unit event" where
  "ex_event = trace_event ''e1'' 7 \<lparr>tr_id = ''t'', tr_producer = ''p''\<rparr> [''run''] None None [''e0'']
     (FactObservation ''d'' ''n'' 1 ())"

definition ex_record :: "unit record_entry" where
  "ex_record = \<lparr>rec_position = \<lparr>pos_journal = ''j'', pos_offset = 0\<rparr>, rec_event = ex_event\<rparr>"

definition ex_io :: "(unit, rstr) journal_io" where
  "ex_io =
     \<lparr>io_event = (\<lambda>e. Some (ev_id e @ ev_trace_id e)),
      io_record = (\<lambda>r. Some (if r = ex_record then ''R'' else ''X'')),
      io_parse_record = (\<lambda>s. if s = ''R'' \<or> s = ''R'' @ [newline] then Some ex_record else None),
      io_header = (\<lambda>h. esc (jh_format h) @ CHR '','' # esc (jh_journal h) @ '',''),
      io_parse_header = (\<lambda>s. case field s of
          None \<Rightarrow> None
        | Some (format, s') \<Rightarrow>
            (case field s' of
               None \<Rightarrow> None
             | Some (journal, s'') \<Rightarrow>
                 if s'' = [newline] then Some \<lparr>jh_format = format, jh_journal = journal\<rparr> else None)),
      io_sha = (\<lambda>s. s)\<rparr>"

lemma ex_io_laws: "journal_laws ex_io"
proof -
  have "int (length (esc a @ CHR '','' # esc b @ '','')) \<le> 6 * int (length a) + 6 * int (length b) + 128" for a b
    using esc_length [of a] esc_length [of b] by simp
  moreover have "field (esc b @ '','' @ [newline]) = Some (b, [newline])" for b
    using field_esc [of b "[newline]"] by simp
  ultimately show ?thesis
    by (simp add: journal_laws_def ex_io_def field_esc esc_newline)
qed

definition ex_env :: open_env where
  "ex_env = \<lparr>oe_directory = True, oe_opened = True, oe_regular = True, oe_permissions = True,
     oe_unlocked = True, oe_header_fault = None, oe_truncated = True,
     oe_truncation_synced = True, oe_synced = True\<rparr>"

definition ex_open :: "(unit, rstr) journal_state" where
  "ex_open = state_of ex_io ''j'' []"

definition ex_after :: "(unit, rstr) journal_state" where
  "ex_after = snd (append_event ex_io None ex_event ex_open)"

lemma ex_env_ok: "env_ok ex_env"
  by (simp add: env_ok_def ex_env_def)

lemma ex_init: "journal_init ex_io ex_open"
proof -
  have "journal_id_ok ''j''" "journal_open ex_io ''j'' ex_env [] = (Inr ex_open, header_line ex_io ''j'')"
    by (simp_all add: journal_id_ok_def journal_open_def ex_env_def open_journal_file_def open_contents_def
        ensure_def ex_open_def state_of_def unresolved_causes_def)
  then show ?thesis unfolding journal_init_def by blast
qed

lemma ex_valid: "event_validate (io_event ex_io) ex_event = Inr ()"
  by code_simp

lemma ex_next: "next_record ex_open ex_event = ex_record"
  by (simp add: next_record_def ex_open_def state_of_def ex_record_def)

lemma ex_append:
  "append_event ex_io None ex_event ex_open = (Inr (js_receipt ex_open ''e1'' 0), ex_after)"
  "append_event ex_io (Some n) ex_event ex_open =
     (Inl (Unknown ''write failed''),
      ex_open\<lparr>js_file := Some (header_line ex_io ''j'' @ take n (''R'' @ [newline])), js_poisoned := True\<rparr>)"
  "ex_after = index_event ex_event 0 ''e1t'' (ex_open\<lparr>js_file := Some (header_line ex_io ''j'' @ ''R'' @ [newline])\<rparr>)"
proof -
  have id: "ev_id ex_event = ''e1''" by (simp add: ex_event_def trace_event_def)
  have d: "digest ex_io ex_event = Some ''e1t''"
    by (simp add: digest_def ex_io_def ex_event_def trace_event_def)
  have r: "io_record ex_io ex_record = Some ''R''" "io_parse_record ex_io ''R'' = Some ex_record"
    by (simp_all add: ex_io_def)
  have st: "js_poisoned ex_open = False" "js_seen ex_open = []" "js_unresolved ex_open = {}"
    "js_file ex_open = Some (header_line ex_io ''j'')" "js_id ex_open = ''j''"
    by (simp_all add: ex_open_def state_of_def unresolved_causes_def)
  have pos: "pos_offset (rec_position ex_record) = 0" by (simp add: ex_record_def)
  show "append_event ex_io None ex_event ex_open = (Inr (js_receipt ex_open ''e1'' 0), ex_after)"
    by (simp add: ex_after_def append_event_def commit_event_def ex_valid d id st ex_next r pos Let_def)
  show "append_event ex_io (Some n) ex_event ex_open =
     (Inl (Unknown ''write failed''),
      ex_open\<lparr>js_file := Some (header_line ex_io ''j'' @ take n (''R'' @ [newline])), js_poisoned := True\<rparr>)"
    by (simp add: append_event_def commit_event_def ex_valid d id st ex_next r pos Let_def)
  show "ex_after = index_event ex_event 0 ''e1t''
      (ex_open\<lparr>js_file := Some (header_line ex_io ''j'' @ ''R'' @ [newline])\<rparr>)"
    by (simp add: ex_after_def append_event_def commit_event_def ex_valid d id st ex_next r pos Let_def)
qed

lemma ex_reachable: "(journal_step ex_io)\<^sup>*\<^sup>* ex_open ex_after"
  using ex_append(1) by (intro r_into_rtranclp journal_step.append)

lemma ex_after_facts:
  "\<not> js_poisoned ex_after" "js_file ex_after = Some (header_line ex_io ''j'' @ ''R'' @ [newline])"
  by (simp_all add: ex_append(3) index_event_def ex_open_def state_of_def)

theorem journal_reachable_invariant_witness:
  "map (fst \<circ> snd) (js_seen ex_after) = map of_nat [0..<length (js_seen ex_after)]
   \<and> acyclic (causal (js_causes ex_after))"
  using journal_reachable_invariant [OF ex_io_laws ex_init ex_reachable] by blast

theorem journal_reopen_roundtrip_witness:
  "journal_open ex_io ''k'' ex_env (header_line ex_io ''j'' @ ''R'' @ [newline]) =
     (Inr (ex_after\<lparr>js_live := []\<rparr>), header_line ex_io ''j'' @ ''R'' @ [newline])"
  using journal_reopen_roundtrip [OF ex_io_laws ex_init ex_reachable ex_after_facts(2, 1) ex_env_ok]
  by simp

theorem crash_retry_exactly_once_witness:
  "\<exists>re c'. journal_open ex_io ''k'' ex_env (header_line ex_io ''j'' @ ''R'') = (Inr re, c')
    \<and> fst (append_event ex_io None ex_event re) = Inr (js_receipt ex_open ''e1'' 0)"
proof -
  let ?st = "ex_open\<lparr>js_file := Some (header_line ex_io ''j'' @ ''R''), js_poisoned := True\<rparr>"
  have fail: "append_event ex_io (Some 1) ex_event ex_open = (Inl (Unknown ''write failed''), ?st)"
    using ex_append(2) [of 1] by simp
  have "\<not> js_poisoned ex_open" by (simp add: ex_open_def state_of_def)
  then have "\<exists>re c'. journal_open ex_io ''k'' ex_env (header_line ex_io ''j'' @ ''R'') = (Inr re, c')
      \<and> fst (append_event ex_io None ex_event re) = fst (append_event ex_io None ex_event ex_open)"
    using crash_retry_exactly_once [OF ex_io_laws ex_init rtranclp.rtrancl_refl _ fail _ ex_env_ok, of _ "''k''"]
    by auto
  then show ?thesis using ex_append(1) by simp
qed

definition ex_other :: "unit event" where
  "ex_other = ex_event\<lparr>ev_trace_id := ''other''\<rparr>"

theorem receipt_is_stable_witness:
  "append_event ex_io None ex_event ex_after = (Inr (js_receipt ex_open ''e1'' 0), ex_after)
   \<and> append_event ex_io None ex_other ex_after =
       (Inl (Rejected ''event identity has different content''), ex_after)
   \<and> (\<exists>re c'. journal_open ex_io ''k'' ex_env (header_line ex_io ''j'' @ ''R'' @ [newline]) = (Inr re, c')
        \<and> append_event ex_io None ex_event re = (Inr (js_receipt ex_open ''e1'' 0), re))"
proof -
  have "ev_id ex_other = ev_id ex_event" "digest ex_io ex_other \<noteq> digest ex_io ex_event"
    by (simp_all add: ex_other_def ex_event_def trace_event_def digest_def ex_io_def)
  moreover have "event_validate (io_event ex_io) ex_other = Inr ()" by code_simp
  ultimately show ?thesis
    using receipt_is_stable [OF ex_io_laws ex_init rtranclp.rtrancl_refl ex_append(1) rtranclp.rtrancl_refl, of None]
      ex_after_facts ex_env_ok by simp
qed

theorem append_failure_contract_witness:
  "isl (fst (append_event ex_io None ex_event
     (ex_open\<lparr>js_file := Some (header_line ex_io ''j'' @ ''R''), js_poisoned := True\<rparr>)))"
  using append_failure_contract [OF ex_append(2) [of 1], of None 0 None ex_event] by simp

end
