(* ===== verification/Persistence.thy ===== *)
theory Persistence
  imports Prelude
begin

text \<open>
  Durable files (\<open>crates/pvisor-journal/src/persistence.rs\<close>): creation of a directory tree
  with a sync barrier per new entry, and the atomic replacement of a file.

  The file system is the set of directories and the files with their mode and bytes, as other
  processes see them. What the operating system answers is an argument: where the creation of
  a tree stops, which directory barriers fail, and which of the steps of a replacement fails,
  with how many bytes in the temporary file. A time stamp is not modelled; the report of a step
  is its name and whether it succeeded.
\<close>

record dpath =
  dp_absolute :: bool
  dp_components :: "rstr list"

text \<open>\<open>Path::parent\<close>; the parent of a bare file name is the empty path.\<close>

definition dp_parent :: "dpath \<Rightarrow> dpath option" where
  "dp_parent p =
     (if dp_components p = [] then None else Some (p\<lparr>dp_components := butlast (dp_components p)\<rparr>))"

definition dp_empty :: "dpath \<Rightarrow> bool" where
  "dp_empty p \<longleftrightarrow> \<not> dp_absolute p \<and> dp_components p = []"

definition dp_dot :: dpath where
  "dp_dot = \<lparr>dp_absolute = False, dp_components = [''.'']\<rparr>"

definition dp_join :: "dpath \<Rightarrow> rstr \<Rightarrow> dpath" where
  "dp_join p name = p\<lparr>dp_components := dp_components p @ [name]\<rparr>"

record fs_state =
  fs_dirs :: "dpath set"
  fs_files :: "dpath \<Rightarrow> (u32 \<times> rstr) option"

datatype write_fault = CreateFails | PermissionsFail | WriteFails nat

record durable_env =
  de_created :: "nat option"
  de_sync :: "dpath \<Rightarrow> bool"
  de_write :: "write_fault option"
  de_file_sync :: bool
  de_rename :: bool
  de_remove :: bool

definition fs_exists :: "fs_state \<Rightarrow> dpath \<Rightarrow> bool" where
  "fs_exists fs p \<longleftrightarrow> p \<in> fs_dirs fs \<or> fs_files fs p \<noteq> None"

section \<open>Directory trees\<close>

function missing_dirs :: "fs_state \<Rightarrow> dpath \<Rightarrow> dpath list" where
  "missing_dirs fs cursor =
     (if fs_exists fs cursor then []
      else cursor #
        (case dp_parent cursor of
           None \<Rightarrow> []
         | Some parent \<Rightarrow> if dp_empty parent then [] else missing_dirs fs parent))"
  by pat_completeness auto
termination
  by (relation "measure (\<lambda>(_, p). length (dp_components p))") (auto simp: dp_parent_def split: if_splits)

declare missing_dirs.simps [simp del]

text \<open>\<open>create_dir_all\<close>: the missing directories from the topmost one, all of them or the first few.\<close>

definition create_dir_all :: "durable_env \<Rightarrow> dpath list \<Rightarrow> fs_state \<Rightarrow> bool \<times> fs_state" where
  "create_dir_all env missing fs =
     (case de_created env of
        None \<Rightarrow> (True, fs\<lparr>fs_dirs := fs_dirs fs \<union> set missing\<rparr>)
      | Some k \<Rightarrow> (False, fs\<lparr>fs_dirs := fs_dirs fs \<union> set (take k (rev missing))\<rparr>))"

text \<open>Barriers in order, stopping at the first that fails; the second part lists those attempted.\<close>

fun sync_all_dirs :: "durable_env \<Rightarrow> dpath list \<Rightarrow> bool \<times> dpath list" where
  "sync_all_dirs env [] = (True, [])"
| "sync_all_dirs env (d # ds) =
     (if de_sync env d then (let (ok, tried) = sync_all_dirs env ds in (ok, d # tried))
      else (False, [d]))"

text \<open>The directory whose sync commits the entry of \<open>d\<close>.\<close>

definition barrier :: "dpath \<Rightarrow> dpath" where
  "barrier d =
     (case dp_parent d of None \<Rightarrow> dp_dot | Some parent \<Rightarrow> if dp_empty parent then dp_dot else parent)"

definition first_barrier :: "dpath list \<Rightarrow> dpath list" where
  "first_barrier missing = (if missing = [] then [] else [barrier (last missing)])"

definition create_dir_all_durable_using :: "durable_env \<Rightarrow> dpath \<Rightarrow> fs_state \<Rightarrow> bool \<times> fs_state \<times> dpath list" where
  "create_dir_all_durable_using env path fs =
     (let missing = missing_dirs fs path; (created, fs') = create_dir_all env missing fs in
      if \<not> created then (False, fs', [])
      else (let (ok, tried) = sync_all_dirs env (first_barrier missing @ rev missing)
            in (ok, fs', tried)))"

section \<open>Replacing a file\<close>

text \<open>The state after the step \<open>file_write\<close>: create, set the mode, write.\<close>

definition write_temporary ::
  "durable_env \<Rightarrow> dpath \<Rightarrow> u32 \<Rightarrow> rstr \<Rightarrow> u32 \<Rightarrow> fs_state \<Rightarrow> bool \<times> fs_state" where
  "write_temporary env temporary mode contents default_mode fs =
     (if fs_exists fs temporary then (False, fs)
      else
        (case de_write env of
           Some CreateFails \<Rightarrow> (False, fs)
         | Some PermissionsFail \<Rightarrow> (False, fs\<lparr>fs_files := (fs_files fs)(temporary \<mapsto> (default_mode, []))\<rparr>)
         | Some (WriteFails n) \<Rightarrow> (False, fs\<lparr>fs_files := (fs_files fs)(temporary \<mapsto> (mode, take n contents))\<rparr>)
         | None \<Rightarrow> (True, fs\<lparr>fs_files := (fs_files fs)(temporary \<mapsto> (mode, contents))\<rparr>)))"

definition fs_rename :: "durable_env \<Rightarrow> dpath \<Rightarrow> dpath \<Rightarrow> fs_state \<Rightarrow> bool \<times> fs_state" where
  "fs_rename env from to fs =
     (if de_rename env \<and> to \<notin> fs_dirs fs
      then (True, fs\<lparr>fs_files := ((fs_files fs)(to := fs_files fs from))(from := None)\<rparr>)
      else (False, fs))"

text \<open>The four steps that follow the preparation of the parent, with their reports.\<close>

definition replace_steps ::
  "durable_env \<Rightarrow> dpath \<Rightarrow> dpath \<Rightarrow> dpath \<Rightarrow> u32 \<Rightarrow> rstr \<Rightarrow> u32 \<Rightarrow> fs_state
     \<Rightarrow> bool \<times> fs_state \<times> (rstr \<times> bool) list" where
  "replace_steps env parent temporary path mode contents default_mode fs =
     (let (written, fs1) = write_temporary env temporary mode contents default_mode fs in
      if \<not> written then (False, fs1, [(''file_write'', False)])
      else if \<not> de_file_sync env then (False, fs1, [(''file_write'', True), (''file_sync'', False)])
      else (let (renamed, fs2) = fs_rename env temporary path fs1 in
        if \<not> renamed then
          (False, fs2, [(''file_write'', True), (''file_sync'', True), (''rename'', False)])
        else (de_sync env parent, fs2,
              [(''file_write'', True), (''file_sync'', True), (''rename'', True),
               (''directory_sync'', de_sync env parent)])))"

definition remove_temporary :: "durable_env \<Rightarrow> dpath \<Rightarrow> fs_state \<Rightarrow> fs_state" where
  "remove_temporary env temporary fs =
     (if de_remove env then fs\<lparr>fs_files := (fs_files fs)(temporary := None)\<rparr> else fs)"

definition atomic_write_observed ::
  "durable_env \<Rightarrow> rstr \<Rightarrow> u32 \<Rightarrow> dpath \<Rightarrow> rstr \<Rightarrow> u32 \<Rightarrow> fs_state
     \<Rightarrow> bool \<times> fs_state \<times> (rstr \<times> bool) list" where
  "atomic_write_observed env fresh default_mode path contents mode fs =
     (case dp_parent path of
        None \<Rightarrow> (False, fs, [])
      | Some p \<Rightarrow>
          (let parent = (if dp_empty p then dp_dot else p);
               (prepared, fs1, _) = create_dir_all_durable_using env parent fs;
               reports = [(''directory_prepare'', prepared), (''directory_prepare_sync'', prepared)]
           in if \<not> prepared then (False, fs1, reports)
              else
                (let temporary = dp_join parent (''.pvisor.'' @ fresh @ ''.tmp'');
                     (ok, fs2, steps) = replace_steps env parent temporary path mode contents default_mode fs1
                 in (ok, if ok then fs2 else remove_temporary env temporary fs2, reports @ steps))))"

definition atomic_write ::
  "durable_env \<Rightarrow> rstr \<Rightarrow> u32 \<Rightarrow> dpath \<Rightarrow> rstr \<Rightarrow> u32 \<Rightarrow> fs_state \<Rightarrow> bool \<times> fs_state" where
  "atomic_write env fresh default_mode path contents mode fs =
     (let (ok, fs', _) = atomic_write_observed env fresh default_mode path contents mode fs in (ok, fs'))"

section \<open>Lemmas\<close>

lemma missing_dirs_chain:
  "missing_dirs fs p = d # ds \<Longrightarrow> d = p \<and> successively (\<lambda>a b. b = barrier a) (d # ds)"
proof (induction fs p arbitrary: d ds rule: missing_dirs.induct)
  case (1 fs cursor)
  from "1.prems" have not: "\<not> fs_exists fs cursor" and d: "d = cursor"
    by (auto simp: missing_dirs.simps [of fs cursor] split: if_splits)
  show ?case
  proof (cases ds)
    case (Cons e es)
    then obtain parent where par: "dp_parent cursor = Some parent" "\<not> dp_empty parent"
      "missing_dirs fs parent = e # es"
      using "1.prems" not by (auto simp: missing_dirs.simps [of fs cursor] split: option.splits if_splits)
    with "1.IH" [OF not par(1, 2) par(3)] Cons d show ?thesis by (auto simp: barrier_def)
  qed (simp add: d)
qed

lemma missing_dirs_prefixes:
  "d \<in> set (missing_dirs fs p) \<Longrightarrow> dp_absolute d = dp_absolute p \<and> length (dp_components d) \<le> length (dp_components p)"
proof (induction fs p rule: missing_dirs.induct)
  case (1 fs cursor)
  then show ?case
    by (auto simp: missing_dirs.simps [of fs cursor] dp_parent_def split: if_splits)
qed

lemma distinct_missing_dirs: "distinct (missing_dirs fs p)"
proof (induction fs p rule: missing_dirs.induct)
  case (1 fs cursor)
  show ?case
  proof (cases "fs_exists fs cursor \<or> dp_components cursor = []")
    case False
    let ?parent = "cursor\<lparr>dp_components := butlast (dp_components cursor)\<rparr>"
    have "cursor \<notin> set (missing_dirs fs ?parent)"
      using missing_dirs_prefixes [of cursor fs ?parent] False by (cases "dp_components cursor") auto
    then show ?thesis using 1 False by (auto simp: missing_dirs.simps [of fs cursor] dp_parent_def)
  qed (auto simp: missing_dirs.simps [of fs cursor] dp_parent_def)
qed

lemma barriers_in_order:
  "successively (\<lambda>a b. b = barrier a) (d # ds) \<Longrightarrow>
     barrier (last (d # ds)) # rev (d # ds) = map barrier (rev (d # ds)) @ [d]"
  by (induction ds arbitrary: d) auto

lemma sync_all_dirs_True: "sync_all_dirs env ds = (True, tried) \<Longrightarrow> tried = ds \<and> list_all (de_sync env) ds"
  by (induction ds arbitrary: tried) (auto split: if_splits prod.splits)

lemma create_durable_files:
  "create_dir_all_durable_using env path fs = (ok, fs', tried) \<Longrightarrow> fs_files fs' = fs_files fs"
  by (auto simp: create_dir_all_durable_using_def create_dir_all_def Let_def split: prod.splits if_splits option.splits)

lemma replace_steps_files:
  assumes "replace_steps env parent temporary path mode contents dm fs = (ok, fs', steps)" "temporary \<noteq> path"
  shows "fs_files fs' path =
           (if (''rename'', True) \<in> set steps then Some (mode, contents) else fs_files fs path)"
    "ok \<longleftrightarrow> (''directory_sync'', True) \<in> set steps" "ok \<Longrightarrow> (''rename'', True) \<in> set steps"
    "ok \<Longrightarrow> fs_files fs' temporary = None"
    "q \<noteq> path \<Longrightarrow> q \<noteq> temporary \<Longrightarrow> fs_files fs' q = fs_files fs q"
  using assms
  by (auto simp: replace_steps_def write_temporary_def fs_rename_def Let_def
      split: prod.splits if_splits option.splits write_fault.splits)

section \<open>Properties\<close>

text \<open>
  C22. A replacement is all or nothing. Whichever step fails, and wherever in the write, other
  readers find at the destination either exactly the old file or the complete new contents
  with the requested mode; they find the new one exactly when the report says that the rename
  was done. Success means that the rename and the barrier of the directory both happened. No
  other file is touched, and no temporary file is left unless its removal fails.
\<close>

theorem atomic_write_all_or_nothing:
  assumes "dp_parent path = Some p"
    and "temporary = dp_join (if dp_empty p then dp_dot else p) (''.pvisor.'' @ fresh @ ''.tmp'')"
    and "temporary \<noteq> path" "fs_files fs temporary = None"
    and "atomic_write_observed env fresh default_mode path contents mode fs = (ok, fs', steps)"
  shows "fs_files fs' path =
           (if (''rename'', True) \<in> set steps then Some (mode, contents) else fs_files fs path)
    \<and> (ok \<longleftrightarrow> (''directory_sync'', True) \<in> set steps) \<and> (ok \<longrightarrow> (''rename'', True) \<in> set steps)
    \<and> (\<forall>q. q \<noteq> path \<and> q \<noteq> temporary \<longrightarrow> fs_files fs' q = fs_files fs q)
    \<and> (ok \<or> de_remove env \<longrightarrow> fs_files fs' temporary = None)"
proof -
  let ?parent = "if dp_empty p then dp_dot else p"
  obtain prepared fs1 tried where prep: "create_dir_all_durable_using env ?parent fs = (prepared, fs1, tried)"
    by (metis prod_cases3)
  note files = create_durable_files [OF prep]
  show ?thesis
  proof (cases prepared)
    case False
    then have "ok = False" "fs' = fs1"
      "steps = [(''directory_prepare'', False), (''directory_prepare_sync'', False)]"
      using assms(1, 5) prep by (auto simp: atomic_write_observed_def Let_def)
    then show ?thesis using files assms(4) by simp
  next
    case True
    obtain ok2 fs2 steps2 where
      rep: "replace_steps env ?parent temporary path mode contents default_mode fs1 = (ok2, fs2, steps2)"
      by (metis prod_cases3)
    then have eq: "ok = ok2" "fs' = (if ok2 then fs2 else remove_temporary env temporary fs2)"
      "steps = [(''directory_prepare'', True), (''directory_prepare_sync'', True)] @ steps2"
      using assms(1, 2, 5) prep True by (auto simp: atomic_write_observed_def Let_def)
    show ?thesis
      using replace_steps_files [OF rep assms(3)] files assms(3) unfolding eq
      by (auto simp: remove_temporary_def)
  qed
qed

text \<open>
  A durable directory tree: when it is created successfully, every missing directory
  exists, and the barriers run once each, ancestors first: the directory that holds the entry
  of each new directory is synced after the entries above it, and the new leaf last. A tree
  that already exists costs no barrier and changes nothing.
\<close>

theorem durable_tree_barriers:
  assumes "create_dir_all_durable_using env path fs = (True, fs', tried)"
  shows "(fs_exists fs path \<longrightarrow> tried = [] \<and> fs' = fs)
    \<and> (\<not> fs_exists fs path \<longrightarrow>
         tried = map barrier (rev (missing_dirs fs path)) @ [path] \<and> path \<in> fs_dirs fs'
         \<and> set (missing_dirs fs path) \<subseteq> fs_dirs fs' \<and> distinct (missing_dirs fs path)
         \<and> list_all (de_sync env) tried)"
proof -
  let ?m = "missing_dirs fs path"
  have c: "create_dir_all env ?m fs = (True, fs')"
    and s: "sync_all_dirs env (first_barrier ?m @ rev ?m) = (True, tried)"
    using assms by (auto simp: create_dir_all_durable_using_def Let_def split: prod.splits if_splits)
  then have fs': "fs' = fs\<lparr>fs_dirs := fs_dirs fs \<union> set ?m\<rparr>"
    by (auto simp: create_dir_all_def split: option.splits)
  note synced = sync_all_dirs_True [OF s]
  show ?thesis
  proof (cases ?m)
    case Nil
    then have "fs_exists fs path" by (auto simp: missing_dirs.simps [of fs path] split: if_splits)
    then show ?thesis using Nil synced fs' by (simp add: first_barrier_def)
  next
    case (Cons d ds)
    then have "\<not> fs_exists fs path" by (auto simp: missing_dirs.simps [of fs path])
    moreover have "d = path" "first_barrier ?m @ rev ?m = map barrier (rev ?m) @ [d]"
      using conjunct1 [OF missing_dirs_chain [OF Cons]] Cons
        barriers_in_order [OF conjunct2 [OF missing_dirs_chain [OF Cons]]]
      by (simp_all add: first_barrier_def del: last.simps rev.simps)
    ultimately show ?thesis using synced fs' Cons distinct_missing_dirs [of fs path] by auto
  qed
qed

section \<open>Instances\<close>

definition ex_root :: dpath where
  "ex_root = \<lparr>dp_absolute = True, dp_components = []\<rparr>"

definition ex_dest :: dpath where
  "ex_dest = \<lparr>dp_absolute = True, dp_components = [''a'', ''record'']\<rparr>"

definition ex_fs :: fs_state where
  "ex_fs = \<lparr>fs_dirs = {ex_root}, fs_files = Map.empty\<rparr>"

definition ex_durable :: durable_env where
  "ex_durable = \<lparr>de_created = None, de_sync = (\<lambda>_. True), de_write = Some (WriteFails 2), de_file_sync = True,
     de_rename = True, de_remove = True\<rparr>"

theorem atomic_write_all_or_nothing_witness:
  "fs_files (fst (snd (atomic_write_observed ex_durable ''u'' 0 ex_dest ''new'' 384 ex_fs))) ex_dest = None"
proof -
  obtain ok fs' steps where r: "atomic_write_observed ex_durable ''u'' 0 ex_dest ''new'' 384 ex_fs = (ok, fs', steps)"
    by (metis prod_cases3)
  have "snd (snd (atomic_write_observed ex_durable ''u'' 0 ex_dest ''new'' 384 ex_fs)) =
      [(''directory_prepare'', True), (''directory_prepare_sync'', True), (''file_write'', False)]"
    by code_simp
  then have steps: "(''rename'', True) \<notin> set steps" using r by simp
  have "dp_parent ex_dest = Some (ex_dest\<lparr>dp_components := [''a'']\<rparr>)"
    by (simp add: dp_parent_def ex_dest_def)
  then show ?thesis
    using atomic_write_all_or_nothing [OF _ refl _ _ r] steps r
    by (simp add: dp_empty_def dp_join_def ex_dest_def ex_fs_def)
qed

theorem durable_tree_barriers_witness:
  "snd (snd (create_dir_all_durable_using ex_durable ex_dest ex_fs)) =
     [ex_root, \<lparr>dp_absolute = True, dp_components = [''a'']\<rparr>, ex_dest]"
proof -
  obtain ok fs' tried where r: "create_dir_all_durable_using ex_durable ex_dest ex_fs = (ok, fs', tried)"
    by (metis prod_cases3)
  have ok: "fst (create_dir_all_durable_using ex_durable ex_dest ex_fs)" by code_simp
  have m: "\<not> fs_exists ex_fs ex_dest"
    "map barrier (rev (missing_dirs ex_fs ex_dest)) = [ex_root, \<lparr>dp_absolute = True, dp_components = [''a'']\<rparr>]"
    by code_simp+
  show ?thesis
    using durable_tree_barriers [of ex_durable ex_dest ex_fs fs' tried] r ok m by simp
qed

end
