(* ===== verification/Virtqueue.thy ===== *)
theory Virtqueue
  imports Prelude
begin

text \<open>
  The virtqueue of the paravirtual devices (\<open>crates/pvisor-vm/src/devices/virtio/queue.rs\<close>):
  descriptor chains, the rings, notification suppression and the snapshot of the indices.

  Guest memory is the crate \<open>vm-memory\<close>: a parameter \<open>guest_memory\<close> of range checks and byte
  reads and writes, with \<open>guest_memory_laws\<close> stating what the crate documents (a checked range
  can be accessed, a write is read back and leaves disjoint bytes alone). Objects are read and
  written in little-endian order, as they are on the hosts that are supported. Memory leases and
  fences order accesses and do not change values; they are not modelled. A result \<open>unwrap\<close>ed on
  an error is the error \<open>Panic\<close>.

  Indices are 16-bit words that wrap, addresses 64-bit words.
\<close>

section \<open>Little-endian objects\<close>

fun le_nat :: "u8 list \<Rightarrow> nat" where
  "le_nat [] = 0"
| "le_nat (b # bs) = unat b + 256 * le_nat bs"

fun le_bytes :: "nat \<Rightarrow> nat \<Rightarrow> u8 list" where
  "le_bytes 0 n = []"
| "le_bytes (Suc k) n = of_nat (n mod 256) # le_bytes k (n div 256)"

definition le_word :: "u8 list \<Rightarrow> 'a::len word" where
  "le_word bs = of_nat (le_nat bs)"

lemma length_le_bytes [simp]: "length (le_bytes k n) = k"
  by (induction k arbitrary: n) simp_all

lemma le_nat_le_bytes: "le_nat (le_bytes k n) = n mod 256 ^ k"
proof (induction k arbitrary: n)
  case (Suc k)
  have "unat (of_nat (n mod 256) :: u8) = n mod 256" by (simp add: unat_of_nat)
  then show ?case using Suc [of "n div 256"] mod_mult2_eq [of n 256 "256 ^ k"] by simp
qed simp

section \<open>Guest memory\<close>

record 'm guest_memory =
  gm_check :: "'m \<Rightarrow> u64 \<Rightarrow> nat \<Rightarrow> bool"
  gm_checked_offset :: "'m \<Rightarrow> u64 \<Rightarrow> nat \<Rightarrow> u64 option"
  gm_read :: "'m \<Rightarrow> u64 \<Rightarrow> nat \<Rightarrow> u8 list option"
  gm_write :: "'m \<Rightarrow> u64 \<Rightarrow> u8 list \<Rightarrow> 'm option"

definition within :: "u64 \<Rightarrow> nat \<Rightarrow> u64 \<Rightarrow> nat \<Rightarrow> bool" where
  "within b k a n \<longleftrightarrow> unat a \<le> unat b \<and> unat b + k \<le> unat a + n"

definition apart :: "u64 \<Rightarrow> nat \<Rightarrow> u64 \<Rightarrow> nat \<Rightarrow> bool" where
  "apart b k a n \<longleftrightarrow> unat b + k \<le> unat a \<or> unat a + n \<le> unat b"

definition guest_memory_laws :: "'m guest_memory \<Rightarrow> bool" where
  "guest_memory_laws g \<longleftrightarrow>
     (\<forall>m a n. gm_check g m a n \<longrightarrow> unat a + n \<le> 2 ^ 64)
     \<and> (\<forall>m a n b k. gm_check g m a n \<and> within b k a n \<longrightarrow> gm_read g m b k \<noteq> None)
     \<and> (\<forall>m a n b bs. gm_check g m a n \<and> within b (length bs) a n \<longrightarrow> gm_write g m b bs \<noteq> None)
     \<and> (\<forall>m b bs m'. gm_write g m b bs = Some m' \<longrightarrow>
          gm_read g m' b (length bs) = Some bs \<and> gm_check g m' = gm_check g m
          \<and> (\<forall>a k. apart b (length bs) a k \<longrightarrow> gm_read g m' a k = gm_read g m a k))"

section \<open>Descriptor chains\<close>

record descriptor =
  d_addr :: u64
  d_len :: u32
  d_flags :: u16
  d_next :: u16

definition parse_descriptor :: "u8 list \<Rightarrow> descriptor" where
  "parse_descriptor bs =
     \<lparr>d_addr = le_word (take 8 bs), d_len = le_word (take 4 (drop 8 bs)),
      d_flags = le_word (take 2 (drop 12 bs)), d_next = le_word (take 2 (drop 14 bs))\<rparr>"

record descriptor_chain =
  dc_desc_table :: u64
  dc_queue_size :: u16
  dc_ttl :: u16
  dc_index :: u16
  dc_addr :: u64
  dc_len :: u32
  dc_flags :: u16
  dc_next :: u16

definition desc_f_next :: u16 where "desc_f_next = 1"

definition desc_f_write :: u16 where "desc_f_write = 2"

definition dc_has_next :: "descriptor_chain \<Rightarrow> bool" where
  "dc_has_next c \<longleftrightarrow> and (dc_flags c) desc_f_next \<noteq> 0 \<and> 1 < dc_ttl c"

definition dc_is_valid :: "descriptor_chain \<Rightarrow> bool" where
  "dc_is_valid c \<longleftrightarrow> \<not> dc_has_next c \<or> dc_next c < dc_queue_size c"

definition dc_is_write_only :: "descriptor_chain \<Rightarrow> bool" where
  "dc_is_write_only c \<longleftrightarrow> and (dc_flags c) desc_f_write \<noteq> 0"

definition dc_is_read_only :: "descriptor_chain \<Rightarrow> bool" where
  "dc_is_read_only c \<longleftrightarrow> and (dc_flags c) desc_f_write = 0"

definition checked_new :: "'m guest_memory \<Rightarrow> 'm \<Rightarrow> u64 \<Rightarrow> u16 \<Rightarrow> u16 \<Rightarrow> descriptor_chain option" where
  "checked_new g mem desc_table queue_size index =
     (if queue_size \<le> index then None
      else
        (case gm_checked_offset g mem desc_table (unat index * 16) of
           None \<Rightarrow> None
         | Some desc_head \<Rightarrow>
             if gm_checked_offset g mem desc_head 16 = None then None
             else
               (case gm_read g mem desc_head 16 of
                  None \<Rightarrow> None
                | Some bytes \<Rightarrow>
                    (let desc = parse_descriptor bytes;
                         chain = \<lparr>dc_desc_table = desc_table, dc_queue_size = queue_size, dc_ttl = queue_size,
                                  dc_index = index, dc_addr = d_addr desc, dc_len = d_len desc,
                                  dc_flags = d_flags desc, dc_next = d_next desc\<rparr>
                     in if dc_is_valid chain then Some chain else None))))"

definition next_descriptor :: "'m guest_memory \<Rightarrow> 'm \<Rightarrow> descriptor_chain \<Rightarrow> descriptor_chain option" where
  "next_descriptor g mem c =
     (if dc_has_next c then
        map_option (\<lambda>d. d\<lparr>dc_ttl := dc_ttl c - 1\<rparr>)
          (checked_new g mem (dc_desc_table c) (dc_queue_size c) (dc_next c))
      else None)"

lemma next_descriptor_ttl:
  "next_descriptor g mem c = Some d \<Longrightarrow> unat (dc_ttl d) = unat (dc_ttl c) - 1 \<and> 1 < unat (dc_ttl c)"
  by (auto simp: next_descriptor_def dc_has_next_def word_less_nat_alt unat_sub_if' split: if_splits)

text \<open>\<open>into_iter\<close>: the descriptors an iterator over the chain yields.\<close>

function desc_iter :: "'m guest_memory \<Rightarrow> 'm \<Rightarrow> descriptor_chain \<Rightarrow> descriptor_chain list" where
  "desc_iter g mem c =
     c # (case next_descriptor g mem c of None \<Rightarrow> [] | Some d \<Rightarrow> desc_iter g mem d)"
  by pat_completeness auto
termination
  by (relation "measure (\<lambda>(_, _, c). unat (dc_ttl c))") (auto dest: next_descriptor_ttl)

declare desc_iter.simps [simp del]

definition desc_readable :: "'m guest_memory \<Rightarrow> 'm \<Rightarrow> descriptor_chain \<Rightarrow> descriptor_chain list" where
  "desc_readable g mem c = takeWhile dc_is_read_only (desc_iter g mem c)"

definition desc_writable :: "'m guest_memory \<Rightarrow> 'm \<Rightarrow> descriptor_chain \<Rightarrow> descriptor_chain list" where
  "desc_writable g mem c = dropWhile dc_is_read_only (desc_iter g mem c)"

definition dc_descriptor :: "descriptor_chain \<Rightarrow> descriptor" where
  "dc_descriptor c = \<lparr>d_addr = dc_addr c, d_len = dc_len c, d_flags = dc_flags c, d_next = dc_next c\<rparr>"

section \<open>Queues\<close>

datatype queue_error =
  AddressOverflow | GuestMemoryFault | InvalidIndirectDescriptor | InvalidIndirectDescriptorTable
| InvalidChain | InvalidDescriptorIndex | InvalidMaxSize | InvalidSize | InvalidDescTableAlign
| InvalidAvailRingAlign | InvalidUsedRingAlign | InvalidAvailRingIndex | QueueNotReady
| VolatileMemoryFault | DescriptorChainOverflow | FindMemoryRegion | DescriptorMemoryFault
| SplitOutOfBounds nat | Panic

record queue =
  q_max_size :: u16
  q_size :: u16
  q_ready :: bool
  q_desc_table :: u64
  q_avail_ring :: u64
  q_used_ring :: u64
  q_next_avail :: u16
  q_next_used :: u16
  q_event_idx_enabled :: bool
  q_num_added :: u16

definition queue_new :: "u16 \<Rightarrow> queue" where
  "queue_new max_size =
     \<lparr>q_max_size = max_size, q_size = 0, q_ready = False, q_desc_table = 0, q_avail_ring = 0,
      q_used_ring = 0, q_next_avail = 0, q_next_used = 0, q_event_idx_enabled = False, q_num_added = 0\<rparr>"

definition actual_size :: "queue \<Rightarrow> u16" where
  "actual_size q = min (q_size q) (q_max_size q)"

definition is_power_of_two :: "u16 \<Rightarrow> bool" where
  "is_power_of_two w \<longleftrightarrow> w \<noteq> 0 \<and> and w (w - 1) = 0"

definition area_ok :: "'m guest_memory \<Rightarrow> 'm \<Rightarrow> u64 \<Rightarrow> nat \<Rightarrow> u64 \<Rightarrow> bool" where
  "area_ok g mem addr len align \<longleftrightarrow> addr mod align = 0 \<and> gm_check g mem addr len"

definition valid_layout :: "'m guest_memory \<Rightarrow> 'm \<Rightarrow> queue \<Rightarrow> bool" where
  "valid_layout g mem q \<longleftrightarrow>
     q_ready q \<and> q_size q \<noteq> 0 \<and> q_size q \<le> q_max_size q \<and> is_power_of_two (q_size q)
     \<and> (let size = unat (q_size q) in
        area_ok g mem (q_desc_table q) (16 * size) 16 \<and> area_ok g mem (q_avail_ring q) (6 + 2 * size) 2
        \<and> area_ok g mem (q_used_ring q) (6 + 8 * size) 4)"

text \<open>A snapshot has the fields of the queue; \<open>capture_state\<close> and \<open>restore\<close> copy them.\<close>

record queue_snapshot =
  qs_max_size :: u16
  qs_size :: u16
  qs_ready :: bool
  qs_desc_table :: u64
  qs_avail_ring :: u64
  qs_used_ring :: u64
  qs_next_avail :: u16
  qs_next_used :: u16
  qs_event_idx_enabled :: bool
  qs_num_added :: u16

definition capture_state :: "queue \<Rightarrow> queue_snapshot" where
  "capture_state q =
     \<lparr>qs_max_size = q_max_size q, qs_size = q_size q, qs_ready = q_ready q, qs_desc_table = q_desc_table q,
      qs_avail_ring = q_avail_ring q, qs_used_ring = q_used_ring q, qs_next_avail = q_next_avail q,
      qs_next_used = q_next_used q, qs_event_idx_enabled = q_event_idx_enabled q,
      qs_num_added = q_num_added q\<rparr>"

definition queue_restore :: "'m guest_memory \<Rightarrow> 'm \<Rightarrow> u16 \<Rightarrow> queue_snapshot \<Rightarrow> rstr + queue" where
  "queue_restore g mem max_size s =
     (if qs_max_size s \<noteq> max_size then Inl ''virtqueue maximum size mismatch''
      else
        (let q = \<lparr>q_max_size = max_size, q_size = qs_size s, q_ready = qs_ready s,
                  q_desc_table = qs_desc_table s, q_avail_ring = qs_avail_ring s, q_used_ring = qs_used_ring s,
                  q_next_avail = qs_next_avail s, q_next_used = qs_next_used s,
                  q_event_idx_enabled = qs_event_idx_enabled s, q_num_added = qs_num_added s\<rparr>
         in if qs_ready s \<and> \<not> valid_layout g mem q then Inl ''invalid restored virtqueue layout'' else Inr q))"

definition load_u16 :: "'m guest_memory \<Rightarrow> 'm \<Rightarrow> u64 \<Rightarrow> queue_error + u16" where
  "load_u16 g mem addr =
     (case gm_read g mem addr 2 of None \<Rightarrow> Inl GuestMemoryFault | Some bs \<Rightarrow> Inr (le_word bs))"

definition store_u16 :: "'m guest_memory \<Rightarrow> u16 \<Rightarrow> u64 \<Rightarrow> 'm \<Rightarrow> queue_error + 'm" where
  "store_u16 g w addr mem =
     (case gm_write g mem addr (le_bytes 2 (unat w)) of None \<Rightarrow> Inl GuestMemoryFault | Some m \<Rightarrow> Inr m)"

definition address_add :: "u64 \<Rightarrow> u64 \<Rightarrow> queue_error + u64" where
  "address_add a k = (case checked_add a k of None \<Rightarrow> Inl AddressOverflow | Some b \<Rightarrow> Inr b)"

definition unwrap :: "queue_error + 'a \<Rightarrow> queue_error + 'a" where
  "unwrap r = (case r of Inl _ \<Rightarrow> Inl Panic | Inr a \<Rightarrow> Inr a)"

definition avail_idx :: "'m guest_memory \<Rightarrow> 'm \<Rightarrow> queue \<Rightarrow> queue_error + u16" where
  "avail_idx g mem q = bind_res (address_add (q_avail_ring q) 2) (load_u16 g mem)"

definition queue_len :: "'m guest_memory \<Rightarrow> 'm \<Rightarrow> queue \<Rightarrow> queue_error + u16" where
  "queue_len g mem q =
     bind_res (unwrap (avail_idx g mem q)) (\<lambda>idx. Inr (idx - q_next_avail q))"

definition queue_is_empty :: "'m guest_memory \<Rightarrow> 'm \<Rightarrow> queue \<Rightarrow> queue_error + bool" where
  "queue_is_empty g mem q = bind_res (queue_len g mem q) (\<lambda>n. Inr (n = 0))"

definition index_offset :: "queue \<Rightarrow> u16" where
  "index_offset q = 4 + 2 * (q_next_avail q mod actual_size q)"

definition queue_pop ::
  "'m guest_memory \<Rightarrow> 'm \<Rightarrow> queue \<Rightarrow> queue_error + (descriptor_chain option \<times> queue)" where
  "queue_pop g mem q =
     bind_res (queue_len g mem q) (\<lambda>n.
     if n = 0 \<or> actual_size q = 0 then Inr (None, q)
     else
       bind_res (unwrap (load_u16 g mem (q_avail_ring q + ucast (index_offset q)))) (\<lambda>desc_index.
       case checked_new g mem (q_desc_table q) (actual_size q) desc_index of
         None \<Rightarrow> Inr (None, q)
       | Some c \<Rightarrow> Inr (Some c, q\<lparr>q_next_avail := q_next_avail q + 1\<rparr>)))"

definition undo_pop :: "queue \<Rightarrow> queue" where
  "undo_pop q = q\<lparr>q_next_avail := q_next_avail q - 1\<rparr>"

definition used_slot :: "queue \<Rightarrow> u64" where
  "used_slot q = 4 + ucast (q_next_used q mod q_size q) * 8"

text \<open>The queue is changed even when the last store fails, as the source's early return leaves it.\<close>

definition add_used ::
  "'m guest_memory \<Rightarrow> u16 \<Rightarrow> u32 \<Rightarrow> 'm \<times> queue \<Rightarrow> (queue_error + unit) \<times> 'm \<times> queue" where
  "add_used g head_index len mq =
     (let (mem, q) = mq in
      if q_size q \<le> head_index then (Inl InvalidDescriptorIndex, mem, q)
      else
        (case bind_res (address_add (q_used_ring q) (used_slot q)) (\<lambda>addr.
              case gm_write g mem addr (le_bytes 4 (unat head_index) @ le_bytes 4 (unat len)) of
                None \<Rightarrow> Inl GuestMemoryFault | Some m \<Rightarrow> Inr m) of
           Inl e \<Rightarrow> (Inl e, mem, q)
         | Inr mem1 \<Rightarrow>
             (let q1 = q\<lparr>q_next_used := q_next_used q + 1, q_num_added := q_num_added q + 1\<rparr> in
              case bind_res (address_add (q_used_ring q) 2) (\<lambda>addr. store_u16 g (q_next_used q1) addr mem1) of
                Inl e \<Rightarrow> (Inl e, mem1, q1)
              | Inr mem2 \<Rightarrow> (Inr (), mem2, q1))))"

section \<open>Notifications\<close>

definition used_event :: "'m guest_memory \<Rightarrow> 'm \<Rightarrow> queue \<Rightarrow> queue_error + u16" where
  "used_event g mem q =
     bind_res (address_add (q_avail_ring q) (4 + ucast (q_size q) * 2)) (load_u16 g mem)"

definition set_avail_event :: "'m guest_memory \<Rightarrow> u16 \<Rightarrow> queue \<Rightarrow> 'm \<Rightarrow> queue_error + 'm" where
  "set_avail_event g val q mem =
     bind_res (address_add (q_used_ring q) (4 + 8 * ucast (q_size q))) (\<lambda>addr. store_u16 g val addr mem)"

definition set_event_idx :: "bool \<Rightarrow> queue \<Rightarrow> queue" where
  "set_event_idx enabled q = q\<lparr>q_event_idx_enabled := enabled\<rparr>"

definition set_used_flags :: "'m guest_memory \<Rightarrow> u16 \<Rightarrow> queue \<Rightarrow> 'm \<Rightarrow> queue_error + 'm" where
  "set_used_flags g val q mem = store_u16 g val (q_used_ring q) mem"

definition vring_used_f_no_notify :: u16 where "vring_used_f_no_notify = 1"

definition set_notification :: "'m guest_memory \<Rightarrow> bool \<Rightarrow> queue \<Rightarrow> 'm \<Rightarrow> queue_error + 'm" where
  "set_notification g enable q mem =
     (if enable then
        (if q_event_idx_enabled q then set_avail_event g (q_next_avail q) q mem
         else set_used_flags g 0 q mem)
      else if \<not> q_event_idx_enabled q then set_used_flags g vring_used_f_no_notify q mem
      else Inr mem)"

definition enable_notification ::
  "'m guest_memory \<Rightarrow> queue \<Rightarrow> 'm \<Rightarrow> (queue_error + bool) \<times> 'm" where
  "enable_notification g q mem =
     (case set_notification g True q mem of
        Inl e \<Rightarrow> (Inl e, mem)
      | Inr m \<Rightarrow> (bind_res (avail_idx g m q) (\<lambda>idx. Inr (idx \<noteq> q_next_avail q)), m))"

definition disable_notification :: "'m guest_memory \<Rightarrow> queue \<Rightarrow> 'm \<Rightarrow> queue_error + 'm" where
  "disable_notification g q mem = set_notification g False q mem"

definition needs_notification :: "'m guest_memory \<Rightarrow> 'm \<Rightarrow> queue \<Rightarrow> queue_error + (bool \<times> queue)" where
  "needs_notification g mem q =
     (if q_event_idx_enabled q then
        bind_res (used_event g mem q) (\<lambda>event.
        let used_idx = q_next_used q; old = used_idx - q_num_added q
        in Inr (used_idx - event - 1 < used_idx - old, q\<lparr>q_num_added := 0\<rparr>))
      else Inr (True, q))"

definition go_to_previous_position :: "queue \<Rightarrow> queue" where
  "go_to_previous_position q = q\<lparr>q_next_avail := q_next_avail q - 1\<rparr>"

section \<open>Chains\<close>

lemma checked_new_facts:
  "checked_new g mem table n index = Some c \<Longrightarrow>
     index < n \<and> dc_index c = index \<and> dc_desc_table c = table \<and> dc_queue_size c = n \<and> dc_ttl c = n"
  by (auto simp: checked_new_def Let_def split: if_splits option.splits)

lemma next_descriptor_facts:
  "next_descriptor g mem c = Some d \<Longrightarrow>
     dc_index d = dc_next c \<and> dc_index d < dc_queue_size c \<and> dc_desc_table d = dc_desc_table c
     \<and> dc_queue_size d = dc_queue_size c"
  by (auto simp: next_descriptor_def dest: checked_new_facts split: if_splits)

lemma desc_iter_length: "length (desc_iter g mem c) \<le> max 1 (unat (dc_ttl c))"
proof (induction g mem c rule: desc_iter.induct)
  case (1 g mem c)
  show ?case
  proof (cases "next_descriptor g mem c")
    case (Some d)
    then show ?thesis
      using "1" [OF Some] next_descriptor_ttl [OF Some]
      by (auto simp: desc_iter.simps [of g mem c] max_def split: if_splits)
  qed (simp add: desc_iter.simps [of g mem c])
qed

lemma desc_iter_links:
  "dc_index c < dc_queue_size c \<Longrightarrow>
     list_all (\<lambda>d. dc_index d < dc_queue_size c \<and> dc_desc_table d = dc_desc_table c) (desc_iter g mem c)
     \<and> successively (\<lambda>a b. dc_index b = dc_next a) (desc_iter g mem c)"
proof (induction g mem c rule: desc_iter.induct)
  case (1 g mem c)
  show ?case
  proof (cases "next_descriptor g mem c")
    case None
    then show ?thesis using "1.prems" by (simp add: desc_iter.simps [of g mem c])
  next
    case (Some d)
    note d = next_descriptor_facts [OF Some]
    have hd: "hd (desc_iter g mem d) = d" by (simp add: desc_iter.simps [of g mem d])
    have "dc_index d < dc_queue_size d" using d by auto
    note tail = "1.IH" [OF Some this]
    have "desc_iter g mem c = c # desc_iter g mem d" using Some by (simp add: desc_iter.simps [of g mem c])
    moreover have "successively (\<lambda>a b. dc_index b = dc_next a) (c # desc_iter g mem d)"
      using tail d hd by (simp add: successively_Cons)
    ultimately show ?thesis using tail d "1.prems" by auto
  qed
qed

section \<open>Rings\<close>

lemma and_pred_nat: "0 < n \<Longrightarrow> and n (n - 1) = (0::nat) \<Longrightarrow> \<exists>k. n = 2 ^ k"
proof (induction n rule: less_induct)
  case (less n)
  show ?case
  proof (cases "even n")
    case True
    then obtain m where m: "n = 2 * m" by (elim evenE)
    have half: "(n - 1) div 2 = m - 1" "odd (n - 1)" using m less.prems(1) by auto
    have "and n (n - 1) = 2 * and m (m - 1)"
      using m half by (subst and_rec) simp
    then obtain k where "m = 2 ^ k" using less.IH [of m] less.prems m by auto
    then show ?thesis using m by (metis power_Suc)
  next
    case False
    then obtain m where m: "n = 2 * m + 1" by (elim oddE)
    have "and n (n - 1) = 2 * m" using m by (subst and_rec) simp
    then have "n = 2 ^ 0" using less.prems m by simp
    then show ?thesis by blast
  qed
qed

lemma power_of_two_dvd:
  assumes "is_power_of_two w"
  shows "unat w dvd 65536"
proof -
  have pos: "0 < unat w" using assms by (simp add: is_power_of_two_def unat_gt_0)
  have "unat (w - 1) = unat w - 1" using assms by (simp add: is_power_of_two_def unat_minus_one)
  then have "and (unat w) (unat w - 1) = 0"
    using assms by (metis is_power_of_two_def unsigned_0 unsigned_and_eq)
  then obtain k where k: "unat w = 2 ^ k" using and_pred_nat [OF pos] by blast
  have "unat w < 2 ^ 16" using unsigned_less [where 'a = nat, of w] by simp
  then have "k \<le> 16" using k by (metis less_imp_le_nat power_less_imp_less_exp one_less_numeral_iff semiring_norm(76))
  then have "(2::nat) ^ k dvd 2 ^ 16" by (rule le_imp_power_dvd)
  then show ?thesis using k by simp
qed

lemma unat_Suc_mod:
  assumes "n dvd 65536" "0 < n"
  shows "unat (w + 1 :: u16) mod n = (unat w mod n + 1) mod n"
proof -
  have "unat (w + 1) = (unat w + 1) mod 65536" by (simp add: unat_word_ariths)
  then have "unat (w + 1) mod n = (unat w + 1) mod n" using assms(1) by (simp add: mod_mod_cancel)
  then show ?thesis by (simp add: mod_Suc_eq)
qed

lemma area_access:
  assumes laws: "guest_memory_laws g" and area: "gm_check g mem a n" and k: "unat k + l \<le> n" "0 < l"
  shows "unat (a + k) = unat a + unat k" "address_add a k = Inr (a + k)" "gm_read g mem (a + k) l \<noteq> None"
    "length bs = l \<Longrightarrow> gm_write g mem (a + k) bs \<noteq> None"
proof -
  have "unat a + n \<le> 2 ^ 64" using laws area by (auto simp: guest_memory_laws_def)
  then have sum: "unat a + unat k < 2 ^ 64" using k by linarith
  then show a: "unat (a + k) = unat a + unat k" by (simp add: unat_add_no_overflow)
  show "address_add a k = Inr (a + k)" using sum by (simp add: address_add_def checked_add_SomeI)
  have "within (a + k) l a n" using a k by (simp add: within_def)
  then show "gm_read g mem (a + k) l \<noteq> None" "length bs = l \<Longrightarrow> gm_write g mem (a + k) bs \<noteq> None"
    using laws area by (auto simp: guest_memory_laws_def)
qed

lemma load_area:
  assumes "guest_memory_laws g" "gm_check g mem a n" "unat k + 2 \<le> n"
  obtains w where "load_u16 g mem (a + k) = Inr w" "address_add a k = Inr (a + k)"
  using area_access [OF assms(1, 2), of k 2] assms(3) by (auto simp: load_u16_def split: option.splits)

lemma valid_layout_facts:
  assumes "valid_layout g mem q"
  shows "gm_check g mem (q_avail_ring q) (6 + 2 * unat (q_size q))"
    "gm_check g mem (q_used_ring q) (6 + 8 * unat (q_size q))"
    "actual_size q = q_size q" "0 < unat (q_size q)" "unat (q_size q) dvd 65536" "q_size q \<noteq> 0"
  using assms power_of_two_dvd
  by (auto simp: valid_layout_def area_ok_def actual_size_def Let_def min_def unat_gt_0)

lemma unat_index_offset:
  assumes "actual_size q = q_size q" "0 < unat (q_size q)" "unat (q_size q) \<le> 16384"
  shows "unat (index_offset q) = 4 + 2 * (unat (q_next_avail q) mod unat (q_size q))"
proof -
  let ?r = "q_next_avail q mod q_size q"
  have r: "unat ?r = unat (q_next_avail q) mod unat (q_size q)" by (simp add: unat_mod)
  then have "unat ?r < 16384" using assms(2, 3) by (metis mod_less_divisor order_less_le_trans)
  then show ?thesis using assms(1) r by (simp add: index_offset_def unat_word_ariths)
qed

lemma unat_ucast_up: "unat (ucast (w :: u16) :: u64) = unat w"
  by (simp add: unsigned_ucast_eq take_bit_nat_eq_self_iff order_less_trans [OF unsigned_less])

lemma unat_slot: "unat (4 + ucast (r :: u16) * 8 :: u64) = 4 + 8 * unat r"
proof -
  have "unat r < 2 ^ 16" using unsigned_less [where 'a = nat, of r] by simp
  then have "4 + 8 * unat r < 2 ^ 64" by simp
  then show ?thesis using unat_ucast_up [of r] by (simp add: unat_word_ariths)
qed

lemma unat_used_slot: "unat (used_slot q) = 4 + 8 * (unat (q_next_used q) mod unat (q_size q))"
  unfolding used_slot_def unat_slot unat_mod ..

lemma write_read:
  assumes "guest_memory_laws g" "gm_write g mem b bs = Some mem'"
  shows "gm_read g mem' b (length bs) = Some bs" "gm_check g mem' = gm_check g mem"
    "apart b (length bs) a k \<Longrightarrow> gm_read g mem' a k = gm_read g mem a k"
  using assms by (auto simp: guest_memory_laws_def)

lemma le_word_bytes: "LENGTH('a) \<le> 8 * k \<Longrightarrow> (le_word (le_bytes k (unat (w :: 'a::len word))) :: 'a word) = w"
proof -
  assume k: "LENGTH('a) \<le> 8 * k"
  have "(256::nat) ^ k = 2 ^ (8 * k)" by (simp add: power_mult)
  moreover have "unat w < 2 ^ LENGTH('a)" by (rule unsigned_less)
  moreover have "(2::nat) ^ LENGTH('a) \<le> 2 ^ (8 * k)" using k by simp
  ultimately have "unat w < 256 ^ k" by linarith
  then have "unat w mod 256 ^ k = unat w" by simp
  then show ?thesis by (simp add: le_word_def le_nat_le_bytes)
qed

lemma pop_slot:
  assumes "guest_memory_laws g" "valid_layout g mem q" "unat (q_size q) \<le> 16384"
  obtains idx d where "avail_idx g mem q = Inr idx"
    "load_u16 g mem (q_avail_ring q + of_nat (4 + 2 * (unat (q_next_avail q) mod unat (q_size q)))) = Inr d"
    "queue_pop g mem q =
       Inr (if idx = q_next_avail q then (None, q)
            else (case checked_new g mem (q_desc_table q) (q_size q) d of
                    None \<Rightarrow> (None, q) | Some c \<Rightarrow> (Some c, q\<lparr>q_next_avail := q_next_avail q + 1\<rparr>)))"
proof -
  note v = valid_layout_facts [OF assms(2)]
  have two: "unat (2 :: u64) + 2 \<le> 6 + 2 * unat (q_size q)" by simp
  from load_area [OF assms(1) v(1) two] obtain idx where
    idx: "load_u16 g mem (q_avail_ring q + 2) = Inr idx" "address_add (q_avail_ring q) 2 = Inr (q_avail_ring q + 2)"
    by blast
  then have avail: "avail_idx g mem q = Inr idx" by (simp add: avail_idx_def)
  let ?off = "ucast (index_offset q) :: u64"
  have off: "unat ?off = 4 + 2 * (unat (q_next_avail q) mod unat (q_size q))"
    using unat_ucast_up unat_index_offset [OF v(3, 4) assms(3)] by simp
  moreover have "unat (q_next_avail q) mod unat (q_size q) < unat (q_size q)" using v(4) by simp
  ultimately have "unat ?off + 2 \<le> 6 + 2 * unat (q_size q)" by linarith
  from load_area [OF assms(1) v(1) this] obtain d where d: "load_u16 g mem (q_avail_ring q + ?off) = Inr d"
    by blast
  have off': "?off = of_nat (4 + 2 * (unat (q_next_avail q) mod unat (q_size q)))"
    unfolding off [symmetric] by simp
  have "queue_pop g mem q =
      Inr (if idx = q_next_avail q then (None, q)
           else (case checked_new g mem (q_desc_table q) (q_size q) d of
                   None \<Rightarrow> (None, q) | Some c \<Rightarrow> (Some c, q\<lparr>q_next_avail := q_next_avail q + 1\<rparr>)))"
    using avail d v(3, 6) by (auto simp: queue_pop_def queue_len_def unwrap_def split: option.splits)
  then show thesis using that avail d unfolding off' by blast
qed

lemma add_used_slot:
  assumes "guest_memory_laws g" "valid_layout g mem q" "head < q_size q"
  shows "\<exists>mem'. add_used g head len (mem, q) =
        (Inr (), mem', q\<lparr>q_next_used := q_next_used q + 1, q_num_added := q_num_added q + 1\<rparr>)
      \<and> gm_read g mem' (q_used_ring q + of_nat (4 + 8 * (unat (q_next_used q) mod unat (q_size q)))) 8
          = Some (le_bytes 4 (unat head) @ le_bytes 4 (unat len))
      \<and> load_u16 g mem' (q_used_ring q + 2) = Inr (q_next_used q + 1)
      \<and> valid_layout g mem' (q\<lparr>q_next_used := q_next_used q + 1, q_num_added := q_num_added q + 1\<rparr>)
      \<and> (\<forall>a k. apart (q_used_ring q + 2) 2 a k
            \<and> apart (q_used_ring q + of_nat (4 + 8 * (unat (q_next_used q) mod unat (q_size q)))) 8 a k
            \<longrightarrow> gm_read g mem' a k = gm_read g mem a k)"
proof -
  note v = valid_layout_facts [OF assms(2)]
  let ?elem = "le_bytes 4 (unat head) @ le_bytes 4 (unat len)" and ?slot = "used_slot q" and ?used = "q_used_ring q"
  let ?q = "q\<lparr>q_next_used := q_next_used q + 1, q_num_added := q_num_added q + 1\<rparr>"
  have slot: "?slot = of_nat (4 + 8 * (unat (q_next_used q) mod unat (q_size q)))"
    unfolding unat_used_slot [symmetric] by simp
  have "unat (q_next_used q) mod unat (q_size q) < unat (q_size q)" using v(4) by simp
  then have bound: "unat ?slot + 8 \<le> 6 + 8 * unat (q_size q)" unfolding unat_used_slot by linarith
  note at_slot = area_access [OF assms(1) v(2) bound, simplified]
  then obtain mem1 where mem1: "gm_write g mem (?used + ?slot) ?elem = Some mem1" by fastforce
  note w1 = write_read [OF assms(1) mem1]
  have check1: "gm_check g mem1 ?used (6 + 8 * unat (q_size q))" using v(2) w1(2) by simp
  have two: "unat (2 :: u64) + 2 \<le> 6 + 8 * unat (q_size q)" by simp
  note at_idx = area_access [OF assms(1) check1 two, simplified]
  then obtain mem2 where mem2: "gm_write g mem1 (?used + 2) (le_bytes 2 (unat (q_next_used q + 1))) = Some mem2"
    by fastforce
  note w2 = write_read [OF assms(1) mem2]
  have step: "add_used g head len (mem, q) = (Inr (), mem2, ?q)"
    using assms(3) mem1 mem2 at_slot(2) at_idx(2) by (simp add: add_used_def store_u16_def Let_def not_le)
  have "apart (?used + 2) 2 (?used + ?slot) 8"
    using at_slot(1) at_idx(1) by (simp add: apart_def unat_used_slot)
  then have elem: "gm_read g mem2 (?used + ?slot) 8 = Some ?elem" using w2(3) w1(1) by simp
  have idx: "load_u16 g mem2 (?used + 2) = Inr (q_next_used q + 1)"
    using w2(1) le_word_bytes [of 2 "q_next_used q + 1"] by (simp add: load_u16_def)
  have layout: "valid_layout g mem2 ?q"
    using assms(2) w1(2) w2(2) by (simp add: valid_layout_def area_ok_def Let_def)
  have frame: "gm_read g mem2 a k = gm_read g mem a k"
    if "apart (?used + 2) 2 a k" "apart (?used + ?slot) 8 a k" for a k
    using that w1(3) [of a k] w2(3) [of a k] by simp
  show ?thesis using step elem idx layout frame unfolding slot [symmetric] by auto
qed

section \<open>Properties\<close>

text \<open>
  C6. A descriptor chain is finite whatever the guest writes: starting from a head the queue
  accepts, the iterator yields at most as many descriptors as the queue has entries, even when
  the guest links them in a cycle; every one of them lies inside the descriptor table of the
  queue, and each follows the link of the one before.
\<close>

theorem descriptor_chain_bounded:
  assumes "checked_new g mem table n index = Some c"
  shows "length (desc_iter g mem c) \<le> unat n
    \<and> list_all (\<lambda>d. dc_index d < n \<and> dc_desc_table d = table) (desc_iter g mem c)
    \<and> successively (\<lambda>a b. dc_index b = dc_next a) (desc_iter g mem c)
    \<and> desc_readable g mem c @ desc_writable g mem c = desc_iter g mem c"
proof -
  note c = checked_new_facts [OF assms]
  then have "0 < unat n" by (metis gr_zeroI unat_eq_zero word_not_simps(1))
  then show ?thesis
    using desc_iter_length [of g mem c] desc_iter_links [of c g mem] c
    by (auto simp: desc_readable_def desc_writable_def)
qed

text \<open>
  C17. Popping from a valid queue of at most 16384 entries never panics. It leaves an empty queue
  alone, and otherwise reads the slot of the available ring that the wrapping counter stands
  for; it advances the counter, to the cyclically next slot, exactly when the head it finds is
  accepted, and the advance can be undone.
\<close>

theorem pop_takes_next_slot:
  assumes "guest_memory_laws g" "valid_layout g mem q" "unat (q_size q) \<le> 16384"
  shows "\<exists>idx. avail_idx g mem q = Inr idx
    \<and> (if idx = q_next_avail q then queue_pop g mem q = Inr (None, q)
       else \<exists>d. load_u16 g mem (q_avail_ring q
                   + of_nat (4 + 2 * (unat (q_next_avail q) mod unat (q_size q)))) = Inr d
             \<and> queue_pop g mem q =
                 Inr (case checked_new g mem (q_desc_table q) (q_size q) d of
                        None \<Rightarrow> (None, q)
                      | Some c \<Rightarrow> (Some c, q\<lparr>q_next_avail := q_next_avail q + 1\<rparr>)))
    \<and> undo_pop (q\<lparr>q_next_avail := q_next_avail q + 1\<rparr>) = q
    \<and> unat (q_next_avail q + 1) mod unat (q_size q) = (unat (q_next_avail q) mod unat (q_size q) + 1) mod unat (q_size q)"
proof -
  note v = valid_layout_facts [OF assms(2)]
  obtain idx d where "avail_idx g mem q = Inr idx"
    "load_u16 g mem (q_avail_ring q + of_nat (4 + 2 * (unat (q_next_avail q) mod unat (q_size q)))) = Inr d"
    and pop: "queue_pop g mem q =
      Inr (if idx = q_next_avail q then (None, q)
           else (case checked_new g mem (q_desc_table q) (q_size q) d of
                   None \<Rightarrow> (None, q) | Some c \<Rightarrow> (Some c, q\<lparr>q_next_avail := q_next_avail q + 1\<rparr>)))"
    by (rule pop_slot [OF assms])
  then show ?thesis using unat_Suc_mod [OF v(5, 4), of "q_next_avail q"] by (simp add: undo_pop_def)
qed

text \<open>
  C30. Completing a request on a valid queue always succeeds: the element with the head index and
  the length stands, in the order of bytes the guest expects, in the slot the wrapping counter
  stands for, the published index is one higher, the layout stays valid, and not a byte outside
  that slot and the index field is changed. A head outside the queue is refused without effect.
\<close>

theorem add_used_publishes:
  assumes "guest_memory_laws g" "valid_layout g mem q"
  shows "if head < q_size q then
      \<exists>mem'. add_used g head len (mem, q) =
          (Inr (), mem', q\<lparr>q_next_used := q_next_used q + 1, q_num_added := q_num_added q + 1\<rparr>)
        \<and> gm_read g mem' (q_used_ring q + of_nat (4 + 8 * (unat (q_next_used q) mod unat (q_size q)))) 8
            = Some (le_bytes 4 (unat head) @ le_bytes 4 (unat len))
        \<and> load_u16 g mem' (q_used_ring q + 2) = Inr (q_next_used q + 1)
        \<and> valid_layout g mem' (q\<lparr>q_next_used := q_next_used q + 1, q_num_added := q_num_added q + 1\<rparr>)
        \<and> (\<forall>a k. apart (q_used_ring q + 2) 2 a k
              \<and> apart (q_used_ring q + of_nat (4 + 8 * (unat (q_next_used q) mod unat (q_size q)))) 8 a k
              \<longrightarrow> gm_read g mem' a k = gm_read g mem a k)
    else add_used g head len (mem, q) = (Inl InvalidDescriptorIndex, mem, q)"
proof (cases "head < q_size q")
  case True
  from add_used_slot [OF assms True, of len] show ?thesis using True by auto
qed (simp add: add_used_def not_less)

text \<open>
  C36. No interrupt is lost when the guest suppresses them: with the event index negotiated, a
  notification is due exactly when the index the guest waits for is among those passed by the
  completions added since the last check, across the wrap of the 16-bit counter. Without it
  every check asks for a notification.
\<close>

theorem notification_window:
  assumes "used_event g mem q = Inr event"
  shows "needs_notification g mem q =
    (if q_event_idx_enabled q
     then Inr (\<exists>k < unat (q_num_added q). event = q_next_used q - q_num_added q + of_nat k,
               q\<lparr>q_num_added := 0\<rparr>)
     else Inr (True, q))"
proof -
  let ?u = "q_next_used q" and ?n = "q_num_added q"
  have "?u - event - 1 < ?n \<longleftrightarrow> (\<exists>k < unat ?n. event = ?u - ?n + of_nat k)"
  proof
    assume less: "?u - event - 1 < ?n"
    let ?j = "?u - event - 1"
    have "1 + unat ?j \<le> unat ?n" using less by (simp add: word_less_nat_alt)
    then have "of_nat (unat ?n - (1 + unat ?j)) = ?n - (1 + ?j)" by (subst of_nat_diff) simp_all
    then have "event = ?u - ?n + of_nat (unat ?n - (1 + unat ?j))" by simp
    moreover have "unat ?n - (1 + unat ?j) < unat ?n" using less by (auto simp: word_less_nat_alt)
    ultimately show "\<exists>k < unat ?n. event = ?u - ?n + of_nat k" by blast
  next
    assume "\<exists>k < unat ?n. event = ?u - ?n + of_nat k"
    then obtain k where k: "k < unat ?n" "event = ?u - ?n + of_nat k" by blast
    then have eq: "?u - event - 1 = ?n - (of_nat k + 1)" by simp
    have un: "unat (?n - (of_nat k + 1)) = unat ?n - (k + 1)"
      using k(1) unsigned_less [where 'a = nat, of ?n]
      by (simp add: unat_sub_if' unat_word_ariths unat_of_nat word_le_nat_alt)
    show "?u - event - 1 < ?n" unfolding word_less_nat_alt eq un using k(1) by simp
  qed
  then show ?thesis using assms by (simp add: needs_notification_def Let_def)
qed

text \<open>
  The snapshot of a queue round-trips: restoring a captured queue gives the queue back, every
  index included, exactly for a device of the same maximum size and, when the queue was ready,
  over memory in which its layout is valid; anything else is refused.
\<close>

theorem queue_snapshot_roundtrip:
  "queue_restore g mem max_size (capture_state q) = Inr q'
     \<longleftrightarrow> q' = q \<and> max_size = q_max_size q \<and> \<not> (q_ready q \<and> \<not> valid_layout g mem q)"
  by (cases q) (auto simp: queue_restore_def capture_state_def Let_def)

section \<open>An instance\<close>

text \<open>A memory of 256 bytes and a queue of two entries whose descriptors form a cycle.\<close>

definition ex_gm :: "(nat \<Rightarrow> u8) guest_memory" where
  "ex_gm =
     \<lparr>gm_check = (\<lambda>_ a n. unat a + n \<le> 256),
      gm_checked_offset = (\<lambda>_ a k. if unat a + k < 256 then Some (a + of_nat k) else None),
      gm_read = (\<lambda>m a n. if unat a + n \<le> 256 then Some (map (\<lambda>i. m (unat a + i)) [0..<n]) else None),
      gm_write = (\<lambda>m a bs. if unat a + length bs \<le> 256
        then Some (\<lambda>i. if unat a \<le> i \<and> i < unat a + length bs then bs ! (i - unat a) else m i) else None)\<rparr>"

lemma ex_gm_laws: "guest_memory_laws ex_gm"
proof -
  have "map (\<lambda>i. if a \<le> a + i \<and> a + i < a + length bs then bs ! (a + i - a) else m (a + i)) [0..<length bs] = bs"
    for a and bs :: "u8 list" and m by (rule nth_equalityI) simp_all
  moreover have "map (\<lambda>i. if b \<le> a + i \<and> a + i < b + length bs then bs ! (a + i - b) else m (a + i)) [0..<k]
      = map (\<lambda>i. m (a + i)) [0..<k]"
    if "b + length bs \<le> a \<or> a + k \<le> b" for a b k and bs :: "u8 list" and m using that by auto
  ultimately show ?thesis
    unfolding guest_memory_laws_def ex_gm_def within_def apart_def
    by (auto split: if_splits)
qed

definition ex_mem :: "nat \<Rightarrow> u8" where
  "ex_mem i = (if i = 12 \<or> i = 14 \<or> i = 28 \<or> i = 66 then 1 else 0)"

definition ex_queue :: queue where
  "ex_queue = (queue_new 4)\<lparr>q_size := 2, q_ready := True, q_avail_ring := 64, q_used_ring := 128,
     q_event_idx_enabled := True\<rparr>"

lemma ex_queue_valid: "valid_layout ex_gm ex_mem ex_queue"
  by (simp add: valid_layout_def ex_queue_def queue_new_def is_power_of_two_def area_ok_def ex_gm_def)

theorem descriptor_chain_bounded_witness:
  "\<exists>c. checked_new ex_gm ex_mem 0 2 0 = Some c \<and> length (desc_iter ex_gm ex_mem c) \<le> 2"
proof -
  have "checked_new ex_gm ex_mem 0 2 0 \<noteq> None" by code_simp
  then obtain c where "checked_new ex_gm ex_mem 0 2 0 = Some c" by blast
  then show ?thesis using descriptor_chain_bounded by fastforce
qed

theorem pop_takes_next_slot_witness:
  "\<exists>idx. avail_idx ex_gm ex_mem ex_queue = Inr idx \<and> isl (queue_pop ex_gm ex_mem ex_queue) = False"
proof -
  have "unat (q_size ex_queue) \<le> 16384" by (simp add: ex_queue_def)
  then show ?thesis
    using pop_takes_next_slot [OF ex_gm_laws ex_queue_valid] by (force split: if_splits)
qed

theorem add_used_publishes_witness:
  "fst (add_used ex_gm 1 7 (ex_mem, ex_queue)) = Inr ()
   \<and> fst (add_used ex_gm 2 7 (ex_mem, ex_queue)) = Inl InvalidDescriptorIndex"
proof -
  have "(1 :: u16) < q_size ex_queue" "\<not> (2 :: u16) < q_size ex_queue" by (simp_all add: ex_queue_def)
  then show ?thesis
    using add_used_publishes [OF ex_gm_laws ex_queue_valid, of 1 7]
      add_used_publishes [OF ex_gm_laws ex_queue_valid, of 2 7] by auto
qed

theorem notification_window_witness:
  "needs_notification ex_gm ex_mem (ex_queue\<lparr>q_next_used := 1, q_num_added := 1\<rparr>) =
     Inr (True, ex_queue\<lparr>q_next_used := 1, q_num_added := 0\<rparr>)"
proof -
  let ?q = "ex_queue\<lparr>q_next_used := 1, q_num_added := 1\<rparr>"
  have "used_event ex_gm ex_mem ?q = Inr 0" by code_simp
  from notification_window [OF this] show ?thesis by (simp add: ex_queue_def)
qed

end
