(* ===== verification/Bus.thy ===== *)
theory Bus
  imports Prelude
begin

text \<open>
  The bus that routes guest accesses to devices (\<open>crates/pvisor-vm/src/devices/bus.rs\<close>).

  The \<open>BTreeMap\<close> ordered by base address is the list of its entries in ascending order. A
  device is shared, so an entry holds its number in a store; what a device does with a read or
  a write is a parameter. Addresses are 64-bit words: \<open>base + len - 1\<close> wraps.
\<close>

type_synonym bus = "(u64 \<times> u64 \<times> nat) list"

definition bus_new :: bus where
  "bus_new = []"

definition first_before :: "u64 \<Rightarrow> bus \<Rightarrow> (u64 \<times> u64 \<times> nat) option" where
  "first_before addr devices = find (\<lambda>(start, _, _). start \<le> addr) (rev devices)"

definition get_device :: "u64 \<Rightarrow> bus \<Rightarrow> (u64 \<times> nat) option" where
  "get_device addr devices =
     (case first_before addr devices of
        None \<Rightarrow> None
      | Some (start, len, dev) \<Rightarrow>
          (let offset = addr - start in if offset < len then Some (offset, dev) else None))"

definition mapped_devices :: "bus \<Rightarrow> (u64 \<times> u64 \<times> nat) list" where
  "mapped_devices devices = devices"

text \<open>\<open>BTreeMap::insert\<close>: an equal key keeps its range and takes the new device.\<close>

fun bus_put :: "u64 \<Rightarrow> u64 \<Rightarrow> nat \<Rightarrow> bus \<Rightarrow> bool \<times> bus" where
  "bus_put base len dev [] = (False, [(base, len, dev)])"
| "bus_put base len dev ((b, l, d) # rest) =
     (if base < b then (False, (base, len, dev) # (b, l, d) # rest)
      else if base = b then (True, (b, l, dev) # rest)
      else (let (replaced, rest') = bus_put base len dev rest in (replaced, (b, l, d) # rest')))"

datatype bus_error = Overlap

definition bus_insert :: "nat \<Rightarrow> u64 \<Rightarrow> u64 \<Rightarrow> bus \<Rightarrow> (bus_error + unit) \<times> bus" where
  "bus_insert device base len devices =
     (if len = 0 then (Inl Overlap, devices)
      else if get_device base devices \<noteq> None then (Inl Overlap, devices)
      else if (case first_before (base + len - 1) devices of None \<Rightarrow> False | Some (start, _, _) \<Rightarrow> base \<le> start)
      then (Inl Overlap, devices)
      else (let (replaced, devices') = bus_put base len device devices
            in (if replaced then Inl Overlap else Inr (), devices')))"

text \<open>An access: the device's own operation, on its own offset, when some range holds the address.\<close>

definition bus_read ::
  "('d \<Rightarrow> u64 \<Rightarrow> u64 \<Rightarrow> u8 list \<Rightarrow> 'd \<times> u8 list) \<Rightarrow> u64 \<Rightarrow> u64 \<Rightarrow> u8 list \<Rightarrow> bus \<Rightarrow> (nat \<Rightarrow> 'd)
     \<Rightarrow> bool \<times> (nat \<Rightarrow> 'd) \<times> u8 list" where
  "bus_read device_read vcpuid addr data devices store =
     (case get_device addr devices of
        None \<Rightarrow> (False, store, data)
      | Some (offset, dev) \<Rightarrow>
          (let (d, data') = device_read (store dev) vcpuid offset data in (True, store(dev := d), data')))"

definition bus_write ::
  "('d \<Rightarrow> u64 \<Rightarrow> u64 \<Rightarrow> u8 list \<Rightarrow> 'd) \<Rightarrow> u64 \<Rightarrow> u64 \<Rightarrow> u8 list \<Rightarrow> bus \<Rightarrow> (nat \<Rightarrow> 'd)
     \<Rightarrow> bool \<times> (nat \<Rightarrow> 'd)" where
  "bus_write device_write vcpuid addr data devices store =
     (case get_device addr devices of
        None \<Rightarrow> (False, store)
      | Some (offset, dev) \<Rightarrow> (True, store(dev := device_write (store dev) vcpuid offset data)))"

section \<open>Disjoint ranges\<close>

definition in_range :: "u64 \<Rightarrow> u64 \<times> u64 \<times> nat \<Rightarrow> bool" where
  "in_range addr r = (case r of (b, l, _) \<Rightarrow> unat b \<le> unat addr \<and> unat addr < unat b + unat l)"

definition before :: "u64 \<times> u64 \<times> nat \<Rightarrow> u64 \<times> u64 \<times> nat \<Rightarrow> bool" where
  "before r s = (case r of (b, l, _) \<Rightarrow> case s of (b', _, _) \<Rightarrow> unat b + unat l \<le> unat b')"

definition bus_inv :: "bus \<Rightarrow> bool" where
  "bus_inv devices \<longleftrightarrow>
     sorted_wrt before devices \<and> list_all (\<lambda>(b, l, _). l \<noteq> 0 \<and> unat b + unat l \<le> 2 ^ 64) devices"

definition range_free :: "u64 \<Rightarrow> u64 \<Rightarrow> bus \<Rightarrow> bool" where
  "range_free base len devices \<longleftrightarrow>
     list_all (\<lambda>r. before r (base, len, 0) \<or> before (base, len, 0) r) devices"

lemma first_before_last:
  assumes "sorted_wrt before devices" "r \<in> set devices" "fst r \<le> addr"
  shows "\<exists>s. first_before addr devices = Some s \<and> s \<in> set devices \<and> fst s \<le> addr \<and> (s = r \<or> before r s)"
  using assms
proof (induction devices rule: rev_induct)
  case (snoc x devices)
  show ?case
  proof (cases "fst x \<le> addr")
    case True
    then have "first_before addr (devices @ [x]) = Some x" by (simp add: first_before_def split_beta)
    then show ?thesis using snoc.prems True by (auto simp: sorted_wrt_append)
  next
    case False
    then have "first_before addr (devices @ [x]) = first_before addr devices"
      by (simp add: first_before_def split_beta)
    then show ?thesis using snoc False by (auto simp: sorted_wrt_append)
  qed
qed simp

lemma first_before_SomeD:
  "first_before addr devices = Some s \<Longrightarrow> s \<in> set devices \<and> fst s \<le> addr"
  by (auto simp: first_before_def split_beta dest: find_SomeD)

lemma get_device_iff:
  assumes "bus_inv devices"
  shows "get_device addr devices = Some (offset, dev) \<longleftrightarrow>
    (\<exists>b l. (b, l, dev) \<in> set devices \<and> in_range addr (b, l, dev) \<and> offset = addr - b)"
proof
  assume "get_device addr devices = Some (offset, dev)"
  then obtain b l where "first_before addr devices = Some (b, l, dev)" "addr - b < l" "offset = addr - b"
    by (auto simp: get_device_def Let_def split: option.splits if_splits)
  then show "\<exists>b l. (b, l, dev) \<in> set devices \<and> in_range addr (b, l, dev) \<and> offset = addr - b"
    using first_before_SomeD [of addr devices "(b, l, dev)"]
    by (intro exI [of _ b] exI [of _ l]) (auto simp: in_range_def word_less_nat_alt word_le_nat_alt unat_sub_if')
next
  assume "\<exists>b l. (b, l, dev) \<in> set devices \<and> in_range addr (b, l, dev) \<and> offset = addr - b"
  then obtain b l where r: "(b, l, dev) \<in> set devices" "in_range addr (b, l, dev)" "offset = addr - b" by blast
  then have "fst (b, l, dev) \<le> addr" by (simp add: in_range_def word_le_nat_alt)
  then obtain s where s: "first_before addr devices = Some s" "fst s \<le> addr" "s = (b, l, dev) \<or> before (b, l, dev) s"
    using first_before_last [OF _ r(1)] assms unfolding bus_inv_def by blast
  moreover have "\<not> before (b, l, dev) s"
    using s(2) r(2) by (auto simp: before_def in_range_def word_le_nat_alt split: prod.splits)
  ultimately have "first_before addr devices = Some (b, l, dev)" by simp
  moreover have "addr - b < l" using r(2) by (auto simp: in_range_def word_less_nat_alt word_le_nat_alt unat_sub_if')
  ultimately show "get_device addr devices = Some (offset, dev)" using r(3) by (simp add: get_device_def)
qed

lemma bus_put_free:
  assumes "bus_inv devices" "range_free base len devices" "len \<noteq> 0" "unat base + unat len \<le> 2 ^ 64"
  shows "\<exists>devices'. bus_put base len dev devices = (False, devices') \<and> bus_inv devices'
    \<and> set devices' = insert (base, len, dev) (set devices)"
  using assms
proof (induction devices)
  case Nil
  then show ?case by (simp add: bus_inv_def)
next
  case (Cons r rest)
  obtain b l d where r: "r = (b, l, d)" by (cases r)
  have pos: "0 < unat l" "0 < unat len" using Cons.prems by (auto simp: bus_inv_def r unat_gt_0)
  have sep: "unat b + unat l \<le> unat base \<or> unat base + unat len \<le> unat b"
    using Cons.prems(2) by (simp add: range_free_def before_def r)
  show ?case
  proof (cases "base < b")
    case True
    then have "unat base + unat len \<le> unat b" using sep pos by (simp add: word_less_nat_alt)
    moreover have "unat b \<le> unat b'" if "(b', l', d') \<in> set rest" for b' l' d'
      using Cons.prems(1) that by (force simp: bus_inv_def before_def r)
    ultimately show ?thesis
      using True Cons.prems by (force simp: bus_inv_def before_def r)
  next
    case False
    then have le: "unat b + unat l \<le> unat base" "base \<noteq> b" using sep pos by (auto simp: word_less_nat_alt)
    obtain rest' where rest': "bus_put base len dev rest = (False, rest')" "bus_inv rest'"
      "set rest' = insert (base, len, dev) (set rest)"
      using Cons by (auto simp: bus_inv_def range_free_def)
    have "bus_inv (r # rest')"
      using rest'(2, 3) le Cons.prems(1) by (auto simp: bus_inv_def before_def r)
    then show ?thesis using rest' False le r by auto
  qed
qed

lemma range_free_iff:
  assumes inv: "bus_inv devices" and len: "len \<noteq> 0" "unat base + unat len \<le> 2 ^ 64"
  shows "range_free base len devices \<longleftrightarrow> get_device base devices = None
    \<and> (case first_before (base + len - 1) devices of None \<Rightarrow> True | Some (start, _, _) \<Rightarrow> \<not> base \<le> start)"
    (is "_ \<longleftrightarrow> ?none \<and> ?last")
proof
  let ?e = "base + len - 1"
  have pos: "0 < unat len" using len(1) by (simp add: unat_gt_0)
  have e: "unat ?e = unat base + unat len - 1"
  proof -
    have "unat (base + (len - 1)) = unat base + unat (len - 1)"
      using len pos by (intro unat_add_no_overflow) (simp add: unat_minus_one)
    then show ?thesis using len pos by (simp add: unat_minus_one algebra_simps)
  qed
  have lpos: "0 < unat l" if "(b, l, d) \<in> set devices" for b l d
    using inv that by (auto simp: bus_inv_def list_all_iff unat_gt_0)
  {
    assume free: "range_free base len devices"
    have sep: "unat b + unat l \<le> unat base \<or> unat base + unat len \<le> unat b" if "(b, l, d) \<in> set devices" for b l d
      using free that by (auto simp: range_free_def before_def list_all_iff)
    have ?none
    proof (rule ccontr)
      assume "get_device base devices \<noteq> None"
      then obtain b l d where "(b, l, d) \<in> set devices" "in_range base (b, l, d)"
        using get_device_iff [OF inv] by (metis not_Some_eq surj_pair)
      then show False using sep pos by (fastforce simp: in_range_def)
    qed
    moreover have ?last
      using first_before_SomeD [of ?e devices] sep lpos e pos
      by (fastforce simp: word_le_nat_alt split: option.splits)
    ultimately show "?none \<and> ?last" ..
  next
    assume ok: "?none \<and> ?last"
    have "before r (base, len, 0) \<or> before (base, len, 0) r" if r: "r \<in> set devices" for r
    proof -
      obtain b l d where [simp]: "r = (b, l, d)" by (cases r)
      show ?thesis
      proof (cases "b \<le> base")
        case True
        have "\<not> in_range base r" using ok r get_device_iff [OF inv, of base] by fastforce
        then show ?thesis using True by (auto simp: in_range_def before_def word_le_nat_alt)
      next
        case False
        have "\<not> fst r \<le> ?e"
        proof
          assume "fst r \<le> ?e"
          then obtain s where "first_before ?e devices = Some s" "s = r \<or> before r s"
            using first_before_last [OF _ r] inv unfolding bus_inv_def by blast
          then show False
            using ok False lpos [of b l d] r by (auto simp: before_def word_le_nat_alt split: prod.splits)
        qed
        then show ?thesis using e pos by (auto simp: before_def word_le_nat_alt)
      qed
    qed
    then show "range_free base len devices" by (simp add: range_free_def list_all_iff)
  }
qed

lemma bus_insert_cases:
  assumes "bus_inv devices" "unat base + unat len \<le> 2 ^ 64"
  shows "if len \<noteq> 0 \<and> range_free base len devices then
      \<exists>devices'. bus_insert device base len devices = (Inr (), devices') \<and> bus_inv devices'
        \<and> set devices' = insert (base, len, device) (set devices)
    else bus_insert device base len devices = (Inl Overlap, devices)"
proof (cases "len = 0")
  case False
  note iff = range_free_iff [OF assms(1) False assms(2)]
  show ?thesis
  proof (cases "range_free base len devices")
    case True
    then show ?thesis
      using bus_put_free [OF assms(1) True False assms(2), of device] iff False
      by (auto simp: bus_insert_def split: option.splits)
  next
    case not_free: False
    then show ?thesis using iff False by (auto simp: bus_insert_def split: option.splits)
  qed
qed (simp add: bus_insert_def)

section \<open>Ranges that wrap\<close>

text \<open>
  What every bus keeps, wrapping ranges included: the bases ascend and no range is empty. The ranges are
  apart as long as all of them end inside the address space.
\<close>

definition bases_ascend :: "bus \<Rightarrow> bool" where
  "bases_ascend devices \<longleftrightarrow> sorted_wrt (\<lambda>r s. fst r < fst s) devices \<and> list_all (\<lambda>(_, l, _). l \<noteq> 0) devices"

definition ends_inside :: "bus \<Rightarrow> bool" where
  "ends_inside devices \<longleftrightarrow> list_all (\<lambda>(b, l, _). unat b + unat l \<le> 2 ^ 64) devices"

definition any_bus_inv :: "bus \<Rightarrow> bool" where
  "any_bus_inv devices \<longleftrightarrow> bases_ascend devices \<and> (ends_inside devices \<longrightarrow> bus_inv devices)"

lemma first_before_iff:
  assumes "bases_ascend devices"
  shows "first_before addr devices = Some r \<longleftrightarrow>
    r \<in> set devices \<and> fst r \<le> addr \<and> (\<forall>s \<in> set devices. fst s \<le> addr \<longrightarrow> fst s \<le> fst r)"
  using assms
proof (induction devices rule: rev_induct)
  case (snoc x devices)
  have asc: "bases_ascend devices" "\<forall>s \<in> set devices. fst s < fst x"
    using snoc.prems by (auto simp: bases_ascend_def sorted_wrt_append)
  show ?case
  proof (cases "fst x \<le> addr")
    case True
    then have "first_before addr (devices @ [x]) = Some x" by (simp add: first_before_def split_beta)
    then show ?thesis using True asc(2) by (auto simp: leD intro: less_imp_le)
  next
    case False
    then have "first_before addr (devices @ [x]) = first_before addr devices"
      by (simp add: first_before_def split_beta)
    then show ?thesis using snoc.IH [OF asc(1)] False by auto
  qed
qed (simp add: first_before_def)

lemma routed_iff:
  assumes "bases_ascend devices"
  shows "get_device addr devices = Some (offset, dev) \<longleftrightarrow>
    (\<exists>b l. (b, l, dev) \<in> set devices \<and> in_range addr (b, l, dev) \<and> offset = addr - b
       \<and> (\<forall>s \<in> set devices. fst s \<le> addr \<longrightarrow> fst s \<le> b))"
proof -
  have "get_device addr devices = Some (offset, dev) \<longleftrightarrow>
      (\<exists>b l. first_before addr devices = Some (b, l, dev) \<and> addr - b < l \<and> offset = addr - b)"
    by (auto simp: get_device_def Let_def split: option.splits if_splits)
  moreover have "b \<le> addr \<and> addr - b < l \<longleftrightarrow> in_range addr (b, l, dev)" for b l
    by (auto simp: in_range_def word_less_nat_alt word_le_nat_alt unat_sub_if')
  ultimately show ?thesis unfolding first_before_iff [OF assms] by (metis fst_conv)
qed

lemma base_routed:
  assumes "bases_ascend devices" "(base, len, dev) \<in> set devices"
  shows "get_device base devices = Some (0, dev)"
proof -
  have "len \<noteq> 0" using assms by (auto simp: bases_ascend_def list_all_iff)
  then have "in_range base (base, len, dev)" by (simp add: in_range_def unat_gt_0)
  then show ?thesis unfolding routed_iff [OF assms(1)] using assms(2) by (intro exI [of _ base] exI [of _ len]) simp
qed

lemma bus_put_new:
  assumes "bases_ascend devices" "\<forall>s \<in> set devices. fst s \<noteq> base" "len \<noteq> 0"
  shows "\<exists>devices'. bus_put base len dev devices = (False, devices') \<and> bases_ascend devices'
    \<and> set devices' = insert (base, len, dev) (set devices)"
  using assms
proof (induction devices)
  case (Cons r rest)
  obtain b l d where r: "r = (b, l, d)" by (cases r)
  show ?case
  proof (cases "base < b")
    case True
    then show ?thesis using Cons.prems by (auto simp: r bases_ascend_def intro: order_less_trans)
  next
    case False
    then have less: "b < base" using Cons.prems(2) r by auto
    obtain rest' where "bus_put base len dev rest = (False, rest')" "bases_ascend rest'"
      "set rest' = insert (base, len, dev) (set rest)"
      using Cons by (auto simp: bases_ascend_def)
    then show ?thesis using less False Cons.prems(1) by (auto simp: r bases_ascend_def)
  qed
qed (simp add: bases_ascend_def)

text \<open>Every insertion either adds its range under a new base or changes nothing.\<close>

lemma bus_insert_any:
  assumes "bases_ascend devices"
  shows "bus_insert device base len devices = (Inl Overlap, devices)
    \<or> (len \<noteq> 0 \<and> (\<exists>devices'. bus_insert device base len devices = (Inr (), devices') \<and> bases_ascend devices'
         \<and> set devices' = insert (base, len, device) (set devices)))"
proof (cases "len = 0 \<or> get_device base devices \<noteq> None
    \<or> (case first_before (base + len - 1) devices of None \<Rightarrow> False | Some (start, _, _) \<Rightarrow> base \<le> start)")
  case True
  then show ?thesis by (auto simp: bus_insert_def)
next
  case False
  have "fst s \<noteq> base" if "s \<in> set devices" for s
    using base_routed [OF assms, of base "fst (snd s)" "snd (snd s)"] that False by (cases s) auto
  then have fresh: "\<forall>s \<in> set devices. fst s \<noteq> base" by blast
  obtain devices' where "bus_put base len device devices = (False, devices')" "bases_ascend devices'"
    "set devices' = insert (base, len, device) (set devices)"
    using bus_put_new [OF assms fresh, of len device] False by blast
  then show ?thesis using False by (auto simp: bus_insert_def)
qed

lemma wrapped_end:
  assumes "2 ^ 64 < unat base + unat (len :: u64)"
  shows "(base :: u64) + len - 1 < base"
proof -
  have "unat len < 2 ^ 64" using unsigned_less [where 'a = nat, of len] by simp
  moreover have "unat (base + len) = (unat base + unat len) mod 2 ^ 64" by (simp add: unat_word_ariths)
  moreover have "unat base < 2 ^ 64" using unsigned_less [where 'a = nat, of base] by simp
  ultimately have sum: "unat (base + len) = unat base + unat len - 2 ^ 64" "0 < unat (base + len)"
    using assms by (simp_all add: mod_if)
  then have "unat (base + len - 1) = unat (base + len) - 1" by (metis unat_gt_0 unat_minus_one)
  then show ?thesis using sum \<open>unat len < 2 ^ 64\<close> assms unfolding word_less_nat_alt by linarith
qed

lemma wrapping_insert:
  assumes asc: "bases_ascend devices" and wraps: "2 ^ 64 < unat base + unat len"
  shows "fst (bus_insert device base len devices) = Inr () \<longleftrightarrow> get_device base devices = None"
proof -
  have "len \<noteq> 0" using wraps unsigned_less [where 'a = nat, of base] by auto
  moreover have "\<not> (case first_before (base + len - 1) devices of None \<Rightarrow> False | Some (start, _, _) \<Rightarrow> base \<le> start)"
    using wrapped_end [OF wraps] first_before_SomeD [of "base + len - 1" devices]
    by (auto split: option.splits)
  moreover have "\<exists>devices'. bus_put base len device devices = (False, devices')"
    if "get_device base devices = None" "len \<noteq> 0"
  proof -
    have "fst s \<noteq> base" if "s \<in> set devices" for s
      using base_routed [OF asc, of base "fst (snd s)" "snd (snd s)"] that \<open>get_device base devices = None\<close>
      by (cases s) auto
    then show ?thesis using bus_put_new [OF asc, of base len device] \<open>len \<noteq> 0\<close> by blast
  qed
  ultimately show ?thesis by (cases "get_device base devices") (auto simp: bus_insert_def)
qed

section \<open>Histories\<close>

text \<open>Insertions of any range, accepted or not.\<close>

inductive bus_step :: "bus \<Rightarrow> bus \<Rightarrow> bool" where
  insert: "bus_step devices (snd (bus_insert device base len devices))"

inductive_cases bus_stepE: "bus_step devices devices'"

lemma any_bus_inv_insert:
  assumes inv: "any_bus_inv devices"
  shows "any_bus_inv (snd (bus_insert device base len devices))"
proof -
  have asc: "bases_ascend devices" using inv by (simp add: any_bus_inv_def)
  from bus_insert_any [OF asc, of device base len] show ?thesis
  proof (elim disjE conjE exE)
    fix devices'
    assume ok: "bus_insert device base len devices = (Inr (), devices')" "bases_ascend devices'"
      "set devices' = insert (base, len, device) (set devices)"
    have "bus_inv devices'" if "ends_inside devices'"
    proof -
      have "unat base + unat len \<le> 2 ^ 64" "bus_inv devices"
        using that ok(3) inv by (auto simp: ends_inside_def any_bus_inv_def list_all_iff)
      then show ?thesis using bus_insert_cases [of devices base len device] ok(1) by (auto split: if_splits)
    qed
    then show ?thesis using ok by (simp add: any_bus_inv_def)
  qed (use inv in simp)
qed

interpretation routing: state_machine "\<lambda>devices. devices = bus_new" bus_step any_bus_inv
proof
  show "any_bus_inv s" if "s = bus_new" for s
    using that by (simp add: bus_new_def any_bus_inv_def bases_ascend_def bus_inv_def)
  show "any_bus_inv t" if "any_bus_inv s" "bus_step s t" for s t
    using that by (auto elim: bus_stepE intro: any_bus_inv_insert)
qed

section \<open>Properties\<close>

text \<open>
  C26. How a bus built by any insertions routes. An address reaches at most one device, with the offset from
  its base, and only inside the range the device was given. While all ranges end inside the address
  space the devices are apart and every address of every range is routed; then a further range
  that ends inside it is accepted exactly when it is not empty and overlaps no other. A range that
  runs past the end of the address space is accepted whenever its base is not routed, whatever it
  overlaps. An accepted range is added as it is, and a refusal leaves the bus as it was.
\<close>

theorem bus_routes_disjoint_ranges:
  assumes "bus_step\<^sup>*\<^sup>* bus_new devices"
  shows "(\<forall>addr offset dev. get_device addr devices = Some (offset, dev) \<longrightarrow>
            (\<exists>b l. (b, l, dev) \<in> set (mapped_devices devices) \<and> unat b \<le> unat addr
                   \<and> unat addr < unat b + unat l \<and> offset = addr - b))
    \<and> (list_all (\<lambda>(b, l, _). unat b + unat l \<le> 2 ^ 64) (mapped_devices devices) \<longrightarrow>
         (\<forall>addr b l dev. (b, l, dev) \<in> set (mapped_devices devices) \<and> unat b \<le> unat addr \<and> unat addr < unat b + unat l
            \<longrightarrow> get_device addr devices = Some (addr - b, dev))
         \<and> (unat base + unat len \<le> 2 ^ 64 \<longrightarrow>
              (fst (bus_insert device base len devices) = Inr ()
                 \<longleftrightarrow> len \<noteq> 0 \<and> (\<forall>(b, l, _) \<in> set (mapped_devices devices).
                       unat b + unat l \<le> unat base \<or> unat base + unat len \<le> unat b))))
    \<and> (2 ^ 64 < unat base + unat len \<longrightarrow>
         (fst (bus_insert device base len devices) = Inr () \<longleftrightarrow> get_device base devices = None))
    \<and> set (snd (bus_insert device base len devices)) =
        (if fst (bus_insert device base len devices) = Inr () then {(base, len, device)} else {})
        \<union> set (mapped_devices devices)"
proof -
  have inv: "any_bus_inv devices" using routing.inv_reachable [OF refl assms] .
  then have asc: "bases_ascend devices" by (simp add: any_bus_inv_def)
  have free: "range_free base len devices \<longleftrightarrow> (\<forall>(b, l, _) \<in> set devices.
      unat b + unat l \<le> unat base \<or> unat base + unat len \<le> unat b)"
    by (auto simp: range_free_def before_def list_all_iff)
  have "\<exists>b l. (b, l, dev) \<in> set devices \<and> unat b \<le> unat addr \<and> unat addr < unat b + unat l \<and> offset = addr - b"
    if "get_device addr devices = Some (offset, dev)" for addr offset dev
    using that unfolding routed_iff [OF asc] by (auto simp: in_range_def)
  moreover have "get_device addr devices = Some (addr - b, dev)"
    if "ends_inside devices" "(b, l, dev) \<in> set devices" "unat b \<le> unat addr" "unat addr < unat b + unat l" for addr b l dev
    using that inv get_device_iff [of devices addr "addr - b" dev] by (auto simp: any_bus_inv_def in_range_def)
  moreover have "fst (bus_insert device base len devices) = Inr () \<longleftrightarrow> len \<noteq> 0 \<and> range_free base len devices"
    if "ends_inside devices" "unat base + unat len \<le> 2 ^ 64"
    using bus_insert_cases [of devices base len device] that inv by (auto simp: any_bus_inv_def split: if_splits)
  moreover have "set (snd (bus_insert device base len devices)) =
      (if fst (bus_insert device base len devices) = Inr () then {(base, len, device)} else {}) \<union> set devices"
    using bus_insert_any [OF asc, of device base len] by auto
  ultimately show ?thesis
    using wrapping_insert [OF asc, of base len device] unfolding mapped_devices_def free ends_inside_def by blast
qed

text \<open>
  A range that wraps is accepted over a device that is already mapped. The addresses behind that device
  lie inside the new range and are routed nowhere.
\<close>

lemma wrapping_range_overlaps:
  "bus_insert 1 0xfffffffffffffff0 32 [(0xfffffffffffffff8, 4, 0)]
     = (Inr (), [(0xfffffffffffffff0, 32, 1), (0xfffffffffffffff8, 4, 0)])
   \<and> get_device 0xfffffffffffffffc [(0xfffffffffffffff0, 32, 1), (0xfffffffffffffff8, 4, 0)] = None"
  by code_simp

theorem bus_routes_disjoint_ranges_witness:
  "get_device 20 (snd (bus_insert 7 16 16 bus_new)) = Some (4, 7)
   \<and> fst (bus_insert 8 15 16 (snd (bus_insert 7 16 16 bus_new))) \<noteq> Inr ()"
proof -
  let ?bus = "snd (bus_insert 7 16 16 bus_new)"
  have bus: "?bus = [(16, 16, 7)]" by (simp add: bus_insert_def bus_new_def get_device_def first_before_def)
  have reach: "bus_step\<^sup>*\<^sup>* bus_new ?bus" by (intro r_into_rtranclp bus_step.insert)
  note t = bus_routes_disjoint_ranges [OF reach, of 15 16 8]
  have inside: "list_all (\<lambda>(b, l, _). unat b + unat l \<le> 2 ^ 64) (mapped_devices ?bus)"
    "(16, 16, 7) \<in> set (mapped_devices ?bus)" by (simp_all add: bus mapped_devices_def)
  have "unat (16 :: u64) \<le> unat (20 :: u64)" "unat (20 :: u64) < unat (16 :: u64) + unat (16 :: u64)" by simp_all
  then have "get_device 20 ?bus = Some (20 - 16, 7)" using t inside by blast
  moreover have "fst (bus_insert 8 15 16 ?bus) \<noteq> Inr ()"
    using t inside(1) by (simp add: bus mapped_devices_def)
  ultimately show ?thesis by simp
qed

end
