(* ===== verification/Multikey.thy ===== *)
theory Multikey
  imports Prelude "HOL-Library.AList"
begin

text \<open>
  The map with two keys per value that the shared file system keeps its inodes in
  (\<open>crates/pvisor-vm/src/devices/virtio/fs/multikey.rs\<close>). Both \<open>BTreeMap\<close>s are association
  lists; the promised one-to-one relation of the keys is the invariant, and the abstract map is
  the partial function from main keys to an alternate key and a value.
\<close>

record ('k, 'l, 'v) multikey =
  mk_main :: "('k \<times> 'l \<times> 'v) list"
  mk_alt :: "('l \<times> 'k) list"

definition mk_new :: "('k, 'l, 'v) multikey" where
  "mk_new = \<lparr>mk_main = [], mk_alt = []\<rparr>"

definition mk_values :: "('k :: linorder, 'l, 'v) multikey \<Rightarrow> 'v list" where
  "mk_values m = map (snd \<circ> snd) (sort_key fst (mk_main m))"

definition mk_get :: "'k \<Rightarrow> ('k, 'l, 'v) multikey \<Rightarrow> 'v option" where
  "mk_get k m = map_option snd (map_of (mk_main m) k)"

definition mk_get_alt :: "'l \<Rightarrow> ('k, 'l, 'v) multikey \<Rightarrow> 'v option" where
  "mk_get_alt l m = (case map_of (mk_alt m) l of Some k \<Rightarrow> mk_get k m | None \<Rightarrow> None)"

definition mk_insert :: "'k \<Rightarrow> 'l \<Rightarrow> 'v \<Rightarrow> ('k, 'l, 'v) multikey \<Rightarrow> 'v option \<times> ('k, 'l, 'v) multikey" where
  "mk_insert k1 k2 v m =
     (let alt1 = AList.update k2 k1 (mk_alt m);
          (oldval, main1) = (case map_of (mk_alt m) k2 of
             Some oldkey \<Rightarrow> (map_of (mk_main m) oldkey, AList.delete oldkey (mk_main m))
           | None \<Rightarrow> (None, mk_main m));
          previous = map_of main1 k1;
          main2 = AList.update k1 (k2, v) main1
      in case (case previous of Some p \<Rightarrow> Some p | None \<Rightarrow> oldval) of
           None \<Rightarrow> (None, \<lparr>mk_main = main2, mk_alt = alt1\<rparr>)
         | Some (oldk2, w) \<Rightarrow>
             (Some w, \<lparr>mk_main = main2, mk_alt = (if oldk2 \<noteq> k2 then AList.delete oldk2 alt1 else alt1)\<rparr>))"

definition mk_remove :: "'k \<Rightarrow> ('k, 'l, 'v) multikey \<Rightarrow> 'v option \<times> ('k, 'l, 'v) multikey" where
  "mk_remove k m =
     (case map_of (mk_main m) k of
        None \<Rightarrow> (None, m)
      | Some (k2, v) \<Rightarrow>
          (Some v, \<lparr>mk_main = AList.delete k (mk_main m), mk_alt = AList.delete k2 (mk_alt m)\<rparr>))"

definition mk_clear :: "('k, 'l, 'v) multikey \<Rightarrow> ('k, 'l, 'v) multikey" where
  "mk_clear m = \<lparr>mk_main = [], mk_alt = []\<rparr>"

section \<open>The abstract map\<close>

definition mk_abs :: "('k, 'l, 'v) multikey \<Rightarrow> 'k \<Rightarrow> ('l \<times> 'v) option" where
  "mk_abs m = map_of (mk_main m)"

definition mk_inv :: "('k, 'l, 'v) multikey \<Rightarrow> bool" where
  "mk_inv m \<longleftrightarrow> (\<forall>k l. map_of (mk_alt m) l = Some k \<longleftrightarrow> (\<exists>v. map_of (mk_main m) k = Some (l, v)))"

text \<open>
  The contract of a map with two keys: an insertion drops whatever holds either key, and
  returns the value of the main key, or else of the alternate one.
\<close>

definition spec_insert ::
  "'k \<Rightarrow> 'l \<Rightarrow> 'v \<Rightarrow> ('k \<Rightarrow> ('l \<times> 'v) option) \<Rightarrow> 'k \<Rightarrow> ('l \<times> 'v) option" where
  "spec_insert k1 k2 v M =
     (\<lambda>k. if k = k1 then Some (k2, v)
          else if \<exists>w. M k = Some (k2, w) then None else M k)"

locale two_key_map =
  fixes abs :: "'m \<Rightarrow> 'k \<Rightarrow> ('l \<times> 'v) option"
    and inv :: "'m \<Rightarrow> bool"
    and insert :: "'k \<Rightarrow> 'l \<Rightarrow> 'v \<Rightarrow> 'm \<Rightarrow> 'v option \<times> 'm"
    and remove :: "'k \<Rightarrow> 'm \<Rightarrow> 'v option \<times> 'm"
    and get_alt :: "'l \<Rightarrow> 'm \<Rightarrow> 'v option"
  assumes insert_inv: "inv m \<Longrightarrow> inv (snd (insert k l v m))"
    and insert_abs: "inv m \<Longrightarrow> abs (snd (insert k l v m)) = spec_insert k l v (abs m)"
    and remove_inv: "inv m \<Longrightarrow> inv (snd (remove k m))"
    and remove_abs: "inv m \<Longrightarrow> abs (snd (remove k m)) = (abs m)(k := None)"
    and get_alt_abs: "inv m \<Longrightarrow> get_alt l m = Some v \<longleftrightarrow> (\<exists>k. abs m k = Some (l, v))"
    and alt_unique: "inv m \<Longrightarrow> abs m k = Some (l, v) \<Longrightarrow> abs m k' = Some (l, w) \<Longrightarrow> k = k'"
begin

lemma insert_then_alt: "inv m \<Longrightarrow> get_alt l (snd (insert k l v m)) = Some v"
  using insert_inv insert_abs [of m k l v] get_alt_abs [of "snd (insert k l v m)" l v]
  by (auto simp: spec_insert_def)

lemma insert_other_alt:
  assumes inv: "inv m" and "l' \<noteq> l" "\<And>v. abs m k \<noteq> Some (l', v)"
  shows "get_alt l' (snd (insert k l v m)) = get_alt l' m"
proof -
  have "get_alt l' (snd (insert k l v m)) = Some w \<longleftrightarrow> get_alt l' m = Some w" for w
  proof -
    have "spec_insert k l v (abs m) j = Some (l', w) \<longleftrightarrow> abs m j = Some (l', w)" for j
      using assms(2, 3) by (auto simp: spec_insert_def)
    then show ?thesis
      using get_alt_abs [OF insert_inv [OF inv], of l' k l v w] get_alt_abs [OF inv, of l' w] insert_abs [OF inv, of k l v]
      by simp
  qed
  then show ?thesis by (metis not_None_eq)
qed

text \<open>The entry that an insertion displaces from its main key is forgotten under its alternate key.\<close>

lemma insert_displaced_alt:
  assumes inv: "inv m" and k: "abs m k = Some (l', w)" and "l' \<noteq> l"
  shows "get_alt l' (snd (insert k l v m)) = None"
proof (rule ccontr)
  assume "get_alt l' (snd (insert k l v m)) \<noteq> None"
  then obtain j u where "spec_insert k l v (abs m) j = Some (l', u)"
    using get_alt_abs [OF insert_inv [OF inv]] insert_abs [OF inv] by auto
  then have "j \<noteq> k" "abs m j = Some (l', u)" using assms(3) by (auto simp: spec_insert_def split: if_splits)
  then show False using alt_unique [OF inv k] by blast
qed

lemma remove_other_alt:
  assumes inv: "inv m" and "\<And>w. abs m k \<noteq> Some (l, w)"
  shows "get_alt l (snd (remove k m)) = get_alt l m"
proof -
  have "((abs m)(k := None)) j = Some (l, w) \<longleftrightarrow> abs m j = Some (l, w)" for j w
    using assms(2) by (cases "j = k") auto
  then have "get_alt l (snd (remove k m)) = Some w \<longleftrightarrow> get_alt l m = Some w" for w
    unfolding get_alt_abs [OF remove_inv [OF inv]] get_alt_abs [OF inv] remove_abs [OF inv] by simp
  then show ?thesis by (metis not_None_eq)
qed

lemma remove_then_alt:
  assumes inv: "inv m" and k: "abs m k = Some (l, v)"
  shows "get_alt l (snd (remove k m)) = None"
proof (rule ccontr)
  assume "get_alt l (snd (remove k m)) \<noteq> None"
  then obtain k' w where "k' \<noteq> k" "abs m k' = Some (l, w)"
    using get_alt_abs [OF remove_inv [OF inv]] remove_abs [OF inv] by (auto split: if_splits)
  then show False using alt_unique [OF inv k] by blast
qed

end

section \<open>The map meets its contract\<close>

lemma mk_invD:
  assumes "mk_inv m"
  shows "map_of (mk_alt m) l = Some k \<Longrightarrow> \<exists>v. map_of (mk_main m) k = Some (l, v)"
    "map_of (mk_main m) k = Some (l, v) \<Longrightarrow> map_of (mk_alt m) l = Some k"
    "map_of (mk_main m) k = Some (l, v) \<Longrightarrow> map_of (mk_main m) k' = Some (l, w) \<Longrightarrow> k = k'"
  using assms unfolding mk_inv_def by (blast, blast, metis option.inject)

text \<open>The two maps after an insertion, and the value it returns.\<close>

lemma mk_insert_main:
  assumes "mk_inv m"
  shows "map_of (mk_main (snd (mk_insert k1 k2 v m))) = spec_insert k1 k2 v (map_of (mk_main m))"
proof (cases "map_of (mk_alt m) k2")
  case None
  then have "map_of (mk_main m) k \<noteq> Some (k2, w)" for k w using mk_invD(2) [OF assms] by fastforce
  then show ?thesis
    using None by (auto simp: mk_insert_def Let_def spec_insert_def update_conv' split: option.split)
next
  case (Some old)
  then obtain w where w: "map_of (mk_main m) old = Some (k2, w)" using mk_invD(1) [OF assms] by blast
  then have "(\<exists>u. map_of (mk_main m) k = Some (k2, u)) \<longleftrightarrow> k = old" for k using mk_invD(3) [OF assms] by blast
  then show ?thesis
    using Some w by (auto simp: mk_insert_def Let_def spec_insert_def update_conv' delete_conv' split: option.split)
qed

lemma mk_insert_alt:
  assumes "mk_inv m"
  shows "map_of (mk_alt (snd (mk_insert k1 k2 v m))) l =
    (if l = k2 then Some k1 else if \<exists>w. map_of (mk_main m) k1 = Some (l, w) then None else map_of (mk_alt m) l)"
proof (cases "map_of (mk_alt m) k2")
  case None
  then show ?thesis
    by (auto simp: mk_insert_def Let_def update_conv' delete_conv' split: option.split)
next
  case (Some old)
  then obtain w where w: "map_of (mk_main m) old = Some (k2, w)" using mk_invD(1) [OF assms] by blast
  then show ?thesis
    using Some by (cases "k1 = old") (auto simp: mk_insert_def Let_def update_conv' delete_conv' split: option.split)
qed

lemma mk_insert_returns:
  assumes "mk_inv m"
  shows "fst (mk_insert k1 k2 v m) = (case mk_get k1 m of Some w \<Rightarrow> Some w | None \<Rightarrow> mk_get_alt k2 m)"
proof (cases "map_of (mk_alt m) k2")
  case None
  then show ?thesis by (auto simp: mk_insert_def Let_def mk_get_def mk_get_alt_def split: option.split)
next
  case (Some old)
  then obtain w where "map_of (mk_main m) old = Some (k2, w)" using mk_invD(1) [OF assms] by blast
  then show ?thesis
    using Some by (cases "k1 = old") (auto simp: mk_insert_def Let_def mk_get_def mk_get_alt_def delete_conv' split: option.split)
qed

lemma mk_insert_inv:
  assumes "mk_inv m"
  shows "mk_inv (snd (mk_insert k1 k2 v m))"
  unfolding mk_inv_def mk_insert_main [OF assms] mk_insert_alt [OF assms]
proof (intro allI)
  fix k l
  let ?M = "map_of (mk_main m)" and ?A = "map_of (mk_alt m)"
  consider "l = k2" | w where "l \<noteq> k2" "?M k1 = Some (l, w)" | "l \<noteq> k2" "\<nexists>w. ?M k1 = Some (l, w)" by blast
  then show "((if l = k2 then Some k1 else if \<exists>w. ?M k1 = Some (l, w) then None else ?A l) = Some k)
      = (\<exists>u. spec_insert k1 k2 v ?M k = Some (l, u))"
  proof cases
    case 1
    then show ?thesis by (auto simp: spec_insert_def)
  next
    case 2
    then have "?M k \<noteq> Some (l, u)" if "k \<noteq> k1" for u using mk_invD(3) [OF assms] that by blast
    then show ?thesis using 2 by (auto simp: spec_insert_def)
  next
    case 3
    have "?A l = Some k \<longleftrightarrow> (\<exists>u. ?M k = Some (l, u))" using assms by (simp add: mk_inv_def)
    then show ?thesis using 3 by (auto simp: spec_insert_def)
  qed
qed

lemma mk_remove_facts:
  assumes "mk_inv m"
  shows "mk_inv (snd (mk_remove k m))" "mk_abs (snd (mk_remove k m)) = (mk_abs m)(k := None)"
    "fst (mk_remove k m) = mk_get k m"
proof -
  show "mk_abs (snd (mk_remove k m)) = (mk_abs m)(k := None)" "fst (mk_remove k m) = mk_get k m"
    by (auto simp: mk_remove_def mk_abs_def mk_get_def delete_conv' split: option.split)
  show "mk_inv (snd (mk_remove k m))"
  proof (cases "map_of (mk_main m) k")
    case None
    then show ?thesis using assms by (simp add: mk_remove_def)
  next
    case (Some p)
    obtain l v where p: "p = (l, v)" by (cases p)
    have "((map_of (mk_alt m))(l := None)) j = Some i \<longleftrightarrow> (\<exists>u. ((map_of (mk_main m))(k := None)) i = Some (j, u))" for i j
    proof (cases "j = l")
      case True
      then show ?thesis using mk_invD(3) [OF assms, of k l v i] Some p by auto
    next
      case False
      have "map_of (mk_alt m) j = Some i \<longleftrightarrow> (\<exists>u. map_of (mk_main m) i = Some (j, u))"
        using assms by (simp add: mk_inv_def)
      then show ?thesis using False Some p by auto
    qed
    then show ?thesis using Some p by (simp add: mk_remove_def mk_inv_def delete_conv')
  qed
qed

lemma mk_get_alt_iff:
  assumes "mk_inv m"
  shows "mk_get_alt l m = Some v \<longleftrightarrow> (\<exists>k. mk_abs m k = Some (l, v))"
proof
  assume "mk_get_alt l m = Some v"
  then obtain k where k: "map_of (mk_alt m) l = Some k" "mk_get k m = Some v"
    by (auto simp: mk_get_alt_def split: option.splits)
  then show "\<exists>k. mk_abs m k = Some (l, v)"
    using mk_invD(1) [OF assms k(1)] by (auto simp: mk_get_def mk_abs_def)
next
  assume "\<exists>k. mk_abs m k = Some (l, v)"
  then obtain k where k: "map_of (mk_main m) k = Some (l, v)" by (auto simp: mk_abs_def)
  then show "mk_get_alt l m = Some v"
    using mk_invD(2) [OF assms k] by (simp add: mk_get_alt_def mk_get_def)
qed

interpretation inodes: two_key_map mk_abs mk_inv mk_insert mk_remove mk_get_alt
proof
  fix m :: "('a, 'b, 'c) multikey" and k k' l v w
  assume inv: "mk_inv m"
  show "mk_inv (snd (mk_insert k l v m))" by (rule mk_insert_inv [OF inv])
  show "mk_abs (snd (mk_insert k l v m)) = spec_insert k l v (mk_abs m)"
    using mk_insert_main [OF inv] by (simp add: mk_abs_def)
  show "mk_inv (snd (mk_remove k m))" "mk_abs (snd (mk_remove k m)) = (mk_abs m)(k := None)"
    by (rule mk_remove_facts [OF inv])+
  show "mk_get_alt l m = Some v \<longleftrightarrow> (\<exists>k. mk_abs m k = Some (l, v))" by (rule mk_get_alt_iff [OF inv])
  show "k = k'" if "mk_abs m k = Some (l, v)" "mk_abs m k' = Some (l, w)"
    using that mk_invD(3) [OF inv] by (simp add: mk_abs_def)
qed

section \<open>Histories\<close>

inductive mk_step :: "('k, 'l, 'v) multikey \<Rightarrow> ('k, 'l, 'v) multikey \<Rightarrow> bool" where
  insert: "mk_step m (snd (mk_insert k1 k2 v m))"
| remove: "mk_step m (snd (mk_remove k m))"
| clear: "mk_step m (mk_clear m)"

inductive_cases mk_stepE: "mk_step m m'"

interpretation multikey: state_machine "\<lambda>m. m = mk_new" mk_step mk_inv
proof
  show "mk_inv s" if "s = mk_new" for s :: "('a, 'b, 'c) multikey" using that by (simp add: mk_new_def mk_inv_def)
next
  fix s t :: "('a, 'b, 'c) multikey" assume "mk_inv s" "mk_step s t"
  then show "mk_inv t"
    by (auto elim!: mk_stepE intro: mk_insert_inv mk_remove_facts(1)) (simp add: mk_clear_def mk_inv_def)
qed

section \<open>Property\<close>

text \<open>
  C37. After any sequence of insertions, removals and clears the two keys of every value name
  each other and nothing else. An insertion is found under both of its keys, forgets whatever
  had either of them, leaves every other entry under its main and its alternate key, and returns
  the value of the main key, or else of the alternate key, that it displaced. A removal returns
  the value it removes, forgets it under both keys and leaves every other entry under both of its
  keys; a clear forgets everything.
\<close>

theorem multikey_one_to_one:
  assumes "mk_step\<^sup>*\<^sup>* mk_new m"
  shows "(\<forall>k l v. map_of (mk_main m) k = Some (l, v) \<longrightarrow> map_of (mk_alt m) l = Some k \<and> mk_get_alt l m = Some v)
    \<and> (\<forall>k l. map_of (mk_alt m) l = Some k \<longrightarrow> (\<exists>v. map_of (mk_main m) k = Some (l, v)))
    \<and> mk_get k1 (snd (mk_insert k1 k2 v m)) = Some v \<and> mk_get_alt k2 (snd (mk_insert k1 k2 v m)) = Some v
    \<and> (\<forall>k. k \<noteq> k1 \<longrightarrow> mk_get k (snd (mk_insert k1 k2 v m)) =
          (if map_of (mk_alt m) k2 = Some k then None else mk_get k m))
    \<and> (\<forall>l. l \<noteq> k2 \<longrightarrow> mk_get_alt l (snd (mk_insert k1 k2 v m)) =
          (if map_of (mk_alt m) l = Some k1 then None else mk_get_alt l m))
    \<and> fst (mk_insert k1 k2 v m) = (case mk_get k1 m of Some w \<Rightarrow> Some w | None \<Rightarrow> mk_get_alt k2 m)
    \<and> fst (mk_remove k1 m) = mk_get k1 m
    \<and> (\<forall>k. mk_get k (snd (mk_remove k1 m)) = (if k = k1 then None else mk_get k m))
    \<and> (\<forall>l. mk_get_alt l (snd (mk_remove k1 m)) = (if map_of (mk_alt m) l = Some k1 then None else mk_get_alt l m))
    \<and> mk_get k1 (mk_clear m) = None \<and> mk_get_alt k2 (mk_clear m) = None"
proof -
  have inv: "mk_inv m" using multikey.inv_reachable [OF refl assms] .
  have main: "map_of (mk_main (snd (mk_insert k1 k2 v m))) = spec_insert k1 k2 v (map_of (mk_main m))"
    by (rule mk_insert_main [OF inv])
  have alt: "map_of (mk_alt m) l = Some k \<longleftrightarrow> (\<exists>w. mk_abs m k = Some (l, w))" for k l
    using inv by (simp add: mk_inv_def mk_abs_def)
  have "mk_get k (snd (mk_insert k1 k2 v m)) = (if map_of (mk_alt m) k2 = Some k then None else mk_get k m)"
    if "k \<noteq> k1" for k using that by (simp add: mk_get_def main spec_insert_def alt mk_abs_def)
  moreover have "mk_get k1 (snd (mk_insert k1 k2 v m)) = Some v" by (simp add: mk_get_def main spec_insert_def)
  moreover have "mk_get_alt l m = Some v" if "map_of (mk_main m) k = Some (l, v)" for k l v
    using mk_get_alt_iff [OF inv] that by (auto simp: mk_abs_def)
  moreover have "mk_get_alt l (snd (mk_insert k1 k2 v m)) = (if map_of (mk_alt m) l = Some k1 then None else mk_get_alt l m)"
    if "l \<noteq> k2" for l
    using inodes.insert_other_alt [OF inv that] inodes.insert_displaced_alt [OF inv _ that] alt [of l k1] by auto
  moreover have "mk_get k (snd (mk_remove k1 m)) = (if k = k1 then None else mk_get k m)" for k
    using fun_cong [OF mk_remove_facts(2) [OF inv, of k1], of k] by (simp add: mk_get_def mk_abs_def)
  moreover have "mk_get_alt l (snd (mk_remove k1 m)) = (if map_of (mk_alt m) l = Some k1 then None else mk_get_alt l m)" for l
    using inodes.remove_then_alt [OF inv] inodes.remove_other_alt [OF inv] alt [of l k1] by auto
  ultimately show ?thesis
    using mk_invD(1, 2) [OF inv] inodes.insert_then_alt [OF inv] mk_insert_returns [OF inv] mk_remove_facts(3) [OF inv]
    by (simp add: mk_clear_def mk_get_def mk_get_alt_def)
qed

theorem multikey_one_to_one_witness:
  "mk_get_alt (9 :: nat) (snd (mk_insert (2 :: nat) 9 ''b'' (snd (mk_insert 1 9 ''a'' mk_new)))) = Some ''b''
   \<and> mk_get 1 (snd (mk_insert 2 9 ''b'' (snd (mk_insert (1 :: nat) (9 :: nat) ''a'' mk_new)))) = None
   \<and> fst (mk_remove 1 (snd (mk_insert (1 :: nat) (9 :: nat) ''a'' mk_new))) = Some ''a''"
proof -
  let ?m = "snd (mk_insert (1 :: nat) (9 :: nat) ''a'' mk_new)"
  have reach: "mk_step\<^sup>*\<^sup>* mk_new ?m" by (intro r_into_rtranclp mk_step.insert)
  have "map_of (mk_alt ?m) 9 = Some 1" "mk_get 1 ?m = Some ''a''" by code_simp+
  then show ?thesis
    using multikey_one_to_one [OF reach, of 2 9 "''b''"] multikey_one_to_one [OF reach, of 1 9 "''b''"] by simp
qed

end
