(* ===== verification/Preimage_Log.thy ===== *)
theory Preimage_Log
  imports Prelude "HOL-Library.AList" "HOL-Library.List_Lexorder" "HOL-Library.Char_ord"
begin

text \<open>
  The log of first observations of an overlay stage
  (\<open>crates/pvisor-overlay-core/src/preimage_log.rs\<close>, with the types of
  \<open>crates/pvisor-core/src/overlay.rs\<close>), as it is built for Linux.

  The log is a file of frames: a magic, the length of the body, the complement of the length,
  the body and a digest. A handle is the record \<open>preimage_log\<close>: the bytes of the file, the
  cursor, how far the file is known to be synced, the index of observations (a \<open>BTreeMap\<close>, here
  an association list with distinct keys) and whether the handle is poisoned. \<open>serde_json\<close> and
  \<open>sha2\<close> are the parameter \<open>preimage_codec\<close>, with \<open>codec_laws\<close> for what the log relies on. What
  the operating system answers is an argument: \<open>None\<close> for a write that succeeds and \<open>Some n\<close> for
  one that fails with \<open>n\<close> bytes in the file, and a truth value for every sync and truncation.
  Offsets are integers: the size limit of the log keeps them far below \<open>2\<^sup>6\<^sup>4\<close>.

  Shown: what any history leaves in the file is a sequence of whole frames followed by at most
  one torn frame, so that it can always be opened again; reopening gives the index back; the
  first observation of a path is never replaced; and what was acknowledged as durable survives
  the loss of everything that was not synced.
\<close>

section \<open>Records\<close>

datatype xattr_fingerprint = XattrUnsupported | XattrValues "(rstr \<times> rstr) list"

datatype path_fingerprint =
  FingerprintAbsent
| FingerprintFile (fp_sha256: rstr) (fp_mode: u32) (fp_uid: u32) (fp_gid: u32)
    (fp_xattrs: "xattr_fingerprint option")
| FingerprintDirectory u32 u32 u32 (fp_mtime_seconds: "64 word") (fp_mtime_nanoseconds: "64 word")
    "xattr_fingerprint option"
| FingerprintSymlink (fp_target: rstr) u32 u32 "xattr_fingerprint option"
| FingerprintOther u32 u32 u32 (fp_rdev: u64) "xattr_fingerprint option"

record path_preimage =
  pp_path :: rstr
  pp_state :: path_fingerprint

datatype preimage_record =
  Observe path_preimage
| Consume "rstr list"
| DirectoryBaseline path_preimage

record observation =
  ob_preimage :: path_preimage
  ob_end :: int

type_synonym observations = "(rstr \<times> observation) list"

record preimage_log =
  pl_file :: rstr
  pl_cursor :: int
  pl_synced :: int
  pl_observations :: observations
  pl_poisoned :: bool

datatype log_error = LogInvalid rstr | LogIo rstr | LogWouldBlock

record preimage_codec =
  pc_encode :: "preimage_record \<Rightarrow> rstr option"
  pc_decode :: "rstr \<Rightarrow> preimage_record option"
  pc_sha :: "rstr \<Rightarrow> rstr"

text \<open>
  Decoding inverts encoding, a digest has 32 bytes, and the bytes of a path are written as an
  array of numbers, in at most four characters each.
\<close>

definition codec_laws :: "preimage_codec \<Rightarrow> bool" where
  "codec_laws c \<longleftrightarrow>
     (\<forall>r body. pc_encode c r = Some body \<longrightarrow> body \<noteq> [] \<and> pc_decode c body = Some r)
     \<and> (\<forall>s. length (pc_sha c s) = 32)
     \<and> (\<forall>paths. \<exists>body. pc_encode c (Consume paths) = Some body
          \<and> int (length body) \<le> 128 + sum_list (map (\<lambda>p. 4 * int (length p) + 3) paths))"

definition log_magic :: rstr where
  "log_magic = ''pvisor.preimages/2'' @ [newline]"

definition frame_magic :: rstr where
  "frame_magic = ''PVR2''"

definition max_record :: int where
  "max_record = 4 * 1024 * 1024"

definition max_log :: int where
  "max_log = 256 * 1024 * 1024"

section \<open>Frames\<close>

text \<open>\<open>to_le_bytes\<close> and \<open>from_le_bytes\<close>.\<close>

fun le_chars :: "nat \<Rightarrow> int \<Rightarrow> rstr" where
  "le_chars 0 n = []"
| "le_chars (Suc k) n = char_of (n mod 256) # le_chars k (n div 256)"

fun le_int :: "rstr \<Rightarrow> int" where
  "le_int [] = 0"
| "le_int (c # cs) = of_char c + 256 * le_int cs"

definition to_le_bytes :: "u32 \<Rightarrow> rstr" where
  "to_le_bytes w = le_chars 4 (uint w)"

definition from_le_bytes :: "rstr \<Rightarrow> u32" where
  "from_le_bytes bs = word_of_int (le_int bs)"

definition frame_of :: "preimage_codec \<Rightarrow> rstr \<Rightarrow> rstr" where
  "frame_of c body =
     (let bytes = word_of_int (int (length body));
          frame = frame_magic @ to_le_bytes bytes @ to_le_bytes (not bytes) @ body
      in frame @ pc_sha c frame)"

text \<open>
  \<open>validate_rel\<close>: a relative path all of whose components are normal. \<open>Path::components\<close> skips
  empty components and every \<open>.\<close> but a leading one.
\<close>

definition validate_rel :: "rstr \<Rightarrow> log_error + unit" where
  "validate_rel path =
     ensure (\<not> starts_with path ''/'' \<and> hd (split_on CHR ''/'' path) \<noteq> ''.''
             \<and> ''..'' \<notin> set (split_on CHR ''/'' path)) (LogIo ''EINVAL'')"

definition validate_path :: "rstr \<Rightarrow> log_error + unit" where
  "validate_path path =
     bind_res (validate_rel path) (\<lambda>_.
     ensure (char_of (0 :: nat) \<notin> set path) (LogInvalid ''preimage path contains NUL''))"

definition is_directory :: "path_fingerprint \<Rightarrow> bool" where
  "is_directory f = (case f of FingerprintDirectory _ _ _ _ _ _ \<Rightarrow> True | _ \<Rightarrow> False)"

fun validate_record :: "preimage_record \<Rightarrow> log_error + unit" where
  "validate_record (Observe preimage) = validate_path (pp_path preimage)"
| "validate_record (DirectoryBaseline preimage) =
     bind_res (validate_path (pp_path preimage)) (\<lambda>_.
     ensure (is_directory (pp_state preimage)) (LogInvalid ''apply baseline must be a directory''))"
| "validate_record (Consume paths) = all_res validate_path paths"

fun apply_record :: "preimage_record \<Rightarrow> int \<Rightarrow> observations \<Rightarrow> observations" where
  "apply_record (Observe preimage) end obs =
     (if map_of obs (pp_path preimage) = None
      then AList.update (pp_path preimage) \<lparr>ob_preimage = preimage, ob_end = end\<rparr> obs else obs)"
| "apply_record (Consume paths) end obs = fold AList.delete paths obs"
| "apply_record (DirectoryBaseline preimage) end obs =
     AList.update (pp_path preimage) \<lparr>ob_preimage = preimage, ob_end = end\<rparr> obs"

datatype frame_result =
  FrameInvalid log_error | FrameIncomplete | FrameComplete preimage_record int

text \<open>One turn of the loop of \<open>refresh\<close>, on the bytes from the cursor to the length of the file.\<close>

definition parse_frame :: "preimage_codec \<Rightarrow> rstr \<Rightarrow> frame_result" where
  "parse_frame c rest =
     (let header = take 12 rest; available = length header;
          bytes = from_le_bytes (take 4 (drop 4 header)) in
      if take 4 header \<noteq> take available frame_magic
      then FrameInvalid (LogInvalid ''invalid preimage frame magic'')
      else if 8 \<le> available \<and> (bytes = 0 \<or> max_record < uint bytes
                \<or> drop 8 header \<noteq> take (available - 8) (to_le_bytes (not bytes)))
      then FrameInvalid (LogInvalid ''invalid preimage frame length'')
      else if available < 12 then FrameIncomplete
      else
        (let frame_length = 12 + uint bytes + 32 in
         if int (length rest) < frame_length then FrameIncomplete
         else
           (let body = take (nat (uint bytes)) (drop 12 rest);
                expected = take 32 (drop (12 + nat (uint bytes)) rest) in
            if pc_sha c (header @ body) \<noteq> expected
            then FrameInvalid (LogInvalid ''preimage frame digest mismatch'')
            else
              (case pc_decode c body of
                 None \<Rightarrow> FrameInvalid (LogIo ''invalid JSON'')
               | Some record \<Rightarrow>
                   (case validate_record record of
                      Inl e \<Rightarrow> FrameInvalid e
                    | Inr _ \<Rightarrow> FrameComplete record frame_length)))))"

lemma parse_frame_complete_positive: "parse_frame c rest = FrameComplete r n \<Longrightarrow> 0 < n"
proof -
  assume "parse_frame c rest = FrameComplete r n"
  then have "n = 12 + uint (from_le_bytes (take 4 (drop 4 (take 12 rest)))) + 32"
    by (auto simp: parse_frame_def Let_def split: if_splits option.splits sum.splits)
  then show "0 < n" using uint_nonnegative [of "from_le_bytes (take 4 (drop 4 (take 12 rest)))"] by linarith
qed

section \<open>Operations on the file\<close>

definition log_sync :: "bool \<Rightarrow> preimage_log \<Rightarrow> (log_error + unit) \<times> preimage_log" where
  "log_sync synced st =
     (if synced then (Inr (), st\<lparr>pl_synced := pl_cursor st\<rparr>)
      else (Inl (LogIo ''sync failed''), st\<lparr>pl_poisoned := True\<rparr>))"

definition truncate_tail :: "bool \<Rightarrow> bool \<Rightarrow> preimage_log \<Rightarrow> (log_error + unit) \<times> preimage_log" where
  "truncate_tail truncated synced st =
     (if \<not> truncated then (Inl (LogIo ''truncation failed''), st\<lparr>pl_poisoned := True\<rparr>)
      else log_sync synced (st\<lparr>pl_file := take (nat (pl_cursor st)) (pl_file st)\<rparr>))"

function refresh_frames ::
  "preimage_codec \<Rightarrow> bool \<Rightarrow> bool \<Rightarrow> bool \<Rightarrow> int \<Rightarrow> preimage_log \<Rightarrow> (log_error + unit) \<times> preimage_log" where
  "refresh_frames c repair truncated synced len st =
     (if len \<le> pl_cursor st then (Inr (), st)
      else
        (case parse_frame c (take (nat (len - pl_cursor st)) (drop (nat (pl_cursor st)) (pl_file st))) of
           FrameInvalid e \<Rightarrow> (Inl e, st)
         | FrameIncomplete \<Rightarrow> if \<not> repair then (Inr (), st) else truncate_tail truncated synced st
         | FrameComplete record frame_length \<Rightarrow>
             (let end = pl_cursor st + frame_length in
              refresh_frames c repair truncated synced len
                (st\<lparr>pl_cursor := end, pl_observations := apply_record record end (pl_observations st)\<rparr>))))"
  by pat_completeness auto
termination
  by (relation "measure (\<lambda>(_, _, _, _, len, st). nat (len - pl_cursor st))")
     (auto dest: parse_frame_complete_positive)

declare refresh_frames.simps [simp del]

text \<open>Reading the file and its metadata succeeds here; the source passes a failed read on as an error.\<close>

definition refresh ::
  "preimage_codec \<Rightarrow> bool \<Rightarrow> bool \<Rightarrow> bool \<Rightarrow> int \<Rightarrow> preimage_log \<Rightarrow> (log_error + unit) \<times> preimage_log" where
  "refresh c repair truncated synced len st =
     (if len < pl_cursor st \<or> max_log < len
      then (Inl (LogInvalid ''preimage log truncated or exceeds size limit''), st)
      else refresh_frames c repair truncated synced len st)"

text \<open>\<open>write_all_at\<close> the cursor: the bytes replace those that were there.\<close>

definition write_at :: "int \<Rightarrow> rstr \<Rightarrow> rstr \<Rightarrow> rstr" where
  "write_at position bytes file =
     take (nat position) file @ bytes @ drop (nat position + length bytes) file"

definition log_append ::
  "preimage_codec \<Rightarrow> nat option \<Rightarrow> bool \<Rightarrow> preimage_record \<Rightarrow> bool \<Rightarrow> preimage_log
     \<Rightarrow> (log_error + unit) \<times> preimage_log" where
  "log_append c fault synced record durable st =
     (case validate_record record of
        Inl e \<Rightarrow> (Inl e, st)
      | Inr _ \<Rightarrow>
          (case pc_encode c record of
             None \<Rightarrow> (Inl (LogIo ''serialization failed''), st)
           | Some body \<Rightarrow>
               if body = [] \<or> max_record < int (length body)
               then (Inl (LogInvalid ''preimage record exceeds size limit''), st)
               else
                 (let frame = frame_of c body; end = pl_cursor st + int (length frame) in
                  if max_log < end then (Inl (LogInvalid ''preimage log exceeds size limit''), st)
                  else
                    (case fault of
                       Some n \<Rightarrow>
                         (Inl (LogIo ''write failed''),
                          st\<lparr>pl_file := write_at (pl_cursor st) (take n frame) (pl_file st), pl_poisoned := True\<rparr>)
                     | None \<Rightarrow>
                         (let st1 = st\<lparr>pl_file := write_at (pl_cursor st) frame (pl_file st), pl_cursor := end,
                                       pl_observations := apply_record record end (pl_observations st)\<rparr>
                          in if durable then log_sync synced st1 else (Inr (), st1))))))"

section \<open>The handle\<close>

definition transaction ::
  "(preimage_log \<Rightarrow> (log_error + 'a) \<times> preimage_log) \<Rightarrow> preimage_log \<Rightarrow> (log_error + 'a) \<times> preimage_log" where
  "transaction operation st =
     (if pl_poisoned st then (Inl (LogIo ''preimage append outcome unknown; reopen log''), st)
      else operation st)"

definition log_sync_all :: "bool \<Rightarrow> preimage_log \<Rightarrow> (log_error + unit) \<times> preimage_log" where
  "log_sync_all synced = transaction (log_sync synced)"

text \<open>The answers of the operating system while a log is opened.\<close>

record log_env =
  le_opened :: bool
  le_unlocked :: bool
  le_regular :: bool
  le_magic_fault :: "nat option"
  le_truncated :: bool
  le_tail_synced :: bool
  le_synced :: bool
  le_directory_synced :: bool

definition log_start :: "rstr \<Rightarrow> preimage_log" where
  "log_start file =
     \<lparr>pl_file = file, pl_cursor = int (length log_magic), pl_synced = 0, pl_observations = [],
      pl_poisoned = False\<rparr>"

definition check_magic :: "rstr \<Rightarrow> log_error + unit" where
  "check_magic file =
     bind_res (ensure (length log_magic \<le> length file) (LogIo ''failed to fill whole buffer'')) (\<lambda>_.
     ensure (take (length log_magic) file = log_magic) (LogInvalid ''unsupported preimage log format''))"

text \<open>The file is what it holds afterwards, also when opening fails.\<close>

definition open_replay :: "preimage_codec \<Rightarrow> log_env \<Rightarrow> rstr \<Rightarrow> (log_error + preimage_log) \<times> rstr" where
  "open_replay c env file =
     (case refresh c True (le_truncated env) (le_tail_synced env) (int (length file)) (log_start file) of
        (Inl e, st) \<Rightarrow> (Inl e, pl_file st)
      | (Inr _, st) \<Rightarrow>
          (case log_sync (le_synced env) st of
             (Inl e, st1) \<Rightarrow> (Inl e, pl_file st1)
           | (Inr _, st1) \<Rightarrow>
               (if le_directory_synced env then Inr st1 else Inl (LogIo ''sync failed''), pl_file st1)))"

definition log_open :: "preimage_codec \<Rightarrow> log_env \<Rightarrow> rstr \<Rightarrow> (log_error + preimage_log) \<times> rstr" where
  "log_open c env file =
     (case bind_res (ensure (le_opened env) (LogIo ''open failed'')) (\<lambda>_.
           bind_res (ensure (le_unlocked env) LogWouldBlock) (\<lambda>_.
           ensure (le_regular env) (LogInvalid ''preimage log must be a regular file''))) of
        Inl e \<Rightarrow> (Inl e, file)
      | Inr _ \<Rightarrow>
          if file = [] then
            (case le_magic_fault env of
               Some n \<Rightarrow> (Inl (LogIo ''write failed''), take n log_magic)
             | None \<Rightarrow> open_replay c env log_magic)
          else
            (case check_magic file of
               Inl e \<Rightarrow> (Inl e, file)
             | Inr _ \<Rightarrow> open_replay c env file))"

definition promote :: "bool \<Rightarrow> bool \<Rightarrow> observation \<Rightarrow> preimage_log \<Rightarrow> (log_error + unit) \<times> preimage_log" where
  "promote synced durable existing st =
     (if durable \<and> pl_synced st < ob_end existing then log_sync synced st else (Inr (), st))"

definition contains_or_promote ::
  "bool \<Rightarrow> rstr \<Rightarrow> bool \<Rightarrow> preimage_log \<Rightarrow> (log_error + bool) \<times> preimage_log" where
  "contains_or_promote synced path durable st =
     (case validate_path path of
        Inl e \<Rightarrow> (Inl e, st)
      | Inr _ \<Rightarrow>
          transaction (\<lambda>st.
            case map_of (pl_observations st) path of
              Some existing \<Rightarrow>
                (let (r, st1) = promote synced durable existing st in (bind_res r (\<lambda>_. Inr True), st1))
            | None \<Rightarrow> (Inr False, st)) st)"

definition publish_observation ::
  "preimage_codec \<Rightarrow> nat option \<Rightarrow> bool \<Rightarrow> rstr \<Rightarrow> bool \<Rightarrow> path_fingerprint \<Rightarrow> preimage_log
     \<Rightarrow> (log_error + unit) \<times> preimage_log" where
  "publish_observation c fault synced path durable fingerprint st =
     (case validate_path path of
        Inl e \<Rightarrow> (Inl e, st)
      | Inr _ \<Rightarrow>
          transaction (\<lambda>st.
            case map_of (pl_observations st) path of
              Some existing \<Rightarrow> promote synced durable existing st
            | None \<Rightarrow>
                log_append c fault synced (Observe \<lparr>pp_path = path, pp_state = fingerprint\<rparr>) durable st) st)"

text \<open>
  The loop of \<open>consume\<close>. \<open>faults\<close> are the answers to its writes in order; a missing one is a
  success. The result is the last batch, whether anything was appended, and the answers left.
\<close>

definition next_fault :: "nat option list \<Rightarrow> nat option" where
  "next_fault faults = (case faults of [] \<Rightarrow> None | f # _ \<Rightarrow> f)"

fun consume_batches ::
  "preimage_codec \<Rightarrow> nat option list \<Rightarrow> rstr list \<Rightarrow> rstr list \<Rightarrow> int \<Rightarrow> bool \<Rightarrow> preimage_log
     \<Rightarrow> (log_error + (rstr list \<times> bool \<times> nat option list)) \<times> preimage_log" where
  "consume_batches c faults [] batch estimate appended st = (Inr (batch, appended, faults), st)"
| "consume_batches c faults (path # paths) batch estimate appended st =
     (let bytes = 4 * int (length path) + 3 in
      if 2 ^ 64 \<le> bytes \<or> max_record - 128 < bytes
      then (Inl (LogInvalid ''preimage path exceeds size limit''), st)
      else if max_record < estimate + bytes then
        (case log_append c (next_fault faults) True (Consume batch) False st of
           (Inl e, st1) \<Rightarrow> (Inl e, st1)
         | (Inr _, st1) \<Rightarrow> consume_batches c (tl faults) paths [path] (128 + bytes) True st1)
      else consume_batches c faults paths (batch @ [path]) (estimate + bytes) appended st)"

definition log_consume ::
  "preimage_codec \<Rightarrow> nat option list \<Rightarrow> bool \<Rightarrow> rstr list \<Rightarrow> preimage_log \<Rightarrow> (log_error + unit) \<times> preimage_log" where
  "log_consume c faults synced paths st =
     (case all_res validate_path paths of
        Inl e \<Rightarrow> (Inl e, st)
      | Inr _ \<Rightarrow>
          transaction (\<lambda>st.
            case consume_batches c faults (filter (\<lambda>p. map_of (pl_observations st) p \<noteq> None) paths)
                   [] 128 False st of
              (Inl e, st1) \<Rightarrow> (Inl e, st1)
            | (Inr (batch, appended, faults1), st1) \<Rightarrow>
                if batch \<noteq> [] then
                  (case log_append c (next_fault faults1) True (Consume batch) False st1 of
                     (Inl e, st2) \<Rightarrow> (Inl e, st2)
                   | (Inr _, st2) \<Rightarrow> log_sync synced st2)
                else if appended then log_sync synced st1
                else (Inr (), st1)) st)"

text \<open>The values of a \<open>BTreeMap\<close> come in the order of its keys.\<close>

definition sorted_preimages :: "observations \<Rightarrow> path_preimage list" where
  "sorted_preimages obs = map (ob_preimage \<circ> snd) (sort_key fst obs)"

definition log_observations :: "preimage_log \<Rightarrow> (log_error + path_preimage list) \<times> preimage_log" where
  "log_observations = transaction (\<lambda>st. (Inr (sorted_preimages (pl_observations st)), st))"

definition applied_directory ::
  "preimage_codec \<Rightarrow> nat option \<Rightarrow> bool \<Rightarrow> path_preimage \<Rightarrow> preimage_log \<Rightarrow> (log_error + unit) \<times> preimage_log" where
  "applied_directory c fault synced preimage st =
     (case validate_record (DirectoryBaseline preimage) of
        Inl e \<Rightarrow> (Inl e, st)
      | Inr _ \<Rightarrow> transaction (log_append c fault synced (DirectoryBaseline preimage) True) st)"

definition read_prefix :: "preimage_codec \<Rightarrow> log_env \<Rightarrow> bool \<Rightarrow> rstr \<Rightarrow> log_error + path_preimage list" where
  "read_prefix c env complete file =
     bind_res (ensure (le_opened env) (LogIo ''open failed'')) (\<lambda>_.
     bind_res (ensure (le_regular env) (LogInvalid ''preimage log must be a regular file'')) (\<lambda>_.
     bind_res (check_magic file) (\<lambda>_.
     let (r, st) = refresh c False False False (int (length file)) (log_start file) in
     bind_res r (\<lambda>_.
     bind_res (ensure (\<not> (complete \<and> pl_cursor st \<noteq> int (length file)))
                 (LogInvalid ''incomplete preimage log cannot be sealed'')) (\<lambda>_.
     Inr (sorted_preimages (pl_observations st)))))))"

definition log_read :: "preimage_codec \<Rightarrow> log_env \<Rightarrow> rstr \<Rightarrow> log_error + path_preimage list" where
  "log_read c env = read_prefix c env False"

definition log_read_complete :: "preimage_codec \<Rightarrow> log_env \<Rightarrow> rstr \<Rightarrow> log_error + path_preimage list" where
  "log_read_complete c env = read_prefix c env True"

section \<open>Whole and torn frames\<close>

lemma length_le_chars [simp]: "length (le_chars k n) = k"
  by (induction k arbitrary: n) simp_all

lemma le_int_le_chars: "0 \<le> n \<Longrightarrow> le_int (le_chars k n) = n mod 256 ^ k"
proof (induction k arbitrary: n)
  case (Suc k)
  have "of_char (char_of (n mod 256) :: char) = n mod 256" by (simp add: of_char_of)
  then show ?case using Suc mod_mult2_eq' [of n 256 "256 ^ k"]
    by (simp add: pos_imp_zdiv_nonneg_iff zmod_zmult2_eq)
qed simp

lemma le_bytes_roundtrip [simp]: "from_le_bytes (to_le_bytes w) = w"
proof -
  have "uint w < 2 ^ 32" using uint_lt2p [of w] by simp
  then have "le_int (le_chars 4 (uint w)) = uint w" by (subst le_int_le_chars) simp_all
  then show ?thesis by (simp add: from_le_bytes_def to_le_bytes_def)
qed

lemma length_to_le_bytes [simp]: "length (to_le_bytes w) = 4"
  by (simp add: to_le_bytes_def)

lemma length_frame_magic [simp]: "length frame_magic = 4"
  by (simp add: frame_magic_def)

definition frame :: "preimage_codec \<Rightarrow> preimage_record \<Rightarrow> rstr" where
  "frame c r = (case pc_encode c r of None \<Rightarrow> [] | Some body \<Rightarrow> frame_of c body)"

definition good_record :: "preimage_codec \<Rightarrow> preimage_record \<Rightarrow> bool" where
  "good_record c r \<longleftrightarrow> validate_record r = Inr ()
     \<and> (\<exists>body. pc_encode c r = Some body \<and> int (length body) \<le> max_record)"

text \<open>The parts of the frame of a good record.\<close>

lemma frame_parts:
  assumes "codec_laws c" "good_record c r"
  obtains body w sha where "frame c r = frame_magic @ to_le_bytes w @ to_le_bytes (not w) @ body @ sha"
    "pc_decode c body = Some r" "uint w = int (length body)" "w \<noteq> 0" "uint w \<le> max_record"
    "length sha = 32" "sha = pc_sha c (frame_magic @ to_le_bytes w @ to_le_bytes (not w) @ body)"
proof -
  obtain body where body: "pc_encode c r = Some body" "int (length body) \<le> max_record"
    using assms(2) by (auto simp: good_record_def)
  let ?w = "word_of_int (int (length body)) :: u32"
  have w: "uint ?w = int (length body)"
    using body(2) by (simp add: max_record_def uint_nat unat_of_nat)
  moreover have "body \<noteq> []" "pc_decode c body = Some r" "length (pc_sha c s) = 32" for s
    using assms(1) body(1) by (auto simp: codec_laws_def)
  moreover have "?w \<noteq> 0"
  proof
    assume "?w = 0"
    then have "uint ?w = 0" by (simp only: uint_0_eq)
    then show False using w \<open>body \<noteq> []\<close> by simp
  qed
  ultimately show thesis
    using that [of ?w body "pc_sha c (frame_magic @ to_le_bytes ?w @ to_le_bytes (not ?w) @ body)"] body
    by (simp add: frame_def frame_of_def Let_def)
qed

lemma parse_frame_whole:
  assumes "codec_laws c" "good_record c r"
  shows "parse_frame c (frame c r @ rest) = FrameComplete r (int (length (frame c r)))"
proof -
  from frame_parts [OF assms] obtain body w sha where
    f: "frame c r = frame_magic @ to_le_bytes w @ to_le_bytes (not w) @ body @ sha" and
    d: "pc_decode c body = Some r" and w: "uint w = int (length body)" "w \<noteq> 0" "uint w \<le> max_record" and
    s: "length sha = 32" "sha = pc_sha c (frame_magic @ to_le_bytes w @ to_le_bytes (not w) @ body)" .
  have "validate_record r = Inr ()" using assms(2) by (simp add: good_record_def)
  moreover have "nat (uint w) = length body" using w(1) by simp
  ultimately show ?thesis using d w s by (simp add: parse_frame_def Let_def f)
qed

lemma parse_frame_torn:
  assumes "codec_laws c" "good_record c r" "n < length (frame c r)"
  shows "parse_frame c (take n (frame c r)) = FrameIncomplete"
proof -
  from frame_parts [OF assms(1, 2)] obtain body w sha where
    f: "frame c r = frame_magic @ to_le_bytes w @ to_le_bytes (not w) @ body @ sha" and
    w: "uint w = int (length body)" "w \<noteq> 0" "uint w \<le> max_record" and s: "length sha = 32" .
  define h where "h = take 12 (take n (frame c r))"
  have "take 12 (frame c r) = frame_magic @ to_le_bytes w @ to_le_bytes (not w)" by (simp add: f)
  then have h: "h = take n (frame_magic @ to_le_bytes w @ to_le_bytes (not w))"
    unfolding h_def by (metis take_take min.commute)
  have "take 4 h = take (length h) frame_magic" by (simp add: h min_def)
  moreover have "8 \<le> length h \<Longrightarrow> from_le_bytes (take 4 (drop 4 h)) = w"
    and "8 \<le> length h \<Longrightarrow> drop 8 h = take (length h - 8) (to_le_bytes (not w))"
    by (auto simp: h min_def)
  moreover have "int (length (take n (frame c r))) < 12 + uint w + 32"
    using assms(3) w s by (simp add: f)
  ultimately show ?thesis using w(2, 3)
    unfolding parse_frame_def Let_def h_def [symmetric] by auto
qed

section \<open>Logs of whole frames\<close>

definition frames :: "preimage_codec \<Rightarrow> preimage_record list \<Rightarrow> rstr" where
  "frames c rs = concat (map (frame c) rs)"

definition log_file :: "preimage_codec \<Rightarrow> preimage_record list \<Rightarrow> rstr" where
  "log_file c rs = log_magic @ frames c rs"

fun replay :: "preimage_codec \<Rightarrow> int \<Rightarrow> preimage_record list \<Rightarrow> observations \<Rightarrow> observations" where
  "replay c position [] obs = obs"
| "replay c position (r # rs) obs =
     (let end = position + int (length (frame c r)) in replay c end rs (apply_record r end obs))"

definition observed :: "preimage_codec \<Rightarrow> preimage_record list \<Rightarrow> observations" where
  "observed c rs = replay c (int (length log_magic)) rs []"

definition torn :: "preimage_codec \<Rightarrow> rstr \<Rightarrow> bool" where
  "torn c tail \<longleftrightarrow> tail = [] \<or> (\<exists>r n. good_record c r \<and> n < length (frame c r) \<and> tail = take n (frame c r))"

definition replayed_state :: "preimage_codec \<Rightarrow> preimage_record list \<Rightarrow> preimage_log" where
  "replayed_state c rs =
     \<lparr>pl_file = log_file c rs, pl_cursor = int (length (log_file c rs)),
      pl_synced = int (length (log_file c rs)), pl_observations = observed c rs, pl_poisoned = False\<rparr>"

lemma frames_simps [simp]: "frames c [] = []" "frames c (r # rs) = frame c r @ frames c rs"
  "frames c (rs @ rs') = frames c rs @ frames c rs'"
  by (simp_all add: frames_def)

lemma log_file_snoc [simp]: "log_file c (rs @ [r]) = log_file c rs @ frame c r"
  by (simp add: log_file_def)

lemma replay_append:
  "replay c position (rs @ rs') obs =
     replay c (position + int (length (frames c rs))) rs' (replay c position rs obs)"
  by (induction rs arbitrary: position obs) (simp_all add: Let_def add.assoc)

lemma observed_snoc:
  "observed c (rs @ [r]) = apply_record r (int (length (log_file c (rs @ [r])))) (observed c rs)"
  by (simp add: observed_def replay_append log_file_def Let_def add.assoc)

lemma refresh_whole:
  assumes "codec_laws c" "list_all (good_record c) rs" "pl_file st = pre @ frames c rs @ rest"
    and "pl_cursor st = int (length pre)" "len = int (length (pl_file st))"
  shows "refresh_frames c repair truncated synced len st =
    refresh_frames c repair truncated synced len
      (st\<lparr>pl_cursor := int (length (pre @ frames c rs)),
         pl_observations := replay c (int (length pre)) rs (pl_observations st)\<rparr>)"
  using assms(2-)
proof (induction rs arbitrary: pre st)
  case Nil
  then have "st\<lparr>pl_cursor := int (length pre)\<rparr> = st" by (cases st) simp
  then show ?case by simp
next
  case (Cons r rs)
  let ?e = "int (length (pre @ frame c r))"
  let ?s = "st\<lparr>pl_cursor := ?e, pl_observations := apply_record r ?e (pl_observations st)\<rparr>"
  have good: "good_record c r" using Cons.prems(1) by simp
  have p: "parse_frame c (frame c r @ frames c rs @ rest) = FrameComplete r (int (length (frame c r)))"
    by (rule parse_frame_whole [OF assms(1) good])
  then have "0 < int (length (frame c r))" by (rule parse_frame_complete_positive)
  then have "\<not> len \<le> pl_cursor st" using Cons.prems(2-4) by (simp del: of_nat_0_less_iff)
  then have "refresh_frames c repair truncated synced len st = refresh_frames c repair truncated synced len ?s"
    using Cons.prems p by (subst refresh_frames.simps) (simp only: if_False, simp add: Let_def)
  also have "\<dots> = refresh_frames c repair truncated synced len
      (?s\<lparr>pl_cursor := int (length ((pre @ frame c r) @ frames c rs)),
         pl_observations := replay c ?e rs (pl_observations ?s)\<rparr>)"
    by (rule Cons.IH) (use Cons.prems in simp_all)
  finally show ?case by (simp add: Let_def)
qed

lemma refresh_tail:
  assumes "codec_laws c" "torn c tail" "pl_file st = pre @ tail" "pl_cursor st = int (length pre)"
    and "len = int (length (pl_file st))"
  shows "refresh_frames c repair truncated synced len st =
    (if tail = [] \<or> \<not> repair then (Inr (), st) else truncate_tail truncated synced st)"
proof (cases "tail = []")
  case True
  then show ?thesis using assms(3-) by (subst refresh_frames.simps) simp
next
  case False
  then obtain r n where "good_record c r" "n < length (frame c r)" "tail = take n (frame c r)"
    using assms(2) by (auto simp: torn_def)
  then have "parse_frame c tail = FrameIncomplete" using parse_frame_torn [OF assms(1)] by simp
  then show ?thesis using assms(3-) by (subst refresh_frames.simps) simp
qed

lemma refresh_log:
  assumes "codec_laws c" "list_all (good_record c) rs" "torn c tail"
    and "int (length (log_file c rs @ tail)) \<le> max_log"
  shows "refresh c repair truncated synced (int (length (log_file c rs)) + int (length tail))
      (log_start (log_file c rs @ tail)) =
    (let st = \<lparr>pl_file = log_file c rs @ tail, pl_cursor = int (length (log_file c rs)), pl_synced = 0,
               pl_observations = observed c rs, pl_poisoned = False\<rparr>
     in if tail = [] \<or> \<not> repair then (Inr (), st) else truncate_tail truncated synced st)"
proof -
  let ?len = "int (length (log_file c rs @ tail))" and ?st = "log_start (log_file c rs @ tail)"
  have "refresh c repair truncated synced ?len ?st = refresh_frames c repair truncated synced ?len ?st"
    using assms(4) by (simp add: refresh_def log_start_def log_file_def)
  also have "\<dots> = refresh_frames c repair truncated synced ?len
      (?st\<lparr>pl_cursor := int (length (log_magic @ frames c rs)),
          pl_observations := replay c (int (length log_magic)) rs (pl_observations ?st)\<rparr>)"
    by (rule refresh_whole [OF assms(1, 2), where rest = tail]) (simp_all add: log_start_def log_file_def)
  also have "\<dots> = (if tail = [] \<or> \<not> repair then (Inr (), ?st\<lparr>pl_cursor := int (length (log_magic @ frames c rs)),
          pl_observations := replay c (int (length log_magic)) rs (pl_observations ?st)\<rparr>)
     else truncate_tail truncated synced (?st\<lparr>pl_cursor := int (length (log_magic @ frames c rs)),
          pl_observations := replay c (int (length log_magic)) rs (pl_observations ?st)\<rparr>))"
    by (rule refresh_tail [OF assms(1, 3), where pre = "log_file c rs"]) (simp_all add: log_start_def log_file_def)
  finally show ?thesis by (simp add: Let_def log_start_def log_file_def observed_def add.assoc)
qed

lemma torn_Nil [simp]: "torn c []"
  by (simp add: torn_def)

definition log_env_ok :: "log_env \<Rightarrow> bool" where
  "log_env_ok env \<longleftrightarrow> le_opened env \<and> le_unlocked env \<and> le_regular env \<and> le_magic_fault env = None
     \<and> le_truncated env \<and> le_tail_synced env \<and> le_synced env \<and> le_directory_synced env"

lemma check_magic_log_file [simp]: "check_magic (log_file c rs @ tail) = Inr ()"
  by (simp add: check_magic_def log_file_def ensure_def)

lemma log_file_not_Nil [simp]: "log_file c rs \<noteq> []"
  by (simp add: log_file_def log_magic_def)

text \<open>Opening a log under any answers: the index of the whole frames, or no handle at all.\<close>

lemma open_any:
  assumes "codec_laws c" "list_all (good_record c) rs" "torn c tail"
    and "int (length (log_file c rs @ tail)) \<le> max_log" "log_open c env (log_file c rs @ tail) = (res, file)"
  shows "(file = log_file c rs @ tail \<or> file = log_file c rs)
    \<and> (\<forall>st. res = Inr st \<longrightarrow> st = replayed_state c rs \<and> file = log_file c rs) \<and> (log_env_ok env \<longrightarrow> res = Inr (replayed_state c rs))"
  using assms(5)
  by (auto simp: log_open_def open_replay_def refresh_log [OF assms(1-4)] Let_def truncate_tail_def log_sync_def
        replayed_state_def log_env_ok_def bind_res_def ensure_def split: if_splits)

section \<open>What a history leaves\<close>

definition logged :: "preimage_codec \<Rightarrow> preimage_log \<Rightarrow> preimage_record list \<Rightarrow> bool" where
  "logged c st rs \<longleftrightarrow> list_all (good_record c) rs \<and> int (length (pl_file st)) \<le> max_log
     \<and> (if pl_poisoned st then \<exists>tail. torn c tail \<and> pl_file st = log_file c rs @ tail
        else pl_file st = log_file c rs \<and> pl_cursor st = int (length (log_file c rs))
             \<and> pl_observations st = observed c rs \<and> int (length log_magic) \<le> pl_synced st
             \<and> pl_synced st \<le> int (length (log_file c rs)))"

lemma logged_live:
  assumes "logged c st rs" "\<not> pl_poisoned st"
  shows "pl_file st = log_file c rs" "pl_cursor st = int (length (log_file c rs))"
    "pl_observations st = observed c rs" "pl_synced st \<le> pl_cursor st" "int (length log_magic) \<le> pl_synced st"
  using assms by (simp_all add: logged_def)

lemma logged_live_eq:
  "logged c st rs \<Longrightarrow> \<not> pl_poisoned st \<Longrightarrow> st = (replayed_state c rs)\<lparr>pl_synced := pl_synced st\<rparr>"
  by (cases st) (simp add: logged_def replayed_state_def)

lemma logged_replayed_state:
  "logged c ((replayed_state c rs)\<lparr>pl_synced := s\<rparr>) rs \<longleftrightarrow> list_all (good_record c) rs
     \<and> int (length (log_file c rs)) \<le> max_log \<and> int (length log_magic) \<le> s \<and> s \<le> int (length (log_file c rs))"
  by (auto simp: logged_def replayed_state_def)

lemma length_frame_pos:
  assumes "codec_laws c" "good_record c r"
  shows "0 < length (frame c r)"
  using parse_frame_complete_positive [OF parse_frame_whole [OF assms, of "[]"]] by simp

lemma log_append_cases:
  assumes "codec_laws c" "logged c st rs" "\<not> pl_poisoned st"
    and "log_append c fault synced r durable st = (res, st')"
  obtains (refused) e where "res = Inl e" "st' = st"
    | (failed) n where "fault = Some n" "res = Inl (LogIo ''write failed'')" "pl_poisoned st'" "good_record c r"
        "pl_file st' = log_file c rs @ take n (frame c r)" "int (length (log_file c (rs @ [r]))) \<le> max_log"
    | (appended) "good_record c r" "fault = None"
        "logged c ((replayed_state c (rs @ [r]))\<lparr>pl_synced := pl_synced st\<rparr>) (rs @ [r])"
        "(res, st') = (if durable then log_sync synced ((replayed_state c (rs @ [r]))\<lparr>pl_synced := pl_synced st\<rparr>)
                       else (Inr (), (replayed_state c (rs @ [r]))\<lparr>pl_synced := pl_synced st\<rparr>))"
proof (cases "good_record c r \<and> int (length (log_file c (rs @ [r]))) \<le> max_log")
  case False
  have "\<exists>e. log_append c fault synced r durable st = (Inl e, st)"
  proof (cases "validate_record r = Inr () \<and> pc_encode c r \<noteq> None")
    case True
    then obtain body where body: "validate_record r = Inr ()" "pc_encode c r = Some body" by auto
    then have "max_record < int (length body) \<or> max_log < pl_cursor st + int (length (frame_of c body))"
      using False logged_live(2) [OF assms(2, 3)] by (auto simp: good_record_def frame_def)
    then show ?thesis using body by (auto simp: log_append_def Let_def)
  next
    case False
    then show ?thesis by (cases "validate_record r") (auto simp: log_append_def)
  qed
  then have "isl (fst (log_append c fault synced r durable st)) \<and> snd (log_append c fault synced r durable st) = st"
    by auto
  then have "isl res \<and> st' = st" using assms(4) by simp
  then show thesis using refused [of "projl res"] by simp
next
  case True
  then obtain body where body: "validate_record r = Inr ()" "pc_encode c r = Some body" "body \<noteq> []"
      "\<not> max_record < int (length body)" "frame c r = frame_of c body"
    using assms(1) by (auto simp: good_record_def codec_laws_def frame_def)
  note live = logged_live [OF assms(2, 3)]
  have written: "write_at (pl_cursor st) bytes (pl_file st) = log_file c rs @ bytes" for bytes
    by (simp add: write_at_def live)
  have lim: "\<not> max_log < pl_cursor st + int (length (frame_of c body))" using True body(5) live(2) by simp
  show thesis
  proof (cases fault)
    case (Some n)
    then have "res = Inl (LogIo ''write failed'')" "st' = st\<lparr>pl_file := log_file c rs @ take n (frame c r), pl_poisoned := True\<rparr>"
      using assms(4) body lim written by (auto simp: log_append_def Let_def)
    then show thesis using failed Some True by simp
  next
    case None
    let ?a = "(replayed_state c (rs @ [r]))\<lparr>pl_synced := pl_synced st\<rparr>"
    have "st\<lparr>pl_file := log_file c rs @ frame c r, pl_cursor := pl_cursor st + int (length (frame c r)),
             pl_observations := apply_record r (pl_cursor st + int (length (frame c r))) (pl_observations st)\<rparr> = ?a"
      using assms(3) live by (cases st) (simp add: replayed_state_def observed_snoc)
    then have "(res, st') = (if durable then log_sync synced ?a else (Inr (), ?a))"
      using assms(4) body lim written None by (simp add: log_append_def Let_def)
    moreover have "logged c ?a (rs @ [r])"
      unfolding logged_replayed_state using True assms(2) live by (auto simp: logged_def)
    ultimately show thesis using appended None True by blast
  qed
qed

lemma logged_sync:
  assumes "logged c st rs" "\<not> pl_poisoned st" "log_sync synced st = (res, st')"
  shows "logged c st' rs" "res = Inr () \<Longrightarrow> \<not> pl_poisoned st' \<and> pl_synced st' = pl_cursor st'
    \<and> pl_observations st' = pl_observations st \<and> pl_file st' = pl_file st"
proof -
  show "logged c st' rs"
    using assms logged_live [OF assms(1, 2)]
    by (auto simp: log_sync_def logged_def replayed_state_def split: if_splits intro!: exI [of _ "[]"])
qed (use assms in \<open>auto simp: log_sync_def split: if_splits\<close>)

text \<open>An append leaves the records as they were, or one more.\<close>

lemma logged_append:
  assumes "codec_laws c" "logged c st rs" "\<not> pl_poisoned st"
    and "log_append c fault synced r durable st = (res, st')"
  shows "logged c st' rs \<or> logged c st' (rs @ [r])"
  using assms
proof (cases rule: log_append_cases)
  case (failed n)
  have good: "list_all (good_record c) (rs @ [r])" using failed(4) assms(2) by (auto simp: logged_def)
  show ?thesis
  proof (cases "n < length (frame c r)")
    case True
    then have "torn c (take n (frame c r))" using failed(4) by (auto simp: torn_def)
    then show ?thesis using failed good by (auto simp: logged_def)
  next
    case False
    then show ?thesis using failed good by (auto simp: logged_def)
  qed
next
  case appended
  let ?a = "(replayed_state c (rs @ [r]))\<lparr>pl_synced := pl_synced st\<rparr>"
  have "\<not> pl_poisoned ?a" by (simp add: replayed_state_def)
  then have "log_sync synced ?a = (res, st') \<Longrightarrow> logged c st' (rs @ [r])"
    using logged_sync(1) appended(3) by blast
  then show ?thesis using appended(3, 4) by (auto split: if_splits)
qed (use assms in auto)

text \<open>The operations of a handle, in terms of the records of the log.\<close>

lemma transaction_eq: "\<not> pl_poisoned st \<Longrightarrow> transaction operation st = operation st"
  by (simp add: transaction_def)

lemma transaction_poisoned:
  "pl_poisoned st \<Longrightarrow> transaction operation st = (Inl (LogIo ''preimage append outcome unknown; reopen log''), st)"
  by (simp add: transaction_def)

lemma logged_promote:
  assumes "logged c st rs" "\<not> pl_poisoned st" "promote synced durable existing st = (res, st')"
  shows "logged c st' rs" "res = Inr () \<Longrightarrow> \<not> pl_poisoned st' \<and> pl_observations st' = pl_observations st
    \<and> (durable \<and> ob_end existing \<le> pl_cursor st \<longrightarrow> ob_end existing \<le> pl_synced st')"
proof -
  have "durable \<and> pl_synced st < ob_end existing \<Longrightarrow> log_sync synced st = (res, st')"
    "\<not> (durable \<and> pl_synced st < ob_end existing) \<Longrightarrow> st' = st"
    using assms(3) by (auto simp: promote_def)
  then show "logged c st' rs" using assms(1, 2) logged_sync(1) by blast
  show "res = Inr () \<Longrightarrow> \<not> pl_poisoned st' \<and> pl_observations st' = pl_observations st
      \<and> (durable \<and> ob_end existing \<le> pl_cursor st \<longrightarrow> ob_end existing \<le> pl_synced st')"
    using assms(2, 3) by (auto simp: promote_def log_sync_def split: if_splits)
qed

lemma logged_contains:
  assumes "logged c st rs" "contains_or_promote synced path durable st = (res, st')"
  shows "logged c st' rs"
proof (cases "pl_poisoned st \<or> isl (validate_path path) \<or> map_of (pl_observations st) path = None")
  case True
  then have "st' = st" using assms(2)
    by (auto simp: contains_or_promote_def transaction_def split: sum.splits if_splits)
  then show ?thesis using assms(1) by simp
next
  case False
  then obtain existing where e: "map_of (pl_observations st) path = Some existing" "\<not> pl_poisoned st"
      "validate_path path = Inr ()"
    by (cases "validate_path path") auto
  then obtain r where "promote synced durable existing st = (r, st')"
    using assms(2) by (auto simp: contains_or_promote_def transaction_def split: prod.splits)
  then show ?thesis using logged_promote(1) [OF assms(1) e(2)] by blast
qed

text \<open>A publication adds an observation of a path that has none, or nothing.\<close>

lemma logged_publish:
  assumes "codec_laws c" "logged c st rs"
    and "publish_observation c fault synced path durable fingerprint st = (res, st')"
  shows "logged c st' rs \<or> logged c st' (rs @ [Observe \<lparr>pp_path = path, pp_state = fingerprint\<rparr>])"
proof (cases "pl_poisoned st \<or> isl (validate_path path)")
  case True
  then have "st' = st" using assms(3)
    by (auto simp: publish_observation_def transaction_def split: sum.splits)
  then show ?thesis using assms(2) by simp
next
  case False
  then have live: "\<not> pl_poisoned st" and v: "validate_path path = Inr ()"
    by (cases "validate_path path"; simp)+
  show ?thesis
  proof (cases "map_of (pl_observations st) path")
    case None
    then show ?thesis using assms(3) live v logged_append [OF assms(1, 2) live]
      by (auto simp: publish_observation_def transaction_def)
  next
    case (Some existing)
    then show ?thesis using assms(3) live v logged_promote(1) [OF assms(2) live]
      by (auto simp: publish_observation_def transaction_def)
  qed
qed

lemma logged_sync_all:
  assumes "logged c st rs" "log_sync_all synced st = (res, st')"
  shows "logged c st' rs"
  using assms logged_sync(1) [of c st rs synced] by (cases "pl_poisoned st") (auto simp: log_sync_all_def transaction_def)

lemma logged_applied:
  assumes "codec_laws c" "logged c st rs" "applied_directory c fault synced preimage st = (res, st')"
  shows "logged c st' rs \<or> logged c st' (rs @ [DirectoryBaseline preimage])"
proof (cases "pl_poisoned st \<or> isl (validate_record (DirectoryBaseline preimage))")
  case True
  then have "st' = st" using assms(3)
    by (auto simp: applied_directory_def transaction_def simp del: validate_record.simps split: sum.splits)
  then show ?thesis using assms(2) by simp
next
  case False
  then have live: "\<not> pl_poisoned st" and v: "validate_record (DirectoryBaseline preimage) = Inr ()"
    by (cases "validate_record (DirectoryBaseline preimage)"; simp)+
  show ?thesis using assms(3) v logged_append [OF assms(1, 2) live]
    by (auto simp: applied_directory_def transaction_eq [OF live] simp del: validate_record.simps)
qed

text \<open>
  The loop of \<open>consume\<close> appends batches that split the paths it was given in order; within the
  estimate no batch is too large for a record.
\<close>

definition tombstone_size :: "rstr list \<Rightarrow> int" where
  "tombstone_size paths = 128 + sum_list (map (\<lambda>p. 4 * int (length p) + 3) paths)"

lemma tombstone_size_simps [simp]: "tombstone_size [] = 128"
  "tombstone_size (ps @ [p]) = tombstone_size ps + (4 * int (length p) + 3)"
  "tombstone_size [p] = 128 + (4 * int (length p) + 3)"
  by (simp_all add: tombstone_size_def)

lemma tombstone_good:
  assumes "codec_laws c" "list_all (\<lambda>p. validate_path p = Inr ()) paths" "tombstone_size paths \<le> max_record"
  shows "good_record c (Consume paths)"
proof -
  obtain body where "pc_encode c (Consume paths) = Some body" "int (length body) \<le> tombstone_size paths"
    using assms(1) unfolding codec_laws_def tombstone_size_def by blast
  then show ?thesis using assms(2, 3) by (auto simp: good_record_def list_all_iff)
qed

lemma tombstone_append:
  assumes "codec_laws c" "logged c st rs" "\<not> pl_poisoned st"
    and "list_all (\<lambda>p. validate_path p = Inr ()) paths" "tombstone_size paths \<le> max_record"
    and "log_append c fault True (Consume paths) False st = (res, st')"
  shows "(res = Inr () \<and> \<not> pl_poisoned st' \<and> logged c st' (rs @ [Consume paths]) \<and> pl_synced st' = pl_synced st)
    \<or> (\<exists>e. res = Inl e \<and> (logged c st' rs \<or> logged c st' (rs @ [Consume paths]))
         \<and> (fault = None \<longrightarrow> e = LogInvalid ''preimage log exceeds size limit'' \<and> st' = st))"
proof -
  have good: "good_record c (Consume paths)" by (rule tombstone_good [OF assms(1, 4, 5)])
  then obtain body where body: "pc_encode c (Consume paths) = Some body" "body \<noteq> []"
      "\<not> max_record < int (length body)" "validate_record (Consume paths) = Inr ()"
    using assms(1) by (auto simp: good_record_def codec_laws_def)
  show ?thesis using assms(1-3, 6)
  proof (cases rule: log_append_cases)
    case (refused e)
    then have "fault = None \<Longrightarrow> e = LogInvalid ''preimage log exceeds size limit''"
      using assms(6) body by (auto simp: log_append_def Let_def simp del: validate_record.simps split: if_splits)
    then show ?thesis using refused assms(2) by blast
  next
    case (failed n)
    then show ?thesis using logged_append [OF assms(1-3, 6)] by blast
  next
    case appended
    then show ?thesis by (auto simp: replayed_state_def)
  qed
qed

definition batches_post ::
  "preimage_codec \<Rightarrow> nat option list \<Rightarrow> rstr list \<Rightarrow> rstr list \<Rightarrow> bool \<Rightarrow> preimage_record list \<Rightarrow> preimage_log
     \<Rightarrow> log_error + (rstr list \<times> bool \<times> nat option list) \<Rightarrow> preimage_log \<Rightarrow> rstr list list \<Rightarrow> bool" where
  "batches_post c faults paths batch appended rs st res st' ds \<longleftrightarrow>
     set (concat ds) \<subseteq> set (batch @ paths) \<and> logged c st' (rs @ map Consume ds)
     \<and> (\<forall>e. res = Inl e \<and> faults = [] \<longrightarrow> e = LogInvalid ''preimage log exceeds size limit''
           \<or> e = LogInvalid ''preimage path exceeds size limit''
              \<and> (\<exists>p \<in> set paths. max_record - 128 < 4 * int (length p) + 3))
     \<and> (\<forall>rest flag faults'. res = Inr (rest, flag, faults') \<longrightarrow>
           concat ds @ rest = batch @ paths \<and> \<not> pl_poisoned st' \<and> tombstone_size rest \<le> max_record
           \<and> flag = (appended \<or> ds \<noteq> []) \<and> (faults = [] \<longrightarrow> faults' = []) \<and> pl_synced st' = pl_synced st)"

lemma batches_post_grow:
  "batches_post c faults paths (batch @ [path]) appended rs st res st' ds
     \<Longrightarrow> batches_post c faults (path # paths) batch appended rs st res st' ds"
  unfolding batches_post_def by auto

lemma batches_post_flush:
  "batches_post c (tl faults) paths [path] True (rs @ [Consume batch]) st1 res st' ds
     \<Longrightarrow> pl_synced st1 = pl_synced st
     \<Longrightarrow> batches_post c faults (path # paths) batch appended rs st res st' (batch # ds)"
  unfolding batches_post_def by auto

lemma consume_batches_spec:
  assumes "codec_laws c" "logged c st rs" "\<not> pl_poisoned st"
    and "list_all (\<lambda>p. validate_path p = Inr ()) (batch @ paths)"
    and "estimate = tombstone_size batch" "estimate \<le> max_record"
    and "consume_batches c faults paths batch estimate appended st = (res, st')"
  shows "\<exists>ds. batches_post c faults paths batch appended rs st res st' ds"
  using assms(2-)
proof (induction paths arbitrary: faults batch estimate appended st rs)
  case Nil
  then have "batches_post c faults [] batch appended rs st res st' []" by (auto simp: batches_post_def)
  then show ?case by blast
next
  case (Cons path paths)
  let ?bytes = "4 * int (length path) + 3"
  consider (long) "2 ^ 64 \<le> ?bytes \<or> max_record - 128 < ?bytes"
    | (flush) "\<not> (2 ^ 64 \<le> ?bytes \<or> max_record - 128 < ?bytes)" "max_record < estimate + ?bytes"
    | (grow) "\<not> (2 ^ 64 \<le> ?bytes \<or> max_record - 128 < ?bytes)" "\<not> max_record < estimate + ?bytes" by blast
  then show ?case
  proof cases
    case long
    then have "res = Inl (LogInvalid ''preimage path exceeds size limit'')" "st' = st"
      using Cons.prems(6) by (auto simp: Let_def)
    moreover have "max_record - 128 < ?bytes" using long by (auto simp: max_record_def)
    ultimately have "batches_post c faults (path # paths) batch appended rs st res st' []"
      using Cons.prems(1) by (auto simp: batches_post_def)
    then show ?thesis by blast
  next
    case grow
    then have run: "consume_batches c faults paths (batch @ [path]) (estimate + ?bytes) appended st = (res, st')"
      using Cons.prems(6) by (simp add: Let_def)
    have "\<exists>ds. batches_post c faults paths (batch @ [path]) appended rs st res st' ds"
      by (rule Cons.IH [OF Cons.prems(1, 2) _ _ _ run]) (use Cons.prems(3-5) grow in auto)
    then show ?thesis using batches_post_grow by blast
  next
    case flush
    obtain r1 st1 where a: "log_append c (next_fault faults) True (Consume batch) False st = (r1, st1)"
      by (cases "log_append c (next_fault faults) True (Consume batch) False st") auto
    have vb: "list_all (\<lambda>p. validate_path p = Inr ()) batch" using Cons.prems(3) by simp
    have tb: "tombstone_size batch \<le> max_record" using Cons.prems(4, 5) by simp
    note step = tombstone_append [OF assms(1) Cons.prems(1, 2) vb tb a]
    show ?thesis
    proof (cases r1)
      case (Inl e)
      then have res: "res = Inl e" "st' = st1" using Cons.prems(6) flush a by (auto simp: Let_def)
      have "batches_post c faults (path # paths) batch appended rs st res st' []
          \<or> batches_post c faults (path # paths) batch appended rs st res st' [batch]"
        using step Inl res by (auto simp: batches_post_def next_fault_def)
      then show ?thesis by blast
    next
      case (Inr u)
      then have run: "consume_batches c (tl faults) paths [path] (128 + ?bytes) True st1 = (res, st')"
        using Cons.prems(6) flush a by (simp add: Let_def)
      have s: "logged c st1 (rs @ [Consume batch])" "\<not> pl_poisoned st1" "pl_synced st1 = pl_synced st"
        using step Inr by auto
      have "\<exists>ds. batches_post c (tl faults) paths [path] True (rs @ [Consume batch]) st1 res st' ds"
        by (rule Cons.IH [OF s(1, 2) _ _ _ run]) (use Cons.prems(3) flush in auto)
      then show ?thesis using batches_post_flush s(3) by blast
    qed
  qed
qed

definition consume_failure :: "rstr list \<Rightarrow> log_error \<Rightarrow> bool" where
  "consume_failure paths e \<longleftrightarrow> e = LogInvalid ''preimage log exceeds size limit''
     \<or> (e = LogInvalid ''preimage path exceeds size limit''
        \<and> list_ex (\<lambda>p. max_record - 128 < 4 * int (length p) + 3) paths)"

definition consume_post ::
  "preimage_codec \<Rightarrow> nat option list \<Rightarrow> bool \<Rightarrow> rstr list \<Rightarrow> preimage_record list \<Rightarrow> preimage_log
     \<Rightarrow> log_error + unit \<Rightarrow> preimage_log \<Rightarrow> rstr list list \<Rightarrow> bool" where
  "consume_post c faults synced paths rs st res st' ds \<longleftrightarrow>
     logged c st' (rs @ map Consume ds) \<and> set (concat ds) \<subseteq> set paths
     \<and> (res = Inr () \<longrightarrow> \<not> pl_poisoned st'
          \<and> set (concat ds) = {p \<in> set paths. map_of (pl_observations st) p \<noteq> None}
          \<and> (concat ds \<noteq> [] \<longrightarrow> pl_synced st' = pl_cursor st'))
     \<and> (\<forall>e. res = Inl e \<and> faults = [] \<and> synced \<longrightarrow> consume_failure paths e)"

lemma consume_post_sync:
  assumes "logged c s (rs @ map Consume ds)" "\<not> pl_poisoned s"
    and "set (concat ds) = {p \<in> set paths. map_of (pl_observations st) p \<noteq> None}"
    and "log_sync synced s = (res, st')"
  shows "consume_post c faults synced paths rs st res st' ds"
  unfolding consume_post_def using logged_sync [OF assms(1, 2, 4)] assms(3, 4)
  by (auto simp: log_sync_def split: if_splits)

lemma logged_consume:
  assumes "codec_laws c" "logged c st rs" "\<not> pl_poisoned st" "all_res validate_path paths = Inr ()"
    and "log_consume c faults synced paths st = (res, st')"
  shows "\<exists>ds. consume_post c faults synced paths rs st res st' ds"
proof -
  let ?known = "filter (\<lambda>p. map_of (pl_observations st) p \<noteq> None) paths"
  obtain r1 st1 where run: "consume_batches c faults ?known [] 128 False st = (r1, st1)"
    by (cases "consume_batches c faults ?known [] 128 False st") auto
  note eq = assms(5) [unfolded log_consume_def assms(4) sum.case transaction_eq [OF assms(3)] run]
  have valid: "list_all (\<lambda>p. validate_path p = Inr ()) ([] @ ?known)"
    using assms(4) by (simp add: list_all_iff)
  have "128 \<le> max_record" by (simp add: max_record_def)
  then obtain ds where ds: "batches_post c faults ?known [] False rs st r1 st1 ds"
    using consume_batches_spec [OF assms(1-3) valid _ _ run] by auto
  show ?thesis
  proof (cases r1)
    case (Inl e)
    then have "res = Inl e" "st' = st1"
      using eq by auto
    then show ?thesis using ds Inl
      by (intro exI [of _ ds]) (auto simp: consume_post_def batches_post_def consume_failure_def list_ex_iff)
  next
    case (Inr triple)
    then obtain rest flag faults' where r1: "r1 = Inr (rest, flag, faults')" by (cases triple) auto
    then have post: "concat ds @ rest = ?known" "\<not> pl_poisoned st1" "tombstone_size rest \<le> max_record"
        "flag \<longleftrightarrow> ds \<noteq> []" "faults = [] \<longrightarrow> faults' = []" "logged c st1 (rs @ map Consume ds)"
      using ds by (auto simp: batches_post_def)
    have known: "set (concat ds) \<union> set rest = {p \<in> set paths. map_of (pl_observations st) p \<noteq> None}"
      using arg_cong [OF post(1), of set] by auto
    show ?thesis
    proof (cases "rest = []")
      case True
      then have "consume_post c faults synced paths rs st res st' ds"
        using eq r1 post known consume_post_sync [OF post(6, 2), of paths st synced res st' faults]
        by (cases ds) (auto simp: consume_post_def)
      then show ?thesis by blast
    next
      case False
      obtain r2 st2 where a: "log_append c (next_fault faults') True (Consume rest) False st1 = (r2, st2)"
        by (cases "log_append c (next_fault faults') True (Consume rest) False st1") auto
      have vr: "list_all (\<lambda>p. validate_path p = Inr ()) rest"
        using known assms(4) by (auto simp: list_all_iff)
      note step = tombstone_append [OF assms(1) post(6, 2) vr post(3) a]
      have sub: "set rest \<subseteq> set paths" "set (concat ds) \<subseteq> set paths" using known by auto
      show ?thesis
      proof (cases r2)
        case (Inl e)
        then have res: "res = Inl e" "st' = st2" using eq r1 False a by simp_all
        have "faults = [] \<Longrightarrow> next_fault faults' = None" using post(5) by (simp add: next_fault_def)
        then have "consume_post c faults synced paths rs st res st' ds
            \<or> consume_post c faults synced paths rs st res st' (ds @ [rest])"
          using step Inl res sub by (auto simp: consume_post_def consume_failure_def)
        then show ?thesis by blast
      next
        case (Inr u)
        then have s2: "logged c st2 (rs @ map Consume (ds @ [rest]))" "\<not> pl_poisoned st2" using step by auto
        have "log_sync synced st2 = (res, st')" using eq r1 False a Inr by simp
        then have "consume_post c faults synced paths rs st res st' (ds @ [rest])"
          using consume_post_sync [OF s2] known by simp
        then show ?thesis by blast
      qed
    qed
  qed
qed

lemma map_of_fold_delete:
  "map_of (fold AList.delete ps obs) p = (if p \<in> set ps then None else map_of obs p)"
  by (induction ps arbitrary: obs) (simp_all add: AList.delete_conv')

lemma observed_consumed:
  "map_of (observed c (rs @ map Consume ds)) p =
     (if p \<in> set (concat ds) then None else map_of (observed c rs) p)"
proof (induction ds rule: rev_induct)
  case (snoc d ds)
  have "observed c (rs @ map Consume (ds @ [d])) =
      fold AList.delete d (observed c (rs @ map Consume ds))"
    using observed_snoc [of c "rs @ map Consume ds" "Consume d"] by simp
  then show ?case using snoc by (simp add: map_of_fold_delete)
qed simp

section \<open>Histories\<close>

text \<open>
  The steps of a workload, and the two of an apply. After an opening that fails there is no
  handle: the log is then what it holds, and unusable until it is opened again.
\<close>

inductive workload_step :: "preimage_codec \<Rightarrow> preimage_log \<Rightarrow> preimage_log \<Rightarrow> bool" for c where
  publish: "publish_observation c fault synced path durable fingerprint st = (res, st') \<Longrightarrow> workload_step c st st'"
| contains: "contains_or_promote synced path durable st = (res', st') \<Longrightarrow> workload_step c st st'"
| sync_all: "log_sync_all synced st = (res, st') \<Longrightarrow> workload_step c st st'"
| reopen: "log_open c env (pl_file st) = (Inr st', file) \<Longrightarrow> workload_step c st st'"
| open_fails: "log_open c env (pl_file st) = (Inl e, file)
     \<Longrightarrow> workload_step c st (st\<lparr>pl_file := file, pl_poisoned := True\<rparr>)"

inductive log_step :: "preimage_codec \<Rightarrow> preimage_log \<Rightarrow> preimage_log \<Rightarrow> bool" for c where
  workload: "workload_step c st st' \<Longrightarrow> log_step c st st'"
| consume: "log_consume c faults synced paths st = (res, st') \<Longrightarrow> log_step c st st'"
| applied: "applied_directory c fault synced preimage st = (res, st') \<Longrightarrow> log_step c st st'"

inductive_cases workload_stepE: "workload_step c st st'"
inductive_cases log_stepE: "log_step c st st'"

definition log_init :: "preimage_codec \<Rightarrow> preimage_log \<Rightarrow> bool" where
  "log_init c st \<longleftrightarrow> (\<exists>env file. log_open c env [] = (Inr st, file))"

lemma open_logged:
  assumes "codec_laws c" "logged c st rs" "log_open c env (pl_file st) = (res, file)"
  shows "(\<exists>tail. torn c tail \<and> file = log_file c rs @ tail) \<and> int (length file) \<le> max_log
    \<and> (\<forall>st'. res = Inr st' \<longrightarrow> st' = replayed_state c rs \<and> file = log_file c rs)
    \<and> (log_env_ok env \<longrightarrow> res = Inr (replayed_state c rs))"
proof -
  obtain tail where tail: "torn c tail" "pl_file st = log_file c rs @ tail"
    using assms(2) torn_Nil [of c] by (cases "pl_poisoned st") (auto simp: logged_def)
  have ok: "list_all (good_record c) rs" and lim: "int (length (log_file c rs @ tail)) \<le> max_log"
    using assms(2) tail(2) by (auto simp: logged_def)
  note o = open_any [OF assms(1) ok tail(1) lim assms(3) [unfolded tail(2)]]
  have "\<exists>tail. torn c tail \<and> file = log_file c rs @ tail"
    using o tail(1) torn_Nil by (metis append_Nil2)
  moreover have "length file \<le> length (log_file c rs @ tail)" using conjunct1 [OF o] by fastforce
  then have "int (length file) \<le> max_log" using lim by linarith
  ultimately show ?thesis using o by blast
qed

lemma logged_init: "codec_laws c \<Longrightarrow> log_init c st \<Longrightarrow> logged c st []"
proof -
  assume laws: "codec_laws c" and "log_init c st"
  then obtain env f where "log_open c env [] = (Inr st, f)" by (auto simp: log_init_def)
  then have "open_replay c env log_magic = (Inr st, f)"
    by (auto simp: log_open_def split: sum.splits option.splits)
  moreover have lim: "int (length log_magic) \<le> max_log" by (simp add: max_log_def log_magic_def)
  moreover have "refresh c True (le_truncated env) (le_tail_synced env) (int (length log_magic)) (log_start log_magic)
      = (Inr (), \<lparr>pl_file = log_magic, pl_cursor = int (length log_magic), pl_synced = 0,
                pl_observations = [], pl_poisoned = False\<rparr>)"
    using refresh_log [OF laws, of "[]" "[]" True "le_truncated env" "le_tail_synced env"] lim
    by (simp add: log_file_def observed_def)
  ultimately have "st = replayed_state c []"
    by (auto simp: open_replay_def log_sync_def replayed_state_def log_file_def observed_def split: if_splits)
  then show ?thesis using lim by (simp add: logged_def replayed_state_def log_file_def)
qed

definition observes :: "preimage_record \<Rightarrow> bool" where
  "observes r = (case r of Observe _ \<Rightarrow> True | _ \<Rightarrow> False)"

text \<open>A step of the workload only ever adds observations to the records.\<close>

lemma extends_none: "logged c st rs \<Longrightarrow> \<exists>es. logged c st (rs @ es) \<and> list_all observes es"
  by (intro exI [of _ "[]"]) simp

lemma logged_workload_step:
  assumes "codec_laws c" "logged c st rs" "workload_step c st st'"
  shows "\<exists>es. logged c st' (rs @ es) \<and> list_all observes es"
  using assms(3)
proof cases
  case (publish fault synced path durable fingerprint res)
  have "list_all observes [Observe \<lparr>pp_path = path, pp_state = fingerprint\<rparr>]" by (simp add: observes_def)
  then show ?thesis using logged_publish [OF assms(1, 2) publish] extends_none by blast
next
  case (contains synced path durable res')
  then show ?thesis using logged_contains [OF assms(2)] extends_none by blast
next
  case (sync_all synced res)
  then show ?thesis using logged_sync_all [OF assms(2)] extends_none by blast
next
  case (reopen env f)
  note o = open_logged [OF assms(1, 2) reopen]
  have "list_all (good_record c) rs" using assms(2) by (simp add: logged_def)
  moreover have "st' = replayed_state c rs" and f: "f = log_file c rs" using o by blast+
  moreover have "int (length (log_file c rs)) \<le> max_log" using conjunct1 [OF conjunct2 [OF o]] f by simp
  ultimately have "logged c st' rs" by (simp add: logged_def replayed_state_def log_file_def)
  then show ?thesis by (rule extends_none)
next
  case (open_fails env e f)
  note o = open_logged [OF assms(1, 2) open_fails(2)]
  have good: "list_all (good_record c) rs" using assms(2) by (simp add: logged_def)
  have "pl_file st' = f" "pl_poisoned st'" by (simp_all add: open_fails(1))
  then have "logged c st' rs" unfolding logged_def using o good by metis
  then show ?thesis by (rule extends_none)
qed

lemma logged_workload:
  assumes "codec_laws c" "(workload_step c)\<^sup>*\<^sup>* st st'" "logged c st rs"
  shows "\<exists>es. logged c st' (rs @ es) \<and> list_all observes es"
  using assms(2, 3)
proof (induction rule: rtranclp_induct)
  case base
  then show ?case by (rule extends_none)
next
  case (step s t)
  then obtain es where es: "logged c s (rs @ es)" "list_all observes es" by blast
  from logged_workload_step [OF assms(1) es(1) step(2)]
  obtain fs where "logged c t (rs @ es @ fs)" "list_all observes fs" by auto
  then show ?case using es(2) by (metis list_all_append)
qed

lemma logged_step:
  assumes "codec_laws c" "logged c st rs" "log_step c st st'"
  shows "\<exists>rs'. logged c st' rs'"
  using assms(3)
proof cases
  case workload
  then show ?thesis using logged_workload_step [OF assms(1, 2)] by blast
next
  case (consume faults synced paths res)
  show ?thesis
  proof (cases "pl_poisoned st \<or> isl (all_res validate_path paths)")
    case True
    then have "st' = st" using consume by (auto simp: log_consume_def transaction_def split: sum.splits)
    then show ?thesis using assms(2) by blast
  next
    case False
    then have "\<not> pl_poisoned st" "all_res validate_path paths = Inr ()"
      by (cases "all_res validate_path paths"; simp)+
    then show ?thesis using logged_consume [OF assms(1, 2) _ _ consume] by (auto simp: consume_post_def)
  qed
next
  case (applied fault synced preimage res)
  then show ?thesis using logged_applied [OF assms(1, 2)] by blast
qed

interpretation preimages: state_machine "\<lambda>st. codec_laws c \<and> log_init c st" "log_step c"
  "\<lambda>st. codec_laws c \<and> (\<exists>rs. logged c st rs)" for c
  by unfold_locales (use logged_init logged_step in \<open>blast+\<close>)

section \<open>What survives\<close>

lemma observed_end_le:
  assumes "map_of (observed c rs) p = Some ob"
  shows "ob_end ob \<le> int (length (log_file c rs))"
  using assms
proof (induction rs rule: rev_induct)
  case Nil
  then show ?case by (simp add: observed_def)
next
  case (snoc r rs)
  then show ?case
    by (cases r) (auto simp: observed_snoc AList.update_conv' map_of_fold_delete split: if_splits)
qed

text \<open>
  An entry whose end is not past \<open>m\<close> is already in the index of the records that lie before
  \<open>m\<close>: no later record made it or left it alone after another.
\<close>

lemma observed_before:
  assumes "codec_laws c" "map_of (observed c (rs @ rs')) p = Some ob" "ob_end ob \<le> m"
    and "rs' \<noteq> [] \<Longrightarrow> m < int (length (log_file c (rs @ [hd rs'])))"
  shows "map_of (observed c rs) p = Some ob"
  using assms(2-)
proof (induction rs' rule: rev_induct)
  case (snoc r rs')
  have "length (log_file c (rs @ [hd (rs' @ [r])])) \<le> length (log_file c (rs @ rs' @ [r]))"
    by (cases rs') (simp_all add: log_file_def)
  then have "m < int (length (log_file c (rs @ rs' @ [r])))" using snoc.prems(3) by simp
  then have "map_of (observed c (rs @ rs')) p = Some ob"
    using snoc.prems(1, 2) observed_snoc [of c "rs @ rs'" r]
    by (cases r) (auto simp: AList.update_conv' map_of_fold_delete split: if_splits)
  then show ?case using snoc.IH snoc.prems(2, 3) by (cases rs') auto
qed simp

lemma take_frames:
  assumes "list_all (good_record c) rs"
  shows "\<exists>k tail. take m (frames c rs) = frames c (take k rs) @ tail \<and> torn c tail
    \<and> (k < length rs \<longrightarrow> m < length (frames c (take (Suc k) rs)))"
  using assms
proof (induction rs arbitrary: m)
  case (Cons r rs)
  show ?case
  proof (cases "m < length (frame c r)")
    case True
    then have "torn c (take m (frame c r))" using Cons.prems by (auto simp: torn_def)
    then show ?thesis using True by (intro exI [of _ 0]) simp
  next
    case False
    from Cons.IH [of "m - length (frame c r)"] Cons.prems obtain k tail where
      "take (m - length (frame c r)) (frames c rs) = frames c (take k rs) @ tail" "torn c tail"
      "k < length rs \<longrightarrow> m - length (frame c r) < length (frames c (take (Suc k) rs))" by auto
    then show ?thesis using False by (intro exI [of _ "Suc k"] exI [of _ tail]) auto
  qed
qed (auto intro!: exI [of _ 0])

text \<open>Opening what is left of a log cut anywhere after its magic.\<close>

lemma open_truncated:
  assumes "codec_laws c" "logged c st rs" "\<not> pl_poisoned st" "length log_magic \<le> m" "log_env_ok env"
  shows "\<exists>k. log_open c env (take m (pl_file st)) = (Inr (replayed_state c (take k rs)), log_file c (take k rs))
    \<and> (k < length rs \<longrightarrow> m < length (log_file c (take (Suc k) rs)))"
proof -
  have good: "list_all (good_record c) rs" using assms(2) by (simp add: logged_def)
  from take_frames [OF good, of "m - length log_magic" ] obtain k tail where
    k: "take (m - length log_magic) (frames c rs) = frames c (take k rs) @ tail" "torn c tail"
       "k < length rs \<longrightarrow> m - length log_magic < length (frames c (take (Suc k) rs))" by blast
  have cut: "take m (pl_file st) = log_file c (take k rs) @ tail"
    using logged_live(1) [OF assms(2, 3)] assms(4) k(1) by (simp add: log_file_def)
  have "length (log_file c (take k rs) @ tail) \<le> length (pl_file st)" by (simp add: cut [symmetric])
  then have lim: "int (length (log_file c (take k rs) @ tail)) \<le> max_log"
    using assms(2) by (auto simp: logged_def split: if_splits)
  have gk: "list_all (good_record c) (take k rs)" using good by (auto simp: list_all_iff dest: in_set_takeD)
  obtain res f where o: "log_open c env (log_file c (take k rs) @ tail) = (res, f)"
    by (cases "log_open c env (log_file c (take k rs) @ tail)") auto
  have "res = Inr (replayed_state c (take k rs)) \<and> f = log_file c (take k rs)"
    using open_any [OF assms(1) gk k(2) lim o] assms(5) by blast
  then show ?thesis using o cut k(3) assms(4) by (intro exI [of _ k]) (auto simp: log_file_def)
qed

lemma observed_kept:
  assumes "list_all observes es" "map_of (observed c rs) p = Some ob"
  shows "map_of (observed c (rs @ es)) p = Some ob"
  using assms(1)
proof (induction es rule: rev_induct)
  case (snoc r es)
  then show ?case using observed_snoc [of c "rs @ es" r]
    by (cases r) (auto simp: observes_def AList.update_conv')
qed (simp add: assms(2))

lemma read_complete_log:
  assumes "codec_laws c" "logged c st rs" "\<not> pl_poisoned st" "log_env_ok env"
  shows "log_read_complete c env (pl_file st) = Inr (sorted_preimages (pl_observations st))"
proof -
  have "list_all (good_record c) rs" "int (length (log_file c rs @ [])) \<le> max_log"
    using assms(2, 3) by (auto simp: logged_def)
  from refresh_log [OF assms(1) this(1) torn_Nil this(2), of False False False]
  have "refresh c False False False (int (length (log_file c rs))) (log_start (log_file c rs)) =
      (Inr (), \<lparr>pl_file = log_file c rs, pl_cursor = int (length (log_file c rs)), pl_synced = 0,
               pl_observations = observed c rs, pl_poisoned = False\<rparr>)" by simp
  then show ?thesis
    using assms(4) check_magic_log_file [of c rs "[]"] logged_live [OF assms(2, 3)]
    by (simp add: log_read_complete_def read_prefix_def log_env_ok_def ensure_def)
qed

lemma publish_durable:
  assumes "codec_laws c" "logged c st rs"
    and "publish_observation c fault synced path True fingerprint st = (Inr (), st')"
  shows "\<exists>ob. \<not> pl_poisoned st' \<and> map_of (pl_observations st') path = Some ob \<and> ob_end ob \<le> pl_synced st'
    \<and> (map_of (pl_observations st) path = None \<longrightarrow> pp_state (ob_preimage ob) = fingerprint)"
proof -
  have live: "\<not> pl_poisoned st" and v: "validate_path path = Inr ()"
    using assms(3) by (auto simp: publish_observation_def transaction_def split: sum.splits if_splits)
  note eq = assms(3) [unfolded publish_observation_def v sum.case transaction_eq [OF live]]
  show ?thesis
  proof (cases "map_of (pl_observations st) path")
    case (Some ob)
    then have p: "promote synced True ob st = (Inr (), st')" using eq by simp
    have "ob_end ob \<le> pl_cursor st"
      using observed_end_le [of c rs path ob] Some logged_live [OF assms(2) live] by simp
    then show ?thesis using logged_promote(2) [OF assms(2) live p] Some by simp
  next
    case None
    let ?r = "Observe \<lparr>pp_path = path, pp_state = fingerprint\<rparr>"
    have "log_append c fault synced ?r True st = (Inr (), st')" using eq None by simp
    with assms(1, 2) live show ?thesis
    proof (cases rule: log_append_cases)
      case appended
      then have "st' = (replayed_state c (rs @ [?r]))\<lparr>pl_synced := int (length (log_file c (rs @ [?r])))\<rparr>"
        by (auto simp: log_sync_def replayed_state_def split: if_splits)
      moreover have "map_of (observed c rs) path = None" using None logged_live(3) [OF assms(2) live] by simp
      ultimately show ?thesis using observed_snoc [of c rs ?r]
        by (simp add: replayed_state_def AList.update_conv')
    qed simp_all
  qed
qed

lemma consume_nothing:
  assumes "\<forall>p \<in> set paths. map_of (pl_observations st) p = None" "\<not> pl_poisoned st"
    and "log_consume c faults synced paths st = (Inr (), st')"
  shows "st' = st"
proof -
  have "filter (\<lambda>p. map_of (pl_observations st) p \<noteq> None) paths = []" using assms(1) by simp
  then show ?thesis using assms(2, 3) unfolding log_consume_def transaction_eq [OF assms(2)]
    by (auto split: sum.splits simp del: filter_empty_conv all_res_Inr_iff)
qed

text \<open>
  C18. A log can always be opened again. Whatever the workload and an apply did to it, however
  many writes, syncs, truncations and earlier openings failed and wherever in a frame a write
  stopped: the next opening that meets no fault succeeds, keeps a prefix of the file, and a
  handle that had not failed gets back exactly its index and its file. The log of such a handle
  can also be sealed, and reads as the same observations.
\<close>

theorem preimage_log_reopens:
  assumes "codec_laws c" "log_init c st0" "(log_step c)\<^sup>*\<^sup>* st0 st" "log_env_ok env"
  shows "\<exists>re tail. log_open c env (pl_file st) = (Inr re, pl_file re) \<and> pl_file st = pl_file re @ tail
    \<and> \<not> pl_poisoned re \<and> pl_synced re = pl_cursor re
    \<and> (\<not> pl_poisoned st \<longrightarrow> re = st\<lparr>pl_synced := pl_cursor st\<rparr>
         \<and> log_read_complete c env (pl_file st) = Inr (sorted_preimages (pl_observations st)))"
proof -
  obtain rs where rs: "logged c st rs" using preimages.inv_reachable [of c st0 st] assms(1-3) by blast
  obtain res f where o: "log_open c env (pl_file st) = (res, f)" by (cases "log_open c env (pl_file st)") auto
  have res: "res = Inr (replayed_state c rs)" "f = log_file c rs"
    using open_logged [OF assms(1) rs o] assms(4) by blast+
  obtain tail where tail: "pl_file st = log_file c rs @ tail"
    using rs by (cases "pl_poisoned st") (auto simp: logged_def)
  have "\<not> pl_poisoned st \<Longrightarrow> replayed_state c rs = st\<lparr>pl_synced := pl_cursor st\<rparr>"
    using rs by (cases st) (simp add: logged_def replayed_state_def)
  then show ?thesis using o res tail read_complete_log [OF assms(1) rs _ assms(4)]
    by (intro exI [of _ "replayed_state c rs"] exI [of _ tail]) (simp add: replayed_state_def)
qed

text \<open>
  C7. An observation that was acknowledged as durable survives the loss of everything that was
  not synced: once \<open>publish_observation\<close> has returned successfully with \<open>durable\<close>, whatever
  prefix of the file is left that holds what the handle knows to be synced, even one that ends
  inside a frame, opens to a log that holds the observation of that path unchanged.
\<close>

theorem durable_observation_survives:
  assumes "codec_laws c" "log_init c st0" "(log_step c)\<^sup>*\<^sup>* st0 st"
    and "publish_observation c fault synced path True fingerprint st = (Inr (), st')"
    and "pl_synced st' \<le> int m" "log_env_ok env"
  shows "\<exists>re f ob. log_open c env (take m (pl_file st')) = (Inr re, f)
    \<and> map_of (pl_observations st') path = Some ob \<and> map_of (pl_observations re) path = Some ob
    \<and> (map_of (pl_observations st) path = None \<longrightarrow> pp_state (ob_preimage ob) = fingerprint)"
proof -
  obtain rs where rs: "logged c st rs" using preimages.inv_reachable [of c st0 st] assms(1-3) by blast
  obtain rs' where rs': "logged c st' rs'" using logged_publish [OF assms(1) rs assms(4)] by blast
  from publish_durable [OF assms(1) rs assms(4)] obtain ob where
    ob: "\<not> pl_poisoned st'" "map_of (pl_observations st') path = Some ob" "ob_end ob \<le> pl_synced st'"
      "map_of (pl_observations st) path = None \<longrightarrow> pp_state (ob_preimage ob) = fingerprint"
    by (elim exE conjE) (rule that)
  have "length log_magic \<le> m" using logged_live(5) [OF rs' ob(1)] assms(5) by linarith
  from open_truncated [OF assms(1) rs' ob(1) this assms(6)] obtain k where
    k: "log_open c env (take m (pl_file st')) = (Inr (replayed_state c (take k rs')), log_file c (take k rs'))"
      "k < length rs' \<longrightarrow> m < length (log_file c (take (Suc k) rs'))" by blast
  have "map_of (observed c (take k rs')) path = Some ob"
  proof (rule observed_before [OF assms(1), where rs' = "drop k rs'" and m = "int m"])
    show "map_of (observed c (take k rs' @ drop k rs')) path = Some ob"
      using ob(1, 2) logged_live(3) [OF rs' ob(1)] by simp
    show "ob_end ob \<le> int m" using ob(3) assms(5) by linarith
    assume "drop k rs' \<noteq> []"
    then have "k < length rs'" by simp
    then show "int m < int (length (log_file c (take k rs' @ [hd (drop k rs')])))"
      using k(2) by (simp add: take_Suc_conv_app_nth hd_drop_conv_nth del: log_file_snoc)
  qed
  then show ?thesis using k(1) ob(2, 4) by (simp add: replayed_state_def)
qed

text \<open>
  C24. The first observation of a path is the one that counts. Whatever the workload publishes
  later for the same path or others, durably or not, through failed writes, failed syncs and
  reopenings, the entry of the path, fingerprint and position, is the one first recorded.
\<close>

theorem first_observation_wins:
  assumes "codec_laws c" "log_init c st0" "(log_step c)\<^sup>*\<^sup>* st0 st" "\<not> pl_poisoned st"
    and "map_of (pl_observations st) path = Some ob"
    and "(workload_step c)\<^sup>*\<^sup>* st st'" "\<not> pl_poisoned st'"
  shows "map_of (pl_observations st') path = Some ob"
proof -
  obtain rs where rs: "logged c st rs" using preimages.inv_reachable [of c st0 st] assms(1-3) by blast
  from logged_workload [OF assms(1, 6) rs] obtain es where
    es: "logged c st' (rs @ es)" "list_all observes es" by blast
  have "map_of (observed c rs) path = Some ob" using logged_live(3) [OF rs assms(4)] assms(5) by simp
  then show ?thesis using observed_kept [OF es(2)] logged_live(3) [OF es(1) assms(7)] by simp
qed

text \<open>
  C25. Consuming observations removes exactly the given paths and is durable when it returns. Its
  batches never exceed the size of a record: without I/O faults, and for paths within the size
  limit, the only way it fails is that the log itself is full.
\<close>

theorem consume_contract:
  assumes "codec_laws c" "log_init c st0" "(log_step c)\<^sup>*\<^sup>* st0 st" "\<not> pl_poisoned st"
    and "list_all (\<lambda>p. validate_path p = Inr ()) paths"
    and "log_consume c faults synced paths st = (res, st')"
  shows "case res of
      Inr _ \<Rightarrow> (\<forall>p. map_of (pl_observations st') p =
                    (if p \<in> set paths then None else map_of (pl_observations st) p))
          \<and> (st' = st \<or> pl_synced st' = pl_cursor st')
    | Inl e \<Rightarrow> faults = [] \<and> synced \<and> list_all (\<lambda>p. 4 * int (length p) + 3 \<le> max_record - 128) paths
          \<longrightarrow> e = LogInvalid ''preimage log exceeds size limit''"
proof -
  obtain rs where rs: "logged c st rs" using preimages.inv_reachable [of c st0 st] assms(1-3) by blast
  have "all_res validate_path paths = Inr ()" using assms(5) by (simp add: list_all_iff)
  from logged_consume [OF assms(1) rs assms(4) this assms(6)] obtain ds where
    ds: "consume_post c faults synced paths rs st res st' ds" by blast
  show ?thesis
  proof (cases res)
    case (Inl e)
    then show ?thesis using ds
      by (auto simp: consume_post_def consume_failure_def list_ex_iff list_all_iff)
  next
    case (Inr u)
    then have d: "\<not> pl_poisoned st'" "set (concat ds) = {p \<in> set paths. map_of (pl_observations st) p \<noteq> None}"
      "logged c st' (rs @ map Consume ds)" "concat ds \<noteq> [] \<longrightarrow> pl_synced st' = pl_cursor st'"
      using ds by (auto simp: consume_post_def)
    have "map_of (pl_observations st') p = (if p \<in> set paths then None else map_of (pl_observations st) p)" for p
      using observed_consumed [of c rs ds p] d(2) logged_live(3) [OF d(3, 1)] logged_live(3) [OF rs assms(4)] by auto
    moreover have "st' = st" if "concat ds = []"
    proof (rule consume_nothing [OF _ assms(4)])
      show "\<forall>p \<in> set paths. map_of (pl_observations st) p = None" using d(2) that by simp
      show "log_consume c faults synced paths st = (Inr (), st')" using assms(6) Inr by simp
    qed
    ultimately show ?thesis using Inr d(4) by auto
  qed
qed

text \<open>
  A creation that stops inside the magic is not repaired: the file is neither empty nor a log,
  so that no later opening gives a handle or changes it.
\<close>

theorem interrupted_creation_stays_closed:
  assumes "0 < n" "n < length log_magic"
  shows "isl (fst (log_open c env (take n log_magic))) \<and> snd (log_open c env (take n log_magic)) = take n log_magic"
proof -
  have "check_magic (take n log_magic) = Inl (LogIo ''failed to fill whole buffer'')"
    using assms(2) by (simp add: check_magic_def ensure_def)
  then show ?thesis using assms
    by (auto simp: log_open_def bind_res_def ensure_def split: sum.split)
qed

section \<open>An instance\<close>

text \<open>
  A codec that writes the observation of an absent path as the path, and the paths of a
  tombstone with every byte marked and every path ended.
\<close>

definition ex_path :: "rstr \<Rightarrow> rstr" where
  "ex_path p = concat (map (\<lambda>b. [CHR ''x'', b]) p) @ ''.''"

fun ex_unpath :: "rstr \<Rightarrow> rstr \<Rightarrow> rstr list option" where
  "ex_unpath [] acc = (if acc = [] then Some [] else None)"
| "ex_unpath [b] acc = (if b = CHR ''.'' then Some [acc] else None)"
| "ex_unpath (a # b # s) acc =
     (if a = CHR ''.'' then map_option ((#) acc) (ex_unpath (b # s) []) else ex_unpath s (acc @ [b]))"

definition ex_codec :: preimage_codec where
  "ex_codec =
     \<lparr>pc_encode = (\<lambda>r. case r of
          Observe p \<Rightarrow> if pp_state p = FingerprintAbsent then Some (CHR ''O'' # pp_path p) else None
        | Consume ps \<Rightarrow> Some (CHR ''C'' # concat (map ex_path ps))
        | DirectoryBaseline _ \<Rightarrow> None),
      pc_decode = (\<lambda>s. case s of
          [] \<Rightarrow> None
        | k # s' \<Rightarrow>
            if k = CHR ''O'' then Some (Observe \<lparr>pp_path = s', pp_state = FingerprintAbsent\<rparr>)
            else map_option Consume (ex_unpath s' [])),
      pc_sha = (\<lambda>s. replicate 32 CHR ''s'')\<rparr>"

lemma ex_unpath_path: "ex_unpath (ex_path p @ rest) acc = map_option ((#) (acc @ p)) (ex_unpath rest [])"
proof (induction p arbitrary: acc)
  case Nil
  then show ?case by (cases rest) (simp_all add: ex_path_def)
qed (simp add: ex_path_def)

lemma ex_unpath_paths: "ex_unpath (concat (map ex_path ps)) [] = Some ps"
  by (induction ps) (simp_all add: ex_unpath_path)

lemma ex_path_length: "length (ex_path p) = 2 * length p + 1"
  by (induction p) (simp_all add: ex_path_def)

lemma ex_paths_length:
  "int (length (concat (map ex_path ps))) \<le> sum_list (map (\<lambda>p. 4 * int (length p) + 3) ps)"
  by (induction ps) (simp_all add: ex_path_length)

lemma ex_codec_laws: "codec_laws ex_codec"
proof -
  have "pc_encode ex_codec r = Some body \<longrightarrow> body \<noteq> [] \<and> pc_decode ex_codec body = Some r" for r body
    by (cases r) (auto simp: ex_codec_def ex_unpath_paths)
  moreover have "\<exists>body. pc_encode ex_codec (Consume ps) = Some body
      \<and> int (length body) \<le> 128 + sum_list (map (\<lambda>p. 4 * int (length p) + 3) ps)" for ps
    using ex_paths_length [of ps] by (simp add: ex_codec_def)
  ultimately show ?thesis by (simp add: codec_laws_def) (simp add: ex_codec_def)
qed

definition ex_log_env :: log_env where
  "ex_log_env = \<lparr>le_opened = True, le_unlocked = True, le_regular = True, le_magic_fault = None,
     le_truncated = True, le_tail_synced = True, le_synced = True, le_directory_synced = True\<rparr>"

definition ex_log :: preimage_log where
  "ex_log = replayed_state ex_codec []"

definition ex_observed :: preimage_log where
  "ex_observed = snd (publish_observation ex_codec None True ''a'' True FingerprintAbsent ex_log)"

definition ex_torn :: preimage_log where
  "ex_torn = snd (publish_observation ex_codec (Some 20) True ''b'' True FingerprintAbsent ex_observed)"

lemma ex_log_env_ok: "log_env_ok ex_log_env"
  by (simp add: log_env_ok_def ex_log_env_def)

lemma ex_log_init: "log_init ex_codec ex_log"
proof -
  have "log_open ex_codec ex_log_env [] = (Inr ex_log, log_magic)" by code_simp
  then show ?thesis by (auto simp: log_init_def)
qed

lemma ex_observed_eq:
  "publish_observation ex_codec None True ''a'' True FingerprintAbsent ex_log = (Inr (), ex_observed)"
  by code_simp

lemma ex_torn_eq:
  "publish_observation ex_codec (Some 20) True ''b'' True FingerprintAbsent ex_observed
     = (Inl (LogIo ''write failed''), ex_torn)"
  by code_simp

lemma ex_log_steps: "(log_step ex_codec)\<^sup>*\<^sup>* ex_log ex_observed" "(log_step ex_codec)\<^sup>*\<^sup>* ex_log ex_torn"
proof -
  have "log_step ex_codec ex_log ex_observed" "log_step ex_codec ex_observed ex_torn"
    by (rule log_step.workload, rule workload_step.publish, rule ex_observed_eq ex_torn_eq)+
  then show "(log_step ex_codec)\<^sup>*\<^sup>* ex_log ex_observed" "(log_step ex_codec)\<^sup>*\<^sup>* ex_log ex_torn" by auto
qed

theorem preimage_log_reopens_witness:
  "\<exists>re tail. log_open ex_codec ex_log_env (pl_file ex_torn) = (Inr re, pl_file re)
     \<and> pl_file ex_torn = pl_file re @ tail \<and> pl_synced re = pl_cursor re"
  using preimage_log_reopens [OF ex_codec_laws ex_log_init ex_log_steps(2) ex_log_env_ok] by blast

theorem durable_observation_survives_witness:
  "\<exists>re f ob. log_open ex_codec ex_log_env (take 65 (pl_file ex_observed)) = (Inr re, f)
     \<and> map_of (pl_observations re) ''a'' = Some ob \<and> pp_state (ob_preimage ob) = FingerprintAbsent"
proof -
  have "pl_synced ex_observed \<le> int 65" "map_of (pl_observations ex_log) ''a'' = None" by code_simp+
  then show ?thesis
    using durable_observation_survives [OF ex_codec_laws ex_log_init rtranclp.rtrancl_refl ex_observed_eq _ ex_log_env_ok]
    by blast
qed

definition ex_again :: preimage_log where
  "ex_again = snd (publish_observation ex_codec None True ''a'' True (FingerprintSymlink ''t'' 0 0 None) ex_observed)"

theorem first_observation_wins_witness:
  "map_of (pl_observations ex_again) ''a''
     = Some \<lparr>ob_preimage = \<lparr>pp_path = ''a'', pp_state = FingerprintAbsent\<rparr>, ob_end = 65\<rparr>"
proof (rule first_observation_wins [OF ex_codec_laws ex_log_init ex_log_steps(1)])
  show "map_of (pl_observations ex_observed) ''a''
     = Some \<lparr>ob_preimage = \<lparr>pp_path = ''a'', pp_state = FingerprintAbsent\<rparr>, ob_end = 65\<rparr>" by code_simp
  have "publish_observation ex_codec None True ''a'' True (FingerprintSymlink ''t'' 0 0 None) ex_observed
      = (Inr (), ex_again)" by code_simp
  then show "(workload_step ex_codec)\<^sup>*\<^sup>* ex_observed ex_again" by (auto intro: workload_step.publish)
  show "\<not> pl_poisoned ex_observed" "\<not> pl_poisoned ex_again" by code_simp+
qed

definition ex_consumed :: preimage_log where
  "ex_consumed = snd (log_consume ex_codec [] True [''a'', ''b''] ex_observed)"

theorem consume_contract_witness:
  "map_of (pl_observations ex_consumed) ''a'' = None \<and> pl_synced ex_consumed = pl_cursor ex_consumed"
proof -
  have "log_consume ex_codec [] True [''a'', ''b''] ex_observed = (Inr (), ex_consumed)" by code_simp
  moreover have "\<not> pl_poisoned ex_observed" "list_all (\<lambda>p. validate_path p = Inr ()) [''a'', ''b'']"
    "ex_consumed \<noteq> ex_observed" by code_simp+
  ultimately show ?thesis
    using consume_contract [OF ex_codec_laws ex_log_init ex_log_steps(1), of "[''a'', ''b'']" "[]" True "Inr ()" ex_consumed]
    by auto
qed

end
