(* ===== verification/Serial.thy ===== *)
theory Serial
  imports Bus
begin

text \<open>
  The 16550 serial port of the guest (\<open>crates/pvisor-vm/src/devices/legacy/serial_16550.rs\<close>), as
  built without the RISC-V interrupt controller.

  The registers are bytes. The output is the list of bytes its sink took, the interrupt event
  the number of times it was signalled, the input the number of its file descriptor. What the
  sink, the event and the descriptor answer is an argument of the operation that asks.
\<close>

unbundle bit_operations_syntax

section \<open>Registers\<close>

definition LOOP_SIZE :: nat where "LOOP_SIZE = 0x40"

definition DATA :: u8 where "DATA = 0"
definition IER :: u8 where "IER = 1"
definition IIR :: u8 where "IIR = 2"
definition LCR :: u8 where "LCR = 3"
definition MCR :: u8 where "MCR = 4"
definition LSR :: u8 where "LSR = 5"
definition MSR :: u8 where "MSR = 6"
definition SCR :: u8 where "SCR = 7"

definition DLAB_LOW :: u8 where "DLAB_LOW = 0"
definition DLAB_HIGH :: u8 where "DLAB_HIGH = 1"

definition IER_RECV_BIT :: u8 where "IER_RECV_BIT = 0x1"
definition IER_THR_BIT :: u8 where "IER_THR_BIT = 0x2"
definition IER_FIFO_BITS :: u8 where "IER_FIFO_BITS = 0x0f"

definition IIR_FIFO_BITS :: u8 where "IIR_FIFO_BITS = 0xc0"
definition IIR_NONE_BIT :: u8 where "IIR_NONE_BIT = 0x1"
definition IIR_THR_BIT :: u8 where "IIR_THR_BIT = 0x2"
definition IIR_RECV_BIT :: u8 where "IIR_RECV_BIT = 0x4"

definition LCR_DLAB_BIT :: u8 where "LCR_DLAB_BIT = 0x80"

definition LSR_DATA_BIT :: u8 where "LSR_DATA_BIT = 0x1"
definition LSR_EMPTY_BIT :: u8 where "LSR_EMPTY_BIT = 0x20"
definition LSR_IDLE_BIT :: u8 where "LSR_IDLE_BIT = 0x40"

definition MCR_LOOP_BIT :: u8 where "MCR_LOOP_BIT = 0x10"

definition DEFAULT_INTERRUPT_IDENTIFICATION :: u8 where "DEFAULT_INTERRUPT_IDENTIFICATION = IIR_NONE_BIT"
definition DEFAULT_LINE_STATUS :: u8 where "DEFAULT_LINE_STATUS = LSR_EMPTY_BIT OR LSR_IDLE_BIT"
definition DEFAULT_LINE_CONTROL :: u8 where "DEFAULT_LINE_CONTROL = 0x3"
definition DEFAULT_MODEM_CONTROL :: u8 where "DEFAULT_MODEM_CONTROL = 0x8"
definition DEFAULT_MODEM_STATUS :: u8 where "DEFAULT_MODEM_STATUS = 0x20 OR 0x10 OR 0x80"
definition DEFAULT_BAUD_DIVISOR :: u16 where "DEFAULT_BAUD_DIVISOR = 12"

lemmas offset_defs = DATA_def IER_def IIR_def LCR_def MCR_def LSR_def MSR_def SCR_def DLAB_LOW_def DLAB_HIGH_def

lemmas bit_defs = IER_RECV_BIT_def IER_THR_BIT_def IER_FIFO_BITS_def IIR_FIFO_BITS_def IIR_NONE_BIT_def
  IIR_THR_BIT_def IIR_RECV_BIT_def LCR_DLAB_BIT_def LSR_DATA_BIT_def LSR_EMPTY_BIT_def LSR_IDLE_BIT_def
  MCR_LOOP_BIT_def

lemmas default_defs = DEFAULT_INTERRUPT_IDENTIFICATION_def DEFAULT_LINE_STATUS_def DEFAULT_LINE_CONTROL_def
  DEFAULT_MODEM_CONTROL_def DEFAULT_MODEM_STATUS_def DEFAULT_BAUD_DIVISOR_def

record serial =
  interrupt_enable :: u8
  interrupt_identification :: u8
  interrupt_evt :: nat
  line_control :: u8
  line_status :: u8
  modem_control :: u8
  modem_status :: u8
  scratch :: u8
  baud_divisor :: u16
  in_buffer :: "u8 list"
  serial_out :: "u8 list option"
  serial_input :: "int option"

text \<open>The answers of the sink and of the interrupt event to one operation.\<close>

record serial_env =
  se_written :: bool
  se_flushed :: bool
  se_signalled :: bool

definition serial_new :: "u8 list option \<Rightarrow> int option \<Rightarrow> serial" where
  "serial_new out input =
     \<lparr>interrupt_enable = 0,
      interrupt_identification = DEFAULT_INTERRUPT_IDENTIFICATION,
      interrupt_evt = 0,
      line_control = DEFAULT_LINE_CONTROL,
      line_status = DEFAULT_LINE_STATUS,
      modem_control = DEFAULT_MODEM_CONTROL,
      modem_status = DEFAULT_MODEM_STATUS,
      scratch = 0,
      baud_divisor = DEFAULT_BAUD_DIVISOR,
      in_buffer = [],
      serial_out = out,
      serial_input = input\<rparr>"

definition new_in_out :: "int \<Rightarrow> u8 list \<Rightarrow> serial" where
  "new_in_out input out = serial_new (Some out) (Some input)"

definition new_out :: "u8 list \<Rightarrow> serial" where
  "new_out out = serial_new (Some out) None"

definition new_sink :: serial where
  "new_sink = serial_new None None"

definition is_dlab_set :: "serial \<Rightarrow> bool" where
  "is_dlab_set st \<longleftrightarrow> line_control st AND LCR_DLAB_BIT \<noteq> 0"

definition is_recv_intr_enabled :: "serial \<Rightarrow> bool" where
  "is_recv_intr_enabled st \<longleftrightarrow> interrupt_enable st AND IER_RECV_BIT \<noteq> 0"

definition is_thr_intr_enabled :: "serial \<Rightarrow> bool" where
  "is_thr_intr_enabled st \<longleftrightarrow> interrupt_enable st AND IER_THR_BIT \<noteq> 0"

definition is_loop :: "serial \<Rightarrow> bool" where
  "is_loop st \<longleftrightarrow> modem_control st AND MCR_LOOP_BIT \<noteq> 0"

section \<open>Operations\<close>

definition add_intr_bit :: "u8 \<Rightarrow> serial \<Rightarrow> serial" where
  "add_intr_bit b st =
     st\<lparr>interrupt_identification := (interrupt_identification st AND NOT IIR_NONE_BIT) OR b\<rparr>"

definition del_intr_bit :: "u8 \<Rightarrow> serial \<Rightarrow> serial" where
  "del_intr_bit b st =
     (let iid = interrupt_identification st AND NOT b
      in st\<lparr>interrupt_identification := (if iid = 0 then IIR_NONE_BIT else iid)\<rparr>)"

definition trigger_interrupt :: "serial_env \<Rightarrow> serial \<Rightarrow> (rstr + unit) \<times> serial" where
  "trigger_interrupt env st =
     (if se_signalled env then (Inr (), st\<lparr>interrupt_evt := interrupt_evt st + 1\<rparr>)
      else (Inl ''interrupt event'', st))"

definition thr_empty :: "serial_env \<Rightarrow> serial \<Rightarrow> (rstr + unit) \<times> serial" where
  "thr_empty env st =
     (if is_thr_intr_enabled st then trigger_interrupt env (add_intr_bit IIR_THR_BIT st) else (Inr (), st))"

definition recv_data :: "serial_env \<Rightarrow> serial \<Rightarrow> (rstr + unit) \<times> serial" where
  "recv_data env st =
     (case (if is_recv_intr_enabled st then trigger_interrupt env (add_intr_bit IIR_RECV_BIT st)
            else (Inr (), st)) of
        (Inl e, st) \<Rightarrow> (Inl e, st)
      | (Inr _, st) \<Rightarrow> (Inr (), st\<lparr>line_status := line_status st OR LSR_DATA_BIT\<rparr>))"

definition iir_reset :: "serial \<Rightarrow> serial" where
  "iir_reset st = st\<lparr>interrupt_identification := DEFAULT_INTERRUPT_IDENTIFICATION\<rparr>"

text \<open>\<open>write_all\<close> of one byte and \<open>flush\<close>.\<close>

definition put_byte :: "serial_env \<Rightarrow> u8 \<Rightarrow> serial \<Rightarrow> (rstr + unit) \<times> serial" where
  "put_byte env value st =
     (case serial_out st of
        None \<Rightarrow> (Inr (), st)
      | Some out \<Rightarrow>
          if \<not> se_written env then (Inl ''write'', st)
          else (if se_flushed env then Inr () else Inl ''flush'', st\<lparr>serial_out := Some (out @ [value])\<rparr>))"

definition handle_write :: "serial_env \<Rightarrow> u8 \<Rightarrow> u8 \<Rightarrow> serial \<Rightarrow> (rstr + unit) \<times> serial" where
  "handle_write env offset value st =
     (if offset = DLAB_LOW \<and> is_dlab_set st
      then (Inr (), st\<lparr>baud_divisor := (baud_divisor st AND 0xff00) OR ucast value\<rparr>)
      else if offset = DLAB_HIGH \<and> is_dlab_set st
      then (Inr (), st\<lparr>baud_divisor := (baud_divisor st AND 0x00ff) OR push_bit 8 (ucast value)\<rparr>)
      else if offset = DATA then
        (if is_loop st then
           (if length (in_buffer st) < LOOP_SIZE
            then recv_data env (st\<lparr>in_buffer := in_buffer st @ [value]\<rparr>)
            else (Inr (), st))
         else
           (case put_byte env value st of
              (Inl e, st) \<Rightarrow> (Inl e, st)
            | (Inr _, st) \<Rightarrow> thr_empty env st))
      else if offset = IER then (Inr (), st\<lparr>interrupt_enable := value AND IER_FIFO_BITS\<rparr>)
      else if offset = LCR then (Inr (), st\<lparr>line_control := value\<rparr>)
      else if offset = MCR then (Inr (), st\<lparr>modem_control := value\<rparr>)
      else if offset = SCR then (Inr (), st\<lparr>scratch := value\<rparr>)
      else (Inr (), st))"

text \<open>\<open>pop_front().unwrap_or_default()\<close> gives zero for an empty buffer.\<close>

definition handle_read :: "u8 \<Rightarrow> serial \<Rightarrow> u8 \<times> serial" where
  "handle_read offset st =
     (if offset = DLAB_LOW \<and> is_dlab_set st then (ucast (baud_divisor st), st)
      else if offset = DLAB_HIGH \<and> is_dlab_set st then (ucast (drop_bit 8 (baud_divisor st)), st)
      else if offset = DATA then
        (let st = del_intr_bit IIR_RECV_BIT st;
             st = (if length (in_buffer st) \<le> 1 then st\<lparr>line_status := line_status st AND NOT LSR_DATA_BIT\<rparr> else st)
         in (case in_buffer st of
               [] \<Rightarrow> (0, st)
             | b # rest \<Rightarrow> (b, st\<lparr>in_buffer := rest\<rparr>)))
      else if offset = IER then (interrupt_enable st, st)
      else if offset = IIR then (interrupt_identification st OR IIR_FIFO_BITS, iir_reset st)
      else if offset = LCR then (line_control st, st)
      else if offset = MCR then (modem_control st, st)
      else if offset = LSR then (line_status st, st)
      else if offset = MSR then (modem_status st, st)
      else if offset = SCR then (scratch st, st)
      else (0, st))"

definition raw_input :: "serial_env \<Rightarrow> u8 list \<Rightarrow> serial \<Rightarrow> (rstr + unit) \<times> serial" where
  "raw_input env data st =
     (if \<not> is_loop st then recv_data env (st\<lparr>in_buffer := in_buffer st @ data\<rparr>) else (Inr (), st))"

text \<open>The port as a device of the bus: \<open>offset as u8\<close> keeps the low byte.\<close>

definition serial_read :: "serial \<Rightarrow> u64 \<Rightarrow> u64 \<Rightarrow> u8 list \<Rightarrow> serial \<times> u8 list" where
  "serial_read st vcpuid offset data =
     (if length data \<noteq> 1 then (st, data)
      else (let (v, st) = handle_read (ucast offset) st in (st, [v])))"

definition serial_write :: "serial_env \<Rightarrow> serial \<Rightarrow> u64 \<Rightarrow> u64 \<Rightarrow> u8 list \<Rightarrow> serial" where
  "serial_write env st vcpuid offset data =
     (if length data \<noteq> 1 then st else snd (handle_write env (ucast offset) (hd data) st))"

text \<open>\<open>EventSet::IN\<close> and the readiness event: the answer to \<open>read\<close> of at most 32 bytes is an argument.\<close>

definition event_in :: u32 where "event_in = 1"

definition serial_process :: "serial_env \<Rightarrow> int \<Rightarrow> u32 \<Rightarrow> u8 list option \<Rightarrow> serial \<Rightarrow> serial" where
  "serial_process env source event_set bytes st =
     (if event_in AND event_set \<noteq> event_set then st
      else (case serial_input st of
              None \<Rightarrow> st
            | Some fd \<Rightarrow>
                if fd = source
                then (case bytes of
                        Some out \<Rightarrow> snd (raw_input env (take 32 out) st)
                      | None \<Rightarrow> st)
                else st))"

definition interest_list :: "serial \<Rightarrow> (u32 \<times> int) list" where
  "interest_list st = (case serial_input st of Some fd \<Rightarrow> [(event_in, fd)] | None \<Rightarrow> [])"

section \<open>Snapshots\<close>

record serial_snapshot =
  ss_interrupt_enable :: u8
  ss_interrupt_identification :: u8
  ss_line_control :: u8
  ss_line_status :: u8
  ss_modem_control :: u8
  ss_modem_status :: u8
  ss_scratch :: u8
  ss_baud_divisor :: u16
  ss_in_buffer :: "u8 list"

definition serial_capture :: "serial \<Rightarrow> rstr + serial_snapshot" where
  "serial_capture st =
     (if serial_input st \<noteq> None then Inl ''snapshot does not support external serial input''
      else Inr \<lparr>ss_interrupt_enable = interrupt_enable st,
                ss_interrupt_identification = interrupt_identification st,
                ss_line_control = line_control st,
                ss_line_status = line_status st,
                ss_modem_control = modem_control st,
                ss_modem_status = modem_status st,
                ss_scratch = scratch st,
                ss_baud_divisor = baud_divisor st,
                ss_in_buffer = in_buffer st\<rparr>)"

definition serial_restore :: "serial_snapshot \<Rightarrow> serial \<Rightarrow> (rstr + unit) \<times> serial" where
  "serial_restore state st =
     (if serial_input st \<noteq> None \<or> 65536 < int (length (ss_in_buffer state))
      then (Inl ''invalid serial snapshot'', st)
      else (Inr (), st\<lparr>interrupt_enable := ss_interrupt_enable state,
                       interrupt_identification := ss_interrupt_identification state,
                       line_control := ss_line_control state,
                       line_status := ss_line_status state,
                       modem_control := ss_modem_control state,
                       modem_status := ss_modem_status state,
                       scratch := ss_scratch state,
                       baud_divisor := ss_baud_divisor state,
                       in_buffer := ss_in_buffer state\<rparr>))"

section \<open>Operations on each register\<close>

lemmas reg_defs = trigger_interrupt_def thr_empty_def recv_data_def put_byte_def iir_reset_def Let_def
  add_intr_bit_def del_intr_bit_def

lemma in_buffer_recv_data [simp]: "in_buffer (snd (recv_data env st)) = in_buffer st"
  by (simp add: reg_defs)

lemma in_buffer_thr_empty [simp]: "in_buffer (snd (thr_empty env st)) = in_buffer st"
  by (simp add: reg_defs)

lemma in_buffer_put_byte [simp]: "in_buffer (snd (put_byte env value st)) = in_buffer st"
  by (simp add: reg_defs split: option.split)

lemma in_buffer_write:
  "in_buffer (snd (handle_write env offset value st)) =
     in_buffer st @ (if offset = DATA \<and> \<not> is_dlab_set st \<and> is_loop st \<and> length (in_buffer st) < LOOP_SIZE
                     then [value] else [])"
proof -
  have "in_buffer (snd (case put_byte env value st of (Inl e, st) \<Rightarrow> (Inl e, st) | (Inr _, st) \<Rightarrow> thr_empty env st))
      = in_buffer st"
    using in_buffer_put_byte [where env = env and st = st]
    by (auto simp: case_prod_beta split: sum.split)
  then show ?thesis by (auto simp: handle_write_def offset_defs)
qed

lemma in_buffer_read:
  "in_buffer (snd (handle_read offset st)) = (if offset = DATA \<and> \<not> is_dlab_set st then tl (in_buffer st) else in_buffer st)"
  by (auto simp: handle_read_def offset_defs reg_defs split: list.split)

lemma value_read:
  "offset = DATA \<Longrightarrow> \<not> is_dlab_set st \<Longrightarrow>
     fst (handle_read offset st) = (case in_buffer st of [] \<Rightarrow> 0 | b # _ \<Rightarrow> b)"
  by (auto simp: handle_read_def offset_defs reg_defs split: list.split)

lemma in_buffer_raw_input:
  "in_buffer (snd (raw_input env data st)) = in_buffer st @ (if is_loop st then [] else data)"
  by (simp add: raw_input_def)

lemma kept_recv_data [simp]:
  "serial_out (snd (recv_data env st)) = serial_out st"
  "serial_input (snd (recv_data env st)) = serial_input st"
  "line_control (snd (recv_data env st)) = line_control st"
  "modem_control (snd (recv_data env st)) = modem_control st"
  by (simp_all add: reg_defs)

lemma serial_input_write [simp]: "serial_input (snd (handle_write env offset value st)) = serial_input st"
  by (auto simp: handle_write_def reg_defs split: option.split)

lemma serial_input_read [simp]: "serial_input (snd (handle_read offset st)) = serial_input st"
  by (auto simp: handle_read_def reg_defs split: list.split)

lemma serial_input_raw_input [simp]: "serial_input (snd (raw_input env data st)) = serial_input st"
  by (simp add: raw_input_def)

lemma output_write:
  "serial_out (snd (handle_write env DATA value st)) =
     (if is_dlab_set st \<or> is_loop st \<or> \<not> se_written env then serial_out st
      else map_option (\<lambda>out. out @ [value]) (serial_out st))"
  "is_dlab_set (snd (handle_write env DATA value st)) = is_dlab_set st"
  "is_loop (snd (handle_write env DATA value st)) = is_loop st"
  by (auto simp: handle_write_def reg_defs offset_defs is_dlab_set_def is_loop_def split: option.split)

lemma mode_read:
  "is_dlab_set (snd (handle_read DATA st)) = is_dlab_set st"
  "baud_divisor (snd (handle_read DATA st)) = baud_divisor st"
  by (auto simp: handle_read_def reg_defs offset_defs is_dlab_set_def split: list.split)

section \<open>Histories\<close>

text \<open>What can happen to a port: a guest access, or the readiness of its input.\<close>

datatype serial_op =
    GuestRead u64 u64 "u8 list"
  | GuestWrite serial_env u64 u64 "u8 list"
  | InputReady serial_env int u32 "u8 list option"

fun serial_exec :: "serial_op \<Rightarrow> serial \<Rightarrow> serial \<times> u8 list" where
  "serial_exec (GuestRead vcpuid offset data) st = serial_read st vcpuid offset data"
| "serial_exec (GuestWrite env vcpuid offset data) st = (serial_write env st vcpuid offset data, [])"
| "serial_exec (InputReady env source event_set bytes) st = (serial_process env source event_set bytes st, [])"

fun serial_run :: "serial_op list \<Rightarrow> serial \<Rightarrow> serial" where
  "serial_run [] st = st"
| "serial_run (op # ops) st = serial_run ops (fst (serial_exec op st))"

text \<open>
  The queue of the port as the guest sees it: the bytes an operation puts at its end, and those
  it takes from its front.
\<close>

fun accepted :: "serial_op \<Rightarrow> serial \<Rightarrow> u8 list" where
  "accepted (GuestRead _ _ _) st = []"
| "accepted (GuestWrite env vcpuid offset data) st =
     (if length data = 1 \<and> (ucast offset :: u8) = DATA \<and> \<not> is_dlab_set st \<and> is_loop st
         \<and> length (in_buffer st) < LOOP_SIZE
      then data else [])"
| "accepted (InputReady env source event_set bytes) st =
     (if event_in AND event_set = event_set \<and> serial_input st = Some source \<and> \<not> is_loop st
      then (case bytes of Some b \<Rightarrow> take 32 b | None \<Rightarrow> []) else [])"

fun delivered :: "serial_op \<Rightarrow> serial \<Rightarrow> u8 list" where
  "delivered (GuestRead vcpuid offset data) st =
     (if length data = 1 \<and> (ucast offset :: u8) = DATA \<and> \<not> is_dlab_set st then take 1 (in_buffer st) else [])"
| "delivered _ st = []"

fun along :: "(serial_op \<Rightarrow> serial \<Rightarrow> u8 list) \<Rightarrow> serial_op list \<Rightarrow> serial \<Rightarrow> u8 list" where
  "along f [] st = []"
| "along f (op # ops) st = f op st @ along f ops (fst (serial_exec op st))"

lemma serial_exec_queue: "in_buffer st @ accepted op st = delivered op st @ in_buffer (fst (serial_exec op st))"
proof (cases op)
  case (GuestRead vcpuid offset data)
  have "in_buffer (snd (handle_read DATA st)) = (if is_dlab_set st then in_buffer st else tl (in_buffer st))"
    by (simp add: in_buffer_read)
  moreover have "take 1 xs @ tl xs = xs" for xs :: "u8 list" by (cases xs) simp_all
  ultimately show ?thesis using GuestRead
    by (auto simp: serial_read_def in_buffer_read split_beta)
next
  case (GuestWrite env vcpuid offset data)
  then show ?thesis
    by (cases data) (auto simp: serial_write_def in_buffer_write)
next
  case (InputReady env source event_set bytes)
  then show ?thesis
    by (auto simp: serial_process_def in_buffer_raw_input split: option.split)
qed

lemma serial_run_queue:
  "in_buffer st @ along accepted ops st = along delivered ops st @ in_buffer (serial_run ops st)"
proof (induction ops arbitrary: st)
  case (Cons op ops)
  then show ?case using serial_exec_queue [of st op]
    by (metis append.assoc along.simps(2) serial_run.simps(2))
qed simp

section \<open>Invariants\<close>

inductive serial_init :: "serial \<Rightarrow> bool" where
  "serial_init (serial_new out input)"

inductive serial_step :: "serial \<Rightarrow> serial \<Rightarrow> bool" where
  "serial_step st (fst (serial_exec op st))"

text \<open>Operations whose interrupt is delivered and whose input, when it is read, is not at its end.\<close>

fun quiet :: "serial_op \<Rightarrow> bool" where
  "quiet (GuestRead _ _ _) = True"
| "quiet (GuestWrite env _ _ _) = se_signalled env"
| "quiet (InputReady env _ _ bytes) = (se_signalled env \<and> bytes \<noteq> Some [])"

inductive quiet_step :: "serial \<Rightarrow> serial \<Rightarrow> bool" where
  "quiet op \<Longrightarrow> quiet_step st (fst (serial_exec op st))"

inductive_cases serial_initE: "serial_init st"
inductive_cases serial_stepE: "serial_step st st'"
inductive_cases quiet_stepE: "quiet_step st st'"

definition port_inv :: "serial \<Rightarrow> bool" where
  "port_inv st \<longleftrightarrow>
     interrupt_identification st \<in> {IIR_NONE_BIT, IIR_THR_BIT, IIR_RECV_BIT, IIR_THR_BIT OR IIR_RECV_BIT}
     \<and> line_status st \<in> {DEFAULT_LINE_STATUS, DEFAULT_LINE_STATUS OR LSR_DATA_BIT}
     \<and> modem_status st = DEFAULT_MODEM_STATUS
     \<and> interrupt_enable st AND IER_FIFO_BITS = interrupt_enable st
     \<and> (serial_input st = None \<longrightarrow> length (in_buffer st) \<le> LOOP_SIZE)"

definition ready_inv :: "serial \<Rightarrow> bool" where
  "ready_inv st \<longleftrightarrow>
     line_status st = (if in_buffer st = [] then DEFAULT_LINE_STATUS else DEFAULT_LINE_STATUS OR LSR_DATA_BIT)"

lemma port_inv_recv_data: "port_inv st \<Longrightarrow> port_inv (snd (recv_data env st))"
  by (auto simp: port_inv_def reg_defs bit_defs default_defs)

lemma port_inv_thr_empty: "port_inv st \<Longrightarrow> port_inv (snd (thr_empty env st))"
  by (auto simp: port_inv_def reg_defs bit_defs default_defs)

lemma port_inv_put_byte: "port_inv st \<Longrightarrow> port_inv (snd (put_byte env v st))"
  by (auto simp: port_inv_def put_byte_def split: option.split)

lemma port_inv_write: "port_inv st \<Longrightarrow> port_inv (snd (handle_write env offset v st))"
proof -
  assume inv: "port_inv st"
  have "port_inv (snd (case put_byte env v st of (Inl e, st) \<Rightarrow> (Inl e, st) | (Inr _, st) \<Rightarrow> thr_empty env st))"
    using port_inv_put_byte [OF inv, of env v] port_inv_thr_empty
    by (auto simp: case_prod_beta split: sum.split)
  moreover have "port_inv (snd (recv_data env (st\<lparr>in_buffer := in_buffer st @ [v]\<rparr>)))"
    if "length (in_buffer st) < LOOP_SIZE"
    using inv that by (intro port_inv_recv_data) (simp add: port_inv_def)
  ultimately show ?thesis using inv
    by (simp add: handle_write_def) (simp add: port_inv_def and.assoc)
qed

lemma port_inv_del_intr_bit: "port_inv st \<Longrightarrow> port_inv (del_intr_bit IIR_RECV_BIT st)"
  by (auto simp: port_inv_def del_intr_bit_def bit_defs)

lemma port_inv_iir_reset: "port_inv st \<Longrightarrow> port_inv (iir_reset st)"
  by (simp add: port_inv_def iir_reset_def default_defs)

lemma port_inv_clear_data: "port_inv st \<Longrightarrow> port_inv (st\<lparr>line_status := line_status st AND NOT LSR_DATA_BIT\<rparr>)"
  by (auto simp: port_inv_def bit_defs default_defs)

lemma port_inv_shorten: "port_inv st \<Longrightarrow> in_buffer st = b # rest \<Longrightarrow> port_inv (st\<lparr>in_buffer := rest\<rparr>)"
  by (auto simp: port_inv_def)

lemma port_inv_pop:
  "port_inv st \<Longrightarrow> port_inv (snd (case in_buffer st of [] \<Rightarrow> (0, st) | b # rest \<Rightarrow> (b, st\<lparr>in_buffer := rest\<rparr>)))"
  by (auto intro: port_inv_shorten split: list.split)

lemma port_inv_read: "port_inv st \<Longrightarrow> port_inv (snd (handle_read offset st))"
  unfolding handle_read_def Let_def
  by (auto simp only: snd_conv if_cancel split: if_split
      intro!: port_inv_pop port_inv_clear_data port_inv_del_intr_bit port_inv_iir_reset)

lemma port_inv_exec: "port_inv st \<Longrightarrow> port_inv (fst (serial_exec op st))"
proof (cases op)
  case (InputReady env source event_set bytes)
  assume inv: "port_inv st"
  then have "port_inv (snd (raw_input env bs st))" if "serial_input st \<noteq> None" for bs
    using that unfolding raw_input_def by (auto intro!: port_inv_recv_data) (simp add: port_inv_def)
  then show ?thesis using InputReady inv by (auto simp: serial_process_def split: option.split)
qed (auto simp: serial_read_def serial_write_def case_prod_beta intro: port_inv_read port_inv_write)

interpretation uart: state_machine serial_init serial_step port_inv
proof
  show "port_inv s" if "serial_init s" for s
    using that by (auto simp: serial_new_def port_inv_def bit_defs default_defs elim!: serial_initE)
qed (auto elim: serial_stepE intro: port_inv_exec)

lemma ready_inv_recv_data:
  "se_signalled env \<Longrightarrow> in_buffer st \<noteq> [] \<Longrightarrow> port_inv st \<Longrightarrow> ready_inv (snd (recv_data env st))"
  by (auto simp: ready_inv_def port_inv_def reg_defs bit_defs default_defs)

lemma line_status_write:
  assumes "\<not> (offset = DATA \<and> \<not> is_dlab_set st \<and> is_loop st)"
  shows "line_status (snd (handle_write env offset v st)) = line_status st"
  using assms by (auto simp: handle_write_def reg_defs offset_defs split: option.split)

lemma ready_inv_write:
  assumes "se_signalled env" "port_inv st" "ready_inv st"
  shows "ready_inv (snd (handle_write env offset v st))"
proof (cases "offset = DATA \<and> \<not> is_dlab_set st \<and> is_loop st")
  case True
  have "ready_inv (snd (recv_data env (st\<lparr>in_buffer := in_buffer st @ [v]\<rparr>)))"
    if "length (in_buffer st) < LOOP_SIZE"
    using assms that by (intro ready_inv_recv_data) (simp_all add: port_inv_def)
  then show ?thesis using True assms(3) by (auto simp: handle_write_def offset_defs)
next
  case False
  then have "\<not> (offset = DATA \<and> \<not> is_dlab_set st \<and> is_loop st \<and> length (in_buffer st) < LOOP_SIZE)" by blast
  then have "in_buffer (snd (handle_write env offset v st)) = in_buffer st" unfolding in_buffer_write if_not_P by simp
  then show ?thesis using line_status_write [OF False] assms(3) by (simp add: ready_inv_def)
qed

lemma line_status_read:
  "line_status (snd (handle_read offset st)) =
     (if offset = DATA \<and> \<not> is_dlab_set st \<and> length (in_buffer st) \<le> 1
      then line_status st AND NOT LSR_DATA_BIT else line_status st)"
  by (auto simp: handle_read_def offset_defs reg_defs split: list.split)

lemma data_bit_cleared:
  "DEFAULT_LINE_STATUS AND NOT LSR_DATA_BIT = DEFAULT_LINE_STATUS"
  "(DEFAULT_LINE_STATUS OR LSR_DATA_BIT) AND NOT LSR_DATA_BIT = DEFAULT_LINE_STATUS"
  by (simp_all add: default_defs bit_defs)

lemma ready_inv_read: "ready_inv st \<Longrightarrow> ready_inv (snd (handle_read offset st))"
  unfolding ready_inv_def line_status_read in_buffer_read
  by (cases "in_buffer st" rule: remdups_adj.cases) (auto simp: data_bit_cleared)

lemma ready_inv_exec:
  assumes "quiet op" "port_inv st" "ready_inv st"
  shows "ready_inv (fst (serial_exec op st))"
proof (cases op)
  case (InputReady env source event_set bytes)
  have "ready_inv (snd (raw_input env (take 32 bs) st))" if "se_signalled env" "bs \<noteq> []" "serial_input st \<noteq> None" for bs
    using assms that unfolding raw_input_def
    by (auto intro!: ready_inv_recv_data) (simp add: port_inv_def)
  then show ?thesis using InputReady assms by (auto simp: serial_process_def split: option.split)
qed (use assms in \<open>auto simp: serial_read_def serial_write_def case_prod_beta intro: ready_inv_read ready_inv_write\<close>)

interpretation quiet_uart: state_machine serial_init quiet_step "\<lambda>st. port_inv st \<and> ready_inv st"
proof
  show "port_inv s \<and> ready_inv s" if "serial_init s" for s
    using that uart.inv_reachable [OF that rtranclp.rtrancl_refl]
    by (auto simp: serial_new_def ready_inv_def elim!: serial_initE)
qed (auto elim!: quiet_stepE intro: port_inv_exec ready_inv_exec)

section \<open>The port on the bus\<close>

text \<open>
  Devices of a board: the serial port or any other one. Guest code prints by writing one byte
  after another to the first address of the port, and reads the same way.
\<close>

definition board_write ::
  "serial_env \<Rightarrow> ('o \<Rightarrow> u64 \<Rightarrow> u64 \<Rightarrow> u8 list \<Rightarrow> 'o) \<Rightarrow> serial + 'o \<Rightarrow> u64 \<Rightarrow> u64 \<Rightarrow> u8 list \<Rightarrow> serial + 'o" where
  "board_write env other d vcpuid offset data =
     (case d of Inl port \<Rightarrow> Inl (serial_write env port vcpuid offset data)
              | Inr d \<Rightarrow> Inr (other d vcpuid offset data))"

definition board_read ::
  "('o \<Rightarrow> u64 \<Rightarrow> u64 \<Rightarrow> u8 list \<Rightarrow> 'o \<times> u8 list) \<Rightarrow> serial + 'o \<Rightarrow> u64 \<Rightarrow> u64 \<Rightarrow> u8 list \<Rightarrow> (serial + 'o) \<times> u8 list" where
  "board_read other d vcpuid offset data =
     (case d of Inl port \<Rightarrow> map_prod Inl id (serial_read port vcpuid offset data)
              | Inr d \<Rightarrow> map_prod Inr id (other d vcpuid offset data))"

fun guest_print where
  "guest_print env other vcpuid base devices [] store = store"
| "guest_print env other vcpuid base devices (b # bs) store =
     guest_print env other vcpuid base devices bs
       (snd (bus_write (board_write env other) vcpuid base [b] devices store))"

fun guest_input where
  "guest_input other vcpuid base devices 0 store = ([], store)"
| "guest_input other vcpuid base devices (Suc n) store =
     (let (_, store, data) = bus_read (board_read other) vcpuid base [0] devices store;
          (more, store) = guest_input other vcpuid base devices n store
      in (data @ more, store))"

lemma guest_print_effect:
  assumes "get_device base devices = Some (0, dev)" "store dev = Inl port"
  shows "\<exists>port'. guest_print env other vcpuid base devices bs store = store(dev := Inl port')
    \<and> serial_out port' = (if is_dlab_set port \<or> is_loop port \<or> \<not> se_written env then serial_out port
                          else map_option (\<lambda>out. out @ bs) (serial_out port))
    \<and> in_buffer port' = in_buffer port @ (if is_dlab_set port \<or> \<not> is_loop port then []
                                          else take (LOOP_SIZE - length (in_buffer port)) bs)"
  using assms(2)
proof (induction bs arbitrary: store port)
  case Nil
  then show ?case by (intro exI [of _ port]) (simp add: fun_upd_idem option.map_ident)
next
  case (Cons b bs)
  let ?port = "snd (handle_write env DATA b port)"
  have step: "snd (bus_write (board_write env other) vcpuid base [b] devices store) = store(dev := Inl ?port)"
    using assms(1) Cons.prems by (simp add: bus_write_def board_write_def serial_write_def DATA_def)
  obtain port' where
    run: "guest_print env other vcpuid base devices bs (store(dev := Inl ?port)) = store(dev := Inl ?port, dev := Inl port')"
    and out: "serial_out port' = (if is_dlab_set ?port \<or> is_loop ?port \<or> \<not> se_written env then serial_out ?port
                          else map_option (\<lambda>out. out @ bs) (serial_out ?port))"
    and buf: "in_buffer port' = in_buffer ?port @ (if is_dlab_set ?port \<or> \<not> is_loop ?port then []
                                          else take (LOOP_SIZE - length (in_buffer ?port)) bs)"
    using Cons.IH [of "store(dev := Inl ?port)", OF fun_upd_same] by (elim exE conjE)
  have "serial_out port' = (if is_dlab_set port \<or> is_loop port \<or> \<not> se_written env then serial_out port
                          else map_option (\<lambda>out. out @ b # bs) (serial_out port))"
    using out unfolding output_write by (cases "serial_out port") auto
  moreover have "in_buffer port' = in_buffer port @ (if is_dlab_set port \<or> \<not> is_loop port then []
                                          else take (LOOP_SIZE - length (in_buffer port)) (b # bs))"
    using buf unfolding output_write in_buffer_write by (auto simp: take_Cons' diff_diff_left)
  ultimately show ?case using step run by (intro exI [of _ port']) (simp only: guest_print.simps fun_upd_upd)
qed

lemma guest_input_effect:
  assumes "get_device base devices = Some (0, dev)" "store dev = Inl port"
  shows "\<exists>port'. guest_input other vcpuid base devices n store =
        (if is_dlab_set port then replicate n (ucast (baud_divisor port))
         else take n (in_buffer port @ replicate n 0), store(dev := Inl port'))
    \<and> in_buffer port' = (if is_dlab_set port then in_buffer port else drop n (in_buffer port))"
  using assms(2)
proof (induction n arbitrary: store port)
  case 0
  then show ?case by (intro exI [of _ port]) (simp add: fun_upd_idem)
next
  case (Suc n)
  let ?port = "snd (handle_read DATA port)" and ?b = "fst (handle_read DATA port)"
  have b: "?b = (if is_dlab_set port then ucast (baud_divisor port) else case in_buffer port of [] \<Rightarrow> 0 | b # _ \<Rightarrow> b)"
    using value_read [of DATA port] by (auto simp: handle_read_def offset_defs)
  have step: "bus_read (board_read other) vcpuid base [0] devices store = (True, store(dev := Inl ?port), [?b])"
    using assms(1) Suc.prems by (simp add: bus_read_def board_read_def serial_read_def split_beta DATA_def)
  obtain port' where
    run: "guest_input other vcpuid base devices n (store(dev := Inl ?port)) =
        (if is_dlab_set ?port then replicate n (ucast (baud_divisor ?port))
         else take n (in_buffer ?port @ replicate n 0), store(dev := Inl ?port, dev := Inl port'))"
    and buf: "in_buffer port' = (if is_dlab_set ?port then in_buffer ?port else drop n (in_buffer ?port))"
    using Suc.IH [of "store(dev := Inl ?port)", OF fun_upd_same] by (elim exE conjE)
  have "take (Suc n) (in_buffer port @ replicate (Suc n) 0) =
      (case in_buffer port of [] \<Rightarrow> 0 | b # _ \<Rightarrow> b) # take n (tl (in_buffer port) @ replicate n 0)"
    by (cases "in_buffer port") (simp_all add: min_def flip: replicate_Suc)
  then show ?case using step run buf b in_buffer_read [of DATA port]
    by (intro exI [of _ port']) (cases "is_dlab_set port"; simp add: mode_read drop_Suc fun_eq_iff)
qed

section \<open>Properties\<close>

text \<open>
  C27. The receive side of the port is a queue. Over any sequence of guest accesses and input
  events, whatever fails, the bytes the guest has taken followed by those still buffered are
  exactly the bytes that were accepted, in their order: none is lost, duplicated or reordered.
  A read of the data register returns the byte it takes, and zero when there is none.
\<close>

theorem serial_receives_in_order:
  "along delivered ops (serial_new out input) @ in_buffer (serial_run ops (serial_new out input))
     = along accepted ops (serial_new out input)
   \<and> (\<forall>st vcpuid offset x. snd (serial_exec (GuestRead vcpuid offset [x]) st) =
        (if (ucast offset :: u8) = DATA \<and> \<not> is_dlab_set st
         then (case delivered (GuestRead vcpuid offset [x]) st of [] \<Rightarrow> [0] | bs \<Rightarrow> bs)
         else [fst (handle_read (ucast offset) st)]))"
proof -
  have "in_buffer (serial_new out input) = []" by (simp add: serial_new_def)
  then show ?thesis using serial_run_queue [of "serial_new out input" ops] value_read
    by (auto simp: serial_read_def split_beta split: list.split)
qed

text \<open>
  The status registers tell the truth. As long as interrupts can be signalled and the input
  has not reached its end, the data-ready bit of the line status is set exactly when a byte is
  buffered, the transmitter is always reported empty and idle, and the identification register
  shows either no pending interrupt or a combination of the two the port raises.
\<close>

theorem serial_status_truthful:
  assumes "serial_init st0" "quiet_step\<^sup>*\<^sup>* st0 st"
  shows "(fst (handle_read LSR st) AND LSR_DATA_BIT \<noteq> 0 \<longleftrightarrow> in_buffer st \<noteq> [])
    \<and> fst (handle_read LSR st) AND (LSR_EMPTY_BIT OR LSR_IDLE_BIT) = LSR_EMPTY_BIT OR LSR_IDLE_BIT
    \<and> fst (handle_read IIR st) AND NOT IIR_FIFO_BITS
        \<in> {IIR_NONE_BIT, IIR_THR_BIT, IIR_RECV_BIT, IIR_THR_BIT OR IIR_RECV_BIT}"
proof -
  have inv: "port_inv st" "ready_inv st" using quiet_uart.inv_reachable [OF assms] by simp_all
  have "fst (handle_read LSR st) = line_status st"
    "fst (handle_read IIR st) = interrupt_identification st OR IIR_FIFO_BITS"
    by (simp_all add: handle_read_def offset_defs)
  moreover have "(interrupt_identification st OR IIR_FIFO_BITS) AND NOT IIR_FIFO_BITS
      \<in> {IIR_NONE_BIT, IIR_THR_BIT, IIR_RECV_BIT, IIR_THR_BIT OR IIR_RECV_BIT}"
    using inv(1) by (auto simp: port_inv_def bit_defs)
  ultimately show ?thesis using inv(2) by (simp add: ready_inv_def default_defs bit_defs)
qed

theorem serial_status_truthful_witness:
  "fst (handle_read LSR (fst (serial_exec (InputReady \<lparr>se_written = True, se_flushed = True, se_signalled = True\<rparr>
      3 event_in (Some [65, 66])) (new_in_out 3 [])))) AND LSR_DATA_BIT \<noteq> 0"
proof -
  let ?op = "InputReady \<lparr>se_written = True, se_flushed = True, se_signalled = True\<rparr> 3 event_in (Some [65, 66])"
  let ?st = "fst (serial_exec ?op (new_in_out 3 []))"
  have "quiet_step (new_in_out 3 []) ?st" by (rule quiet_step.intros) simp
  then have "(fst (handle_read LSR ?st) AND LSR_DATA_BIT \<noteq> 0) = (in_buffer ?st \<noteq> [])"
    using serial_status_truthful [of "new_in_out 3 []" ?st] serial_init.intros [of "Some []" "Some 3"]
    by (simp add: new_in_out_def r_into_rtranclp)
  moreover have "in_buffer ?st = [65, 66]"
    by (simp add: serial_process_def in_buffer_raw_input new_in_out_def serial_new_def is_loop_def
        default_defs bit_defs event_in_def)
  ultimately show ?thesis by simp
qed

text \<open>
  C12. The console works through the bus, in every mode of the port. On any bus that holds the
  port, bytes the guest writes one by one to its base address reach the sink in order, when the
  divisor latch is closed, loop-back is off and the sink takes them. In loop-back they are
  queued for the guest instead, up to the bound of the queue; with the divisor latch open, or a
  sink that fails, they go nowhere. Bytes the guest reads there are those buffered, in order, and zeros when
  they run out; with the latch open they are the low divisor byte and the buffer is kept. No other
  device is touched.
\<close>

theorem serial_console_over_bus:
  assumes "bus_step\<^sup>*\<^sup>* bus_new devices" "(base, len, dev) \<in> set (mapped_devices devices)"
    and "store dev = Inl port"
  shows "(\<exists>port'. guest_print env owrite vcpuid base devices bs store = store(dev := Inl port')
      \<and> serial_out port' = (if is_dlab_set port \<or> is_loop port \<or> \<not> se_written env then serial_out port
                            else map_option (\<lambda>out. out @ bs) (serial_out port))
      \<and> in_buffer port' = in_buffer port @ (if is_dlab_set port \<or> \<not> is_loop port then []
                                            else take (LOOP_SIZE - length (in_buffer port)) bs))
    \<and> (\<exists>port'. guest_input oread vcpuid base devices n store =
          (if is_dlab_set port then replicate n (ucast (baud_divisor port))
           else take n (in_buffer port @ replicate n 0), store(dev := Inl port'))
      \<and> in_buffer port' = (if is_dlab_set port then in_buffer port else drop n (in_buffer port)))"
proof -
  have "get_device base devices = Some (0, dev)"
    using routing.inv_reachable [OF refl assms(1)] assms(2)
    by (auto simp: mapped_devices_def any_bus_inv_def intro: base_routed)
  then show ?thesis using guest_print_effect guest_input_effect assms(3) by (intro conjI)
qed

text \<open>A port with two bytes buffered: the guest prints two bytes and reads three.\<close>

theorem serial_console_over_bus_witness:
  "(\<exists>port'. serial_out port' = Some [72, 105] \<and>
     guest_print \<lparr>se_written = True, se_flushed = True, se_signalled = True\<rparr> (\<lambda>d _ _ _. d) 0 16
       (snd (bus_insert 7 16 8 bus_new)) [72, 105] (\<lambda>d. if d = 7 then Inl ((new_out [])\<lparr>in_buffer := [65, 66]\<rparr>) else Inr ())
     = (\<lambda>d. if d = 7 then Inl port' else Inr ()))
   \<and> fst (guest_input (\<lambda>d _ _ data. (d, data)) 0 16 (snd (bus_insert 7 16 8 bus_new)) 3
       (\<lambda>d. if d = 7 then Inl ((new_out [])\<lparr>in_buffer := [65, 66]\<rparr>) else Inr ())) = [65, 66, 0]"
proof -
  let ?bus = "snd (bus_insert 7 16 8 bus_new)"
  let ?port = "(new_out [])\<lparr>in_buffer := [65, 66]\<rparr>"
  let ?store = "\<lambda>d :: nat. if d = 7 then Inl ?port else Inr ()"
  let ?env = "\<lparr>se_written = True, se_flushed = True, se_signalled = True\<rparr>"
  have reach: "bus_step\<^sup>*\<^sup>* bus_new ?bus" by (intro r_into_rtranclp bus_step.insert)
  have bus: "(16, 8, 7) \<in> set (mapped_devices ?bus)"
    by (simp add: bus_insert_def bus_new_def get_device_def first_before_def mapped_devices_def)
  have port: "?store 7 = Inl ?port" by simp
  have mode: "\<not> is_dlab_set ?port" "\<not> is_loop ?port" "serial_out ?port = Some []" "in_buffer ?port = [65, 66]"
    by (simp_all add: new_out_def serial_new_def is_dlab_set_def is_loop_def default_defs bit_defs)
  note t = serial_console_over_bus [where store = ?store and owrite = "\<lambda>d _ _ _. d" and vcpuid = 0 and bs = "[72, 105]"
      and env = ?env and oread = "\<lambda>d _ _ data. (d, data)" and n = 3, OF reach bus port, simplified mode]
  from conjunct1 [OF t] obtain port' where
    p: "guest_print ?env (\<lambda>d _ _ _. d) 0 16 ?bus [72, 105] ?store = ?store(7 := Inl port')"
    "serial_out port' = Some [72, 105]" by auto
  have "?store(7 := Inl port') = (\<lambda>d. if d = 7 then Inl port' else Inr ())" by (rule ext) simp
  moreover from conjunct2 [OF t] have "fst (guest_input (\<lambda>d _ _ data. (d, data)) 0 16 ?bus 3 ?store) = [65, 66, 0]"
    by (auto simp: numeral_3_eq_3)
  ultimately show ?thesis using p by auto
qed

text \<open>
  A port without external input can always be snapshotted, and its snapshot always restores:
  after any history the capture succeeds, and restoring it into a new port gives every register
  and the buffered bytes back. Its buffer never exceeds the size of the loop-back queue.
\<close>

theorem serial_snapshot_restores:
  assumes "serial_step\<^sup>*\<^sup>* (serial_new out None) st"
  shows "\<exists>snap. serial_capture st = Inr snap
    \<and> serial_restore snap (serial_new out' None) =
        (Inr (), st\<lparr>interrupt_evt := 0, serial_out := out', serial_input := None\<rparr>)
    \<and> length (in_buffer st) \<le> LOOP_SIZE"
proof -
  have input: "serial_input (fst (serial_exec op s)) = serial_input s" for op s
    by (cases op) (auto simp: serial_read_def serial_write_def serial_process_def case_prod_beta split: option.split)
  have "serial_input st = None" using assms
    by (induction rule: rtranclp_induct) (auto simp: serial_new_def input elim: serial_stepE)
  moreover from this have "length (in_buffer st) \<le> LOOP_SIZE"
    using uart.inv_reachable [OF serial_init.intros assms] by (simp add: port_inv_def)
  ultimately show ?thesis by (simp add: serial_capture_def serial_restore_def LOOP_SIZE_def serial_new_def)
qed

theorem serial_snapshot_restores_witness:
  "\<exists>snap. serial_capture (serial_write \<lparr>se_written = True, se_flushed = True, se_signalled = True\<rparr>
       new_sink 0 7 [18]) = Inr snap
     \<and> scratch (snd (serial_restore snap new_sink)) = 18"
proof -
  let ?env = "\<lparr>se_written = True, se_flushed = True, se_signalled = True\<rparr>"
  let ?st = "serial_write ?env new_sink 0 7 [18]"
  have "serial_step (serial_new None None) (fst (serial_exec (GuestWrite ?env 0 7 [18]) (serial_new None None)))"
    by (rule serial_step.intros)
  then have "serial_step\<^sup>*\<^sup>* (serial_new None None) ?st" by (simp add: new_sink_def r_into_rtranclp)
  from serial_snapshot_restores [OF this, of None] obtain snap where
    "serial_capture ?st = Inr snap" "serial_restore snap (serial_new None None) =
       (Inr (), ?st\<lparr>interrupt_evt := 0, serial_out := None, serial_input := None\<rparr>)" by (elim exE conjE)
  moreover have "scratch ?st = 18" by (simp add: serial_write_def handle_write_def offset_defs)
  ultimately show ?thesis by (intro exI [of _ snap]) (simp add: new_sink_def)
qed

text \<open>
  An input at its end is taken for data: the data-ready bit is set while nothing is buffered,
  and the guest then reads a zero byte that no one sent.
\<close>

theorem end_of_input_is_ready:
  assumes "se_signalled env" "serial_input st = Some fd" "\<not> is_loop st"
  shows "line_status (serial_process env fd event_in (Some []) st) AND LSR_DATA_BIT \<noteq> 0
    \<and> in_buffer (serial_process env fd event_in (Some []) st) = in_buffer st"
  using assms by (auto simp: serial_process_def raw_input_def reg_defs bit_defs)

end
