(* ===== verification/Replay.thy ===== *)
theory Replay
  imports Journal
begin

text \<open>
  The safety of replaying tool calls (\<open>crates/pvisor-replay\<close>): the receipts of started and finished
  tools in a trace journal (\<open>journal.rs\<close>), the loop that executes the calls of a plan between its
  receipts (\<open>adapter/generic.rs\<close>), the report of a failed run (\<open>engine.rs\<close>) and the categories of
  errors (\<open>error.rs\<close>).

  JSON values are those of \<open>serde_json\<close>: the parameter \<open>replay_json\<close> of the operations that are
  used, with \<open>replay_laws\<close> stating what the crate documents of them. What the operating system
  answers to the locking of a state directory, to the appends and to a tool are arguments. The
  \<open>Debug\<close> rendering of a string in a message is an argument, too.
\<close>

section \<open>Errors\<close>

datatype replay_error_kind =
    Configuration | Trajectory | UnsupportedAgent | UnsupportedVersion | Workspace | Executor
  | AmbiguousExecution | Continuation | ModelRateLimit | ModelInternal | ModelConnection | Internal

fun category :: "replay_error_kind \<Rightarrow> rstr" where
  "category Configuration = ''configuration_error''"
| "category Trajectory = ''trajectory_error''"
| "category UnsupportedAgent = ''unsupported_agent''"
| "category UnsupportedVersion = ''unsupported_version''"
| "category Workspace = ''workspace_error''"
| "category Executor = ''executor_error''"
| "category AmbiguousExecution = ''ambiguous_execution''"
| "category Continuation = ''continuation_error''"
| "category ModelRateLimit = ''model_rate_limit''"
| "category ModelInternal = ''model_internal_error''"
| "category ModelConnection = ''model_connection_error''"
| "category Internal = ''internal_error''"

fun exit_code :: "replay_error_kind \<Rightarrow> int" where
  "exit_code Configuration = 2"
| "exit_code Trajectory = 10"
| "exit_code UnsupportedAgent = 11"
| "exit_code UnsupportedVersion = 11"
| "exit_code Workspace = 20"
| "exit_code Executor = 30"
| "exit_code AmbiguousExecution = 31"
| "exit_code Continuation = 40"
| "exit_code ModelRateLimit = 40"
| "exit_code ModelInternal = 40"
| "exit_code ModelConnection = 40"
| "exit_code Internal = 50"

fun retryable :: "replay_error_kind \<Rightarrow> bool" where
  "retryable ModelRateLimit = True"
| "retryable ModelInternal = True"
| "retryable ModelConnection = True"
| "retryable _ = False"

record replay_error =
  err_kind :: replay_error_kind
  err_message :: rstr

definition replay_err :: "replay_error_kind \<Rightarrow> rstr \<Rightarrow> replay_error" where
  "replay_err kind message = \<lparr>err_kind = kind, err_message = message\<rparr>"

definition classify_continuation :: "rstr \<Rightarrow> rstr \<Rightarrow> replay_error" where
  "classify_continuation message out =
     (let lowered = to_ascii_lowercase out;
          has = list_ex (contains_str lowered);
          kind = (if has [''rate limit'', ''too many requests'', ''status 429''] then ModelRateLimit
                  else if has [''internal server error'', ''status 500'', ''status 502'', ''status 503'']
                  then ModelInternal
                  else if has [''connection refused'', ''connection reset'', ''connection timed out'',
                               ''could not resolve host'', ''connecterror'']
                  then ModelConnection
                  else Continuation)
      in replay_err kind message)"

text \<open>\<open>replay_context\<close>: an error of another kind, with its text after the context.\<close>

definition replay_context :: "replay_error_kind \<Rightarrow> rstr \<Rightarrow> rstr + 'a \<Rightarrow> replay_error + 'a" where
  "replay_context kind message r =
     (case r of Inl e \<Rightarrow> Inl (replay_err kind (message @ '': '' @ e)) | Inr x \<Rightarrow> Inr x)"

section \<open>JSON values\<close>

text \<open>
  \<open>js_set\<close> is \<open>value[key] = x\<close>, which panics on a value that is neither an object nor null:
  \<open>None\<close>. \<open>js_str\<close> is \<open>value[key].as_str()\<close>.
\<close>

record 'j replay_json =
  js_object :: "(rstr \<times> 'j) list \<Rightarrow> 'j"
  js_string :: "rstr \<Rightarrow> 'j"
  js_of_bool :: "bool \<Rightarrow> 'j"
  js_of_code :: "int option \<Rightarrow> 'j"
  js_of_nat :: "nat \<Rightarrow> 'j"
  js_set :: "'j \<Rightarrow> rstr \<Rightarrow> 'j \<Rightarrow> 'j option"
  js_str :: "'j \<Rightarrow> rstr \<Rightarrow> rstr option"
  js_parse :: "rstr \<Rightarrow> 'j option"

definition replay_laws :: "'j replay_json \<Rightarrow> bool" where
  "replay_laws js \<longleftrightarrow>
     (\<forall>members key s. map_of (rev members) key = Some (js_string js s) \<longrightarrow>
        js_str js (js_object js members) key = Some s)
     \<and> (\<forall>members key v. js_set js (js_object js members) key v \<noteq> None)
     \<and> (\<forall>v key s w key'. js_set js v key (js_string js s) = Some w \<longrightarrow>
          js_str js w key' = (if key' = key then Some s else js_str js v key'))"

section \<open>Receipts\<close>

datatype replay_stop = Failed replay_error | Panicked rstr

fun ambiguous_step :: "'j replay_json \<Rightarrow> 'j \<Rightarrow> rstr list \<times> rstr list \<Rightarrow> rstr list \<times> rstr list" where
  "ambiguous_step js event (started, ended) =
     (case js_str js event ''event'' of
        None \<Rightarrow> (started, ended)
      | Some name \<Rightarrow>
          if name = ''tool_started'' then
            (case js_str js event ''call_id'' of
               Some call_id \<Rightarrow> (List.insert call_id started, removeAll call_id ended)
             | None \<Rightarrow> (started, ended))
          else if name = ''tool_finished'' then
            (case js_str js event ''call_id'' of
               Some call_id \<Rightarrow> (started, List.insert call_id ended)
             | None \<Rightarrow> (started, ended))
          else if name = ''run_finished'' \<or> name = ''run_failed'' then
            (filter (\<lambda>call_id. call_id \<notin> set ended) started, [])
          else (started, ended))"

text \<open>The sets are \<open>BTreeSet\<close>s: the first element is the least.\<close>

definition ambiguous :: "'j replay_json \<Rightarrow> 'j list \<Rightarrow> rstr option" where
  "ambiguous js events =
     (case sort (fst (fold (ambiguous_step js) events ([], []))) of
        [] \<Rightarrow> None
      | call_id # _ \<Rightarrow> Some call_id)"

fun fact_observation :: "'j replay_json \<Rightarrow> 'j fact \<Rightarrow> replay_stop + 'j option" where
  "fact_observation js (FactObservation domain name version payload) =
     (if domain = ''replay'' then
        (if version \<noteq> 1
         then Inl (Failed (replay_err AmbiguousExecution ''unsupported replay observation version''))
         else (case js_set js payload ''event'' (js_string js name) of
                 None \<Rightarrow> Inl (Panicked ''cannot access key in JSON value'')
               | Some payload \<Rightarrow> Inr (Some payload)))
      else Inr None)"
| "fact_observation js _ = Inr None"

definition observed_values :: "'j replay_json \<Rightarrow> 'j event list \<Rightarrow> replay_stop + 'j list" where
  "observed_values js events =
     bind_res (collect_res (\<lambda>e. fact_observation js (ev_data e)) events) (\<lambda>vs. Inr (List.map_filter id vs))"

section \<open>The journal of a replay\<close>

record ('j, 'h) replay_journal =
  rj_journal :: "('j, 'h) journal_state"
  rj_trace :: trace
  rj_cause :: "rstr option"

text \<open>What opening a state directory is answered, with the fresh identities it draws.\<close>

record replay_env =
  re_directory :: bool
  re_lock_opened :: bool
  re_lock_free :: bool
  re_journal :: open_env
  re_journal_id :: rstr
  re_trace_id :: rstr

definition failing :: "replay_error + 'a \<Rightarrow> replay_stop + 'a" where
  "failing r = (case r of Inl e \<Rightarrow> Inl (Failed e) | Inr x \<Rightarrow> Inr x)"

definition replay_open ::
  "('j, 'h) journal_io \<Rightarrow> 'j replay_json \<Rightarrow> (rstr \<Rightarrow> rstr) \<Rightarrow> replay_env \<Rightarrow> rstr
     \<Rightarrow> (replay_stop + ('j, 'h) replay_journal) \<times> rstr" where
  "replay_open io js debug env contents =
     (if \<not> re_directory env
      then (Inl (Failed (replay_err Executor ''create replay state'')), contents)
      else if \<not> re_lock_opened env
      then (Inl (Failed (replay_err Executor ''open replay lock'')), contents)
      else if \<not> re_lock_free env
      then (Inl (Failed (replay_err AmbiguousExecution ''another replay process owns state'')), contents)
      else
        (case journal_open io (re_journal_id env) (re_journal env) contents of
           (Inl e, contents') \<Rightarrow>
             (Inl (Failed (replay_err Executor (''open replay fact journal: '' @ e))), contents')
         | (Inr journal, contents') \<Rightarrow>
             (bind_res (failing (replay_context AmbiguousExecution ''recover replay facts''
                                   (journal_records io journal))) (\<lambda>records.
              bind_res (observed_values js (map rec_event records)) (\<lambda>events.
              case ambiguous js events of
                Some call_id \<Rightarrow>
                  Inl (Failed (replay_err AmbiguousExecution
                    (''state contains an uncertain started tool call '' @ debug call_id
                     @ ''; use a new sandbox and run-id to replay from T1'')))
              | None \<Rightarrow>
                  Inr \<lparr>rj_journal = journal,
                       rj_trace = \<lparr>tr_id = re_trace_id env, tr_producer = ''pvisor-replay''\<rparr>,
                       rj_cause = None\<rparr>)), contents')))"

text \<open>One append: the fault of its write, the identity and the time of its event.\<close>

record append_env =
  ae_fault :: "nat option"
  ae_id :: rstr
  ae_now :: u64

fun append_error_text :: "append_error \<Rightarrow> rstr" where
  "append_error_text (Rejected m) = m"
| "append_error_text (Unknown m) = m"

definition replay_event ::
  "'j replay_json \<Rightarrow> append_env \<Rightarrow> rstr \<Rightarrow> (rstr \<times> 'j) list \<Rightarrow> ('j, 'h) replay_journal \<Rightarrow> 'j event" where
  "replay_event js env name members rj =
     trace_event (ae_id env) (ae_now env) (rj_trace rj) [''replay'', tr_id (rj_trace rj)] None None
       (case rj_cause rj of None \<Rightarrow> [] | Some c \<Rightarrow> [c])
       (FactObservation ''replay'' name 1 (js_object js members))"

definition replay_append ::
  "('j, 'h) journal_io \<Rightarrow> 'j replay_json \<Rightarrow> append_env \<Rightarrow> rstr \<Rightarrow> (rstr \<times> 'j) list \<Rightarrow> ('j, 'h) replay_journal
     \<Rightarrow> (replay_error + unit) \<times> ('j, 'h) replay_journal" where
  "replay_append io js env name members rj =
     (case append_event io (ae_fault env) (replay_event js env name members rj) (rj_journal rj) of
        (Inl e, journal) \<Rightarrow>
          (Inl (replay_err Executor (''commit replay fact: '' @ append_error_text e)), rj\<lparr>rj_journal := journal\<rparr>)
      | (Inr receipt, journal) \<Rightarrow>
          (Inr (), rj\<lparr>rj_journal := journal, rj_cause := Some (rcpt_event receipt)\<rparr>))"

section \<open>Reading receipts beside the writer\<close>

text \<open>The lines of a \<open>BufRead\<close>: without their line end, \<open>\n\<close> or \<open>\r\n\<close>; what follows the last one is a line if it is not empty.\<close>

definition strip_cr :: "rstr \<Rightarrow> rstr" where
  "strip_cr l = (if l \<noteq> [] \<and> last l = CHR 0x0D then butlast l else l)"

definition buf_lines :: "rstr \<Rightarrow> rstr list" where
  "buf_lines s =
     (let ps = split_on newline s
      in map strip_cr (butlast ps) @ (if last ps = [] then [] else [last ps]))"

definition byte_in :: "int \<Rightarrow> int \<Rightarrow> char \<Rightarrow> bool" where
  "byte_in lo hi c \<longleftrightarrow> lo \<le> of_char c \<and> of_char c \<le> hi"

fun valid_utf8 :: "rstr \<Rightarrow> bool" where
  "valid_utf8 (a # b # c # d # s) =
     (if byte_in 0x00 0x7F a then valid_utf8 (b # c # d # s)
      else if byte_in 0xC2 0xDF a then byte_in 0x80 0xBF b \<and> valid_utf8 (c # d # s)
      else if byte_in 0xE0 0xEF a then
        byte_in (if byte_in 0xE0 0xE0 a then 0xA0 else 0x80) (if byte_in 0xED 0xED a then 0x9F else 0xBF) b
        \<and> byte_in 0x80 0xBF c \<and> valid_utf8 (d # s)
      else byte_in 0xF0 0xF4 a
        \<and> byte_in (if byte_in 0xF0 0xF0 a then 0x90 else 0x80) (if byte_in 0xF4 0xF4 a then 0x8F else 0xBF) b
        \<and> byte_in 0x80 0xBF c \<and> byte_in 0x80 0xBF d \<and> valid_utf8 s)"
| "valid_utf8 [a, b, c] =
     (if byte_in 0x00 0x7F a then valid_utf8 [b, c]
      else if byte_in 0xC2 0xDF a then byte_in 0x80 0xBF b \<and> valid_utf8 [c]
      else byte_in 0xE0 0xEF a
        \<and> byte_in (if byte_in 0xE0 0xE0 a then 0xA0 else 0x80) (if byte_in 0xED 0xED a then 0x9F else 0xBF) b
        \<and> byte_in 0x80 0xBF c)"
| "valid_utf8 [a, b] =
     (if byte_in 0x00 0x7F a then valid_utf8 [b] else byte_in 0xC2 0xDF a \<and> byte_in 0x80 0xBF b)"
| "valid_utf8 [a] = byte_in 0x00 0x7F a"
| "valid_utf8 [] = True"

definition fail_as :: "replay_error_kind \<Rightarrow> rstr \<Rightarrow> replay_stop" where
  "fail_as kind message = Failed (replay_err kind message)"

fun read_facts :: "('j, 'h) journal_io \<Rightarrow> 'j replay_json \<Rightarrow> rstr list \<Rightarrow> 'j list \<Rightarrow> replay_stop + 'j list" where
  "read_facts io js [] out = Inr out"
| "read_facts io js (line # lines) out =
     bind_res (ensure (valid_utf8 line) (fail_as AmbiguousExecution ''read replay fact'')) (\<lambda>_.
     case io_parse_record io line of
       None \<Rightarrow> Inl (fail_as AmbiguousExecution ''decode replay fact'')
     | Some record \<Rightarrow>
         bind_res (failing (replay_context AmbiguousExecution ''validate replay fact''
                              (event_validate (io_event io) (rec_event record)))) (\<lambda>_.
         bind_res (fact_observation js (ev_data (rec_event record))) (\<lambda>value.
         read_facts io js lines (case value of Some v \<Rightarrow> out @ [v] | None \<Rightarrow> out))))"

definition read_observations ::
  "('j, 'h) journal_io \<Rightarrow> 'j replay_json \<Rightarrow> bool \<Rightarrow> rstr option \<Rightarrow> replay_stop + 'j list" where
  "read_observations io js opened contents =
     (case contents of
        None \<Rightarrow> Inr []
      | Some contents \<Rightarrow>
          bind_res (ensure opened (fail_as AmbiguousExecution ''read replay facts'')) (\<lambda>_.
          case buf_lines contents of
            [] \<Rightarrow> Inr []
          | first # lines \<Rightarrow>
              bind_res (ensure (valid_utf8 first) (fail_as AmbiguousExecution ''read replay header'')) (\<lambda>_.
              case js_parse js first of
                None \<Rightarrow> Inl (fail_as AmbiguousExecution ''parse replay header'')
              | Some header \<Rightarrow>
                  bind_res (ensure (js_str js header ''format'' = Some trace_format
                                    \<and> (case js_str js header ''journal'' of
                                         None \<Rightarrow> False
                                       | Some i \<Rightarrow> i \<noteq> [] \<and> int (length i) \<le> 256))
                              (fail_as AmbiguousExecution ''unsupported replay journal header'')) (\<lambda>_.
                  read_facts io js lines []))))"

section \<open>Executing the calls of a plan\<close>

record 'j tool_call =
  tc_ordinal :: nat
  tc_call_id :: rstr
  tc_name :: rstr
  tc_arguments :: 'j
  tc_original_observation :: 'j
  tc_original_is_error :: bool
  tc_native :: 'j

record 'j fresh_observation =
  fo_call_id :: rstr
  fo_content :: 'j
  fo_is_error :: bool
  fo_return_code :: "int option"
  fo_duration_ms :: nat
  fo_truncated :: bool
  fo_metadata :: "(rstr \<times> 'j) list"

text \<open>
  The loop over the calls of a plan. What executing a call and replacing its observation in the
  rebuilt session answer are arguments; the last component of the result is the list of the
  calls that were executed, in order.
\<close>

fun replay_calls ::
  "('j, 'h) journal_io \<Rightarrow> 'j replay_json \<Rightarrow> ('j tool_call \<Rightarrow> replay_error + 'j fresh_observation)
     \<Rightarrow> ('j tool_call \<Rightarrow> 'j fresh_observation \<Rightarrow> replay_error + unit) \<Rightarrow> (nat \<Rightarrow> append_env) \<Rightarrow> nat
     \<Rightarrow> 'j tool_call list \<Rightarrow> ('j, 'h) replay_journal
     \<Rightarrow> (replay_error + 'j fresh_observation list) \<times> ('j, 'h) replay_journal \<times> 'j tool_call list" where
  "replay_calls io js execute_call rebuild envs n [] rj = (Inr [], rj, [])"
| "replay_calls io js execute_call rebuild envs n (call # calls) rj =
     (case replay_append io js (envs n) ''tool_started''
             [(''call_id'', js_string js (tc_call_id call)), (''tool'', js_string js (tc_name call))] rj of
        (Inl e, rj) \<Rightarrow> (Inl e, rj, [])
      | (Inr _, rj) \<Rightarrow>
          (case execute_call call of
             Inl e \<Rightarrow> (Inl e, rj, [call])
           | Inr fresh \<Rightarrow>
               (case replay_append io js (envs (n + 1)) ''tool_finished''
                       [(''call_id'', js_string js (tc_call_id call)),
                        (''return_code'', js_of_code js (fo_return_code fresh)),
                        (''is_error'', js_of_bool js (fo_is_error fresh)),
                        (''duration_ms'', js_of_nat js (fo_duration_ms fresh))] rj of
                  (Inl e, rj) \<Rightarrow> (Inl e, rj, [call])
                | (Inr _, rj) \<Rightarrow>
                    (case rebuild call fresh of
                       Inl e \<Rightarrow> (Inl e, rj, [call])
                     | Inr _ \<Rightarrow>
                         (case replay_calls io js execute_call rebuild envs (n + 2) calls rj of
                            (res, rj, executed) \<Rightarrow>
                              (bind_res res (\<lambda>observations. Inr (fresh # observations)), rj, call # executed))))))"

section \<open>The report of a failed run\<close>

datatype replay_mode = PrepareOnly | ReplayOnly | ReplayAndContinue
datatype replay_phase = Prepared | Replayed | Continued
datatype replay_quality = Verified | Degraded
datatype agent_status = Completed | MaxSteps | AgentFailed | NotStarted

record replay_result =
  rr_phase :: replay_phase
  rr_quality :: replay_quality
  rr_agent_status :: agent_status
  rr_run_id :: rstr
  rr_after_step :: nat
  rr_replayed_tool_calls :: nat
  rr_prefix_model_turns :: nat
  rr_continued_steps :: nat
  rr_failure :: "(rstr \<times> rstr) option"
  rr_retryable :: bool

fun completed_step :: "'j replay_json \<Rightarrow> 'j \<Rightarrow> nat \<Rightarrow> nat" where
  "completed_step js event completed =
     (if js_str js event ''event'' = Some ''run_started'' then 0
      else if js_str js event ''event'' = Some ''tool_finished'' \<and> js_str js event ''call_id'' \<noteq> None
      then completed + 1 else completed)"

definition completed_tool_calls :: "'j replay_json \<Rightarrow> replay_stop + 'j list \<Rightarrow> nat" where
  "completed_tool_calls js events =
     (case events of Inl _ \<Rightarrow> 0 | Inr events \<Rightarrow> fold (completed_step js) events 0)"

text \<open>What the report takes from the request and the plan, and whether a rebuilt session is among the artifacts.\<close>

record report_input =
  ri_run_id :: rstr
  ri_mode :: replay_mode
  ri_after_step :: nat
  ri_prefix_model_turns :: nat
  ri_replay_completed :: bool
  ri_read_opened :: bool
  ri_result_written :: bool

definition failure_result ::
  "'j replay_json \<Rightarrow> report_input \<Rightarrow> replay_stop + 'j list \<Rightarrow> replay_error \<Rightarrow> replay_result" where
  "failure_result js ri events error =
     \<lparr>rr_phase = (if ri_replay_completed ri then Replayed else Prepared),
      rr_quality = Degraded,
      rr_agent_status = (if ri_mode ri = ReplayAndContinue \<and> ri_replay_completed ri then AgentFailed else NotStarted),
      rr_run_id = ri_run_id ri,
      rr_after_step = ri_after_step ri,
      rr_replayed_tool_calls = completed_tool_calls js events,
      rr_prefix_model_turns = ri_prefix_model_turns ri,
      rr_continued_steps = 0,
      rr_failure = Some (category (err_kind error), err_message error),
      rr_retryable = retryable (err_kind error)\<rparr>"

text \<open>The report with its exit code; writing the result may fail.\<close>

definition failure_report ::
  "'j replay_json \<Rightarrow> report_input \<Rightarrow> replay_stop + 'j list \<Rightarrow> replay_error \<Rightarrow> replay_stop + replay_result \<times> int" where
  "failure_report js ri events error =
     bind_res (ensure (ri_result_written ri) (fail_as Executor ''write result'')) (\<lambda>_.
     Inr (failure_result js ri events error, exit_code (err_kind error)))"

text \<open>
  The journal of the run is still open and file-backed. Its observations are read once for both uses
  the source makes of them, and the copy of the trace into the output directory is left out.
\<close>

definition finalize_failure ::
  "('j, 'h) journal_io \<Rightarrow> 'j replay_json \<Rightarrow> (rstr \<Rightarrow> rstr) \<Rightarrow> append_env \<Rightarrow> report_input \<Rightarrow> replay_error
     \<Rightarrow> ('j, 'h) replay_journal \<Rightarrow> (replay_stop + replay_result \<times> int) \<times> ('j, 'h) replay_journal" where
  "finalize_failure io js debug env ri error rj =
     (let (_, rj) = replay_append io js env ''run_failed''
                      [(''category'', js_string js (category (err_kind error))),
                       (''message'', js_string js (err_message error))] rj;
          events = read_observations io js (ri_read_opened ri) (js_file (rj_journal rj));
          report = failure_report js ri events
      in ((case events of
             Inl (Panicked m) \<Rightarrow> Inl (Panicked m)
           | Inl (Failed receipt_error) \<Rightarrow>
               report (replay_err AmbiguousExecution
                 (''cannot establish replay side-effect receipts: '' @ err_message receipt_error
                  @ ''; original failure: '' @ err_message error))
           | Inr values \<Rightarrow>
               (case ambiguous js values of
                  Some call_id \<Rightarrow>
                    report (replay_err AmbiguousExecution
                      (''tool call '' @ debug call_id @ '' has no resolved execution receipt; original failure: ''
                       @ err_message error))
                | None \<Rightarrow> report error)), rj))"

section \<open>What the receipts decide\<close>

definition starts :: "'j replay_json \<Rightarrow> rstr \<Rightarrow> 'j \<Rightarrow> bool" where
  "starts js call_id v \<longleftrightarrow> js_str js v ''event'' = Some ''tool_started'' \<and> js_str js v ''call_id'' = Some call_id"

definition finishes :: "'j replay_json \<Rightarrow> rstr \<Rightarrow> 'j \<Rightarrow> bool" where
  "finishes js call_id v \<longleftrightarrow> js_str js v ''event'' = Some ''tool_finished'' \<and> js_str js v ''call_id'' = Some call_id"

definition ends_run :: "'j replay_json \<Rightarrow> 'j \<Rightarrow> bool" where
  "ends_run js v \<longleftrightarrow> js_str js v ''event'' \<in> {Some ''run_finished'', Some ''run_failed''}"

text \<open>A start is resolved by a later finish of the call and a still later end of the run.\<close>

definition resolved_in :: "'j replay_json \<Rightarrow> rstr \<Rightarrow> 'j list \<Rightarrow> bool" where
  "resolved_in js call_id vs \<longleftrightarrow>
     (\<exists>as f bs. vs = as @ f # bs \<and> finishes js call_id f \<and> list_ex (ends_run js) bs)"

definition unresolved :: "'j replay_json \<Rightarrow> rstr \<Rightarrow> 'j list \<Rightarrow> bool" where
  "unresolved js call_id vs \<longleftrightarrow>
     (\<exists>as v bs. vs = as @ v # bs \<and> starts js call_id v \<and> \<not> resolved_in js call_id bs)"

definition unfinished :: "'j replay_json \<Rightarrow> rstr \<Rightarrow> 'j list \<Rightarrow> bool" where
  "unfinished js call_id vs \<longleftrightarrow>
     (\<exists>as v bs. vs = as @ v # bs \<and> starts js call_id v \<and> \<not> list_ex (finishes js call_id) bs)"

lemma split_snoc:
  "(\<exists>as v bs. vs @ [w] = as @ v # bs \<and> P v bs) \<longleftrightarrow> P w [] \<or> (\<exists>as v bs. vs = as @ v # bs \<and> P v (bs @ [w]))"
  (is "?l \<longleftrightarrow> ?r")
proof
  assume ?l
  then obtain as v bs where "vs @ [w] = as @ v # bs" "P v bs" by blast
  then show ?r by (cases bs rule: rev_cases) auto
next
  assume ?r
  then show ?l by (metis append.assoc append_Cons append_Nil)
qed

lemma resolved_in_snoc:
  "resolved_in js c (vs @ [w]) \<longleftrightarrow> resolved_in js c vs \<or> (ends_run js w \<and> list_ex (finishes js c) vs)"
proof -
  have "resolved_in js c (vs @ [w]) \<longleftrightarrow>
      (\<exists>as v bs. vs = as @ v # bs \<and> finishes js c v \<and> (list_ex (ends_run js) bs \<or> ends_run js w))"
    unfolding resolved_in_def using split_snoc [of vs w "\<lambda>v bs. finishes js c v \<and> list_ex (ends_run js) bs"]
    by simp
  moreover have "list_ex (finishes js c) vs \<longleftrightarrow> (\<exists>as v bs. vs = as @ v # bs \<and> finishes js c v)"
    by (metis in_set_conv_decomp list_ex_iff)
  ultimately show ?thesis unfolding resolved_in_def by blast
qed

lemma resolved_in_finish: "resolved_in js c vs \<Longrightarrow> list_ex (finishes js c) vs"
  by (auto simp: resolved_in_def)

lemma call_unresolved_snoc:
  "unresolved js c (vs @ [w]) \<longleftrightarrow> starts js c w \<or> (if ends_run js w then unfinished js c vs else unresolved js c vs)"
proof -
  have "unresolved js c (vs @ [w]) \<longleftrightarrow> starts js c w
      \<or> (\<exists>as v bs. vs = as @ v # bs \<and> starts js c v \<and> \<not> resolved_in js c (bs @ [w]))"
    unfolding unresolved_def using split_snoc [of vs w "\<lambda>v bs. starts js c v \<and> \<not> resolved_in js c bs"]
    by (simp add: resolved_in_def)
  then show ?thesis unfolding resolved_in_snoc unresolved_def unfinished_def using resolved_in_finish by metis
qed

lemma unfinished_snoc:
  "unfinished js c (vs @ [w]) \<longleftrightarrow> starts js c w \<or> (unfinished js c vs \<and> \<not> finishes js c w)"
  unfolding unfinished_def
  using split_snoc [of vs w "\<lambda>v bs. starts js c v \<and> \<not> list_ex (finishes js c) bs"] by auto

lemma ambiguous_step_sets:
  assumes "ambiguous_step js v (s, f) = (s', f')"
  shows "c \<in> set s' \<longleftrightarrow> starts js c v \<or> (c \<in> set s \<and> \<not> (ends_run js v \<and> c \<in> set f))"
    and "c \<in> set f' \<longleftrightarrow> \<not> starts js c v \<and> \<not> ends_run js v \<and> (finishes js c v \<or> c \<in> set f)"
proof -
  consider "js_str js v ''event'' = Some ''tool_started''" | "js_str js v ''event'' = Some ''tool_finished''"
    | "ends_run js v" | "js_str js v ''event'' \<notin> Some ` {''tool_started'', ''tool_finished'', ''run_finished'', ''run_failed''}"
    by (auto simp: ends_run_def)
  then have "(c \<in> set s' \<longleftrightarrow> starts js c v \<or> (c \<in> set s \<and> \<not> (ends_run js v \<and> c \<in> set f)))
    \<and> (c \<in> set f' \<longleftrightarrow> \<not> starts js c v \<and> \<not> ends_run js v \<and> (finishes js c v \<or> c \<in> set f))"
  proof cases
    case 1
    then show ?thesis using assms
      by (cases "js_str js v ''call_id''") (auto simp: starts_def finishes_def ends_run_def)
  next
    case 2
    then show ?thesis using assms
      by (cases "js_str js v ''call_id''") (auto simp: starts_def finishes_def ends_run_def)
  next
    case 3
    then show ?thesis using assms by (auto simp: starts_def finishes_def ends_run_def)
  next
    case 4
    then have "(s', f') = (s, f)" using assms by (auto split: option.splits)
    then show ?thesis using 4 by (auto simp: starts_def finishes_def ends_run_def)
  qed
  then show "c \<in> set s' \<longleftrightarrow> starts js c v \<or> (c \<in> set s \<and> \<not> (ends_run js v \<and> c \<in> set f))"
    and "c \<in> set f' \<longleftrightarrow> \<not> starts js c v \<and> \<not> ends_run js v \<and> (finishes js c v \<or> c \<in> set f)"
    by blast+
qed

lemma receipts_exclusive:
  "ends_run js v \<Longrightarrow> \<not> finishes js c v" "ends_run js v \<Longrightarrow> \<not> starts js c v" "finishes js c v \<Longrightarrow> \<not> starts js c' v"
  by (auto simp: starts_def finishes_def ends_run_def)

lemma ambiguous_fold:
  "fold (ambiguous_step js) vs ([], []) = (started, ended) \<Longrightarrow>
     (c \<in> set started \<longleftrightarrow> unresolved js c vs) \<and> (c \<in> set started \<and> c \<notin> set ended \<longleftrightarrow> unfinished js c vs)"
proof (induction vs arbitrary: started ended rule: rev_induct)
  case Nil
  then show ?case by (simp add: unresolved_def unfinished_def)
next
  case (snoc v vs)
  obtain s f where sf: "fold (ambiguous_step js) vs ([], []) = (s, f)" by fastforce
  then have "ambiguous_step js v (s, f) = (started, ended)" using snoc.prems by simp
  note step = ambiguous_step_sets [OF this, of c]
  show ?case unfolding call_unresolved_snoc unfinished_snoc step
    using snoc.IH [OF sf] receipts_exclusive(1) [of js v c] receipts_exclusive(2) [of js v c]
      receipts_exclusive(3) [of js c v c] by auto
qed

lemma sort_head: "(case sort xs of [] \<Rightarrow> None | x # _ \<Rightarrow> Some x) = (if xs = [] then None else Some (Min (set xs)))"
proof (cases "sort xs")
  case Nil
  then show ?thesis by (metis set_empty set_sort list.simps(4))
next
  case (Cons y ys)
  then have "y = Min (set (sort xs))"
    by (metis Min_eqI finite_set list.set_intros(1) set_ConsD sorted_simps(2) sorted_sort order.refl)
  then show ?thesis using Cons by (metis list.simps(5) set_sort sort_key_simps(1) list.distinct(1))
qed

lemma ambiguous_cases:
  "(case ambiguous js vs of None \<Rightarrow> \<forall>c. \<not> unresolved js c vs
      | Some c \<Rightarrow> unresolved js c vs \<and> (\<forall>c'. unresolved js c' vs \<longrightarrow> c \<le> c'))"
proof -
  obtain s f where sf: "fold (ambiguous_step js) vs ([], []) = (s, f)" by fastforce
  have "c \<in> set s \<longleftrightarrow> unresolved js c vs" for c using ambiguous_fold [OF sf] by blast
  moreover have "ambiguous js vs = (if s = [] then None else Some (Min (set s)))"
    using sort_head [of s] by (simp add: ambiguous_def sf)
  ultimately show ?thesis using Min_in [of "set s"] Min_le [of "set s"] by (auto split: if_splits)
qed

lemma ambiguous_None_iff: "ambiguous js vs = None \<longleftrightarrow> (\<forall>c. \<not> unresolved js c vs)"
  using ambiguous_cases [of js vs] by (auto split: option.splits)

section \<open>Receipts in a journal\<close>

lemma steps_grow:
  assumes "journal_laws io" "committed io st rs" "(journal_step io)\<^sup>*\<^sup>* st st'"
  shows "\<exists>es. committed io st' (rs @ es)"
  using assms(3)
proof (induction rule: rtranclp_induct)
  case base
  then show ?case using assms(2) by (metis append_Nil2)
next
  case (step u w)
  then obtain es where "committed io u (rs @ es)" by blast
  then show ?case using committed_step [OF assms(1) _ step(2)] by (metis append.assoc)
qed

lemma seen_iff: "committed io st rs \<Longrightarrow> map_of (js_seen st) i = None \<longleftrightarrow> i \<notin> rec_id ` set rs"
  by (auto simp: committed_def seen_of_def map_of_eq_None_iff image_comp comp_def)

lemma append_new:
  assumes "journal_laws io" "committed io st rs" "append_event io fault e st = (Inr receipt, st')"
    and "map_of (js_seen st) (ev_id e) = None"
  shows "committed io st' (rs @ [next_record st e])"
proof (rule committed_append [OF assms(1-3)])
  fix rs' assume rs': "committed io st' rs'" "rs' = rs \<or> rs' = rs @ [next_record st e]"
  obtain offset hash where "map_of (js_seen st') (ev_id e) = Some (offset, hash)"
    by (rule append_receipt [OF assms(3)])
  then have "rs' \<noteq> rs" using seen_iff [OF rs'(1), of "ev_id e"] seen_iff [OF assms(2), of "ev_id e"] assms(4) by auto
  then show ?thesis using rs' by simp
qed

lemma replay_append_new:
  assumes "journal_laws io" "committed io (rj_journal rj) rs"
    and "replay_append io js env name members rj = (Inr u, rj')"
    and "map_of (js_seen (rj_journal rj)) (ae_id env) = None"
  obtains r where "committed io (rj_journal rj') (rs @ [r])" "rec_id r = ae_id env"
    "ev_data (rec_event r) = FactObservation ''replay'' name 1 (js_object js members)"
proof -
  let ?e = "replay_event js env name members rj"
  have e: "ev_id ?e = ae_id env" "ev_data ?e = FactObservation ''replay'' name 1 (js_object js members)"
    by (simp_all add: replay_event_def trace_event_def)
  obtain receipt where "append_event io (ae_fault env) ?e (rj_journal rj) = (Inr receipt, rj_journal rj')"
    using assms(3) by (auto simp: replay_append_def split: prod.splits sum.splits)
  from append_new [OF assms(1, 2) this] assms(4) e have "committed io (rj_journal rj') (rs @ [next_record (rj_journal rj) ?e])"
    by simp
  then show thesis using that e by (simp add: next_record_def)
qed

lemma replay_append_step:
  "replay_append io js env name members rj = (res, rj') \<Longrightarrow> journal_step io (rj_journal rj) (rj_journal rj')"
  by (auto simp: replay_append_def split: prod.splits sum.splits intro: journal_step.append)

lemma observed_values_append:
  "observed_values js (xs @ ys) =
     bind_res (observed_values js xs) (\<lambda>vs. bind_res (observed_values js ys) (\<lambda>ws. Inr (vs @ ws)))"
  by (auto simp: observed_values_def collect_res_append bind_res_def map_filter_def split: sum.split)

lemma observed_values_Cons:
  "observed_values js (e # es) =
     bind_res (fact_observation js (ev_data e)) (\<lambda>v. bind_res (observed_values js es) (\<lambda>vs.
       Inr ((case v of None \<Rightarrow> [] | Some w \<Rightarrow> [w]) @ vs)))"
  by (auto simp: observed_values_def bind_res_def map_filter_def split: sum.split option.split)

lemma replay_lawsD:
  assumes "replay_laws js"
  shows "map_of (rev members) key = Some (js_string js s) \<Longrightarrow> js_str js (js_object js members) key = Some s"
    and "\<exists>w. js_set js (js_object js members) key v = Some w"
    and "js_set js u key (js_string js s) = Some w \<Longrightarrow>
           js_str js w key' = (if key' = key then Some s else js_str js u key')"
  using assms unfolding replay_laws_def by blast+

lemma receipt_value:
  assumes "replay_laws js" "map_of (rev members) ''call_id'' = Some (js_string js c)"
  obtains v where "fact_observation js (FactObservation ''replay'' name 1 (js_object js members)) = Inr (Some v)"
    "js_str js v ''event'' = Some name" "js_str js v ''call_id'' = Some c"
proof -
  obtain v where v: "js_set js (js_object js members) ''event'' (js_string js name) = Some v"
    using replay_lawsD(2) [OF assms(1)] by blast
  show thesis using that [of v] v replay_lawsD(3) [OF assms(1) v] replay_lawsD(1) [OF assms] by simp
qed

lemma journal_records_state_of:
  "journal_laws io \<Longrightarrow> records_ok io journal rs \<Longrightarrow> journal_id_ok journal \<Longrightarrow>
     journal_records io (state_of io journal rs) = Inr rs"
  using scan_file [of io journal rs "[]" False True]
  by (simp add: journal_records_def state_of_def max_event_bytes_def ensure_def)

definition replay_env_ok :: "replay_env \<Rightarrow> bool" where
  "replay_env_ok env \<longleftrightarrow> re_directory env \<and> re_lock_opened env \<and> re_lock_free env \<and> env_ok (re_journal env)"

text \<open>Opening the file of a journal decides on the values of its records, with at most the torn one completed.\<close>

lemma replay_open_committed:
  assumes "journal_laws io" "committed io st rs" "js_file st = Some contents" "replay_env_ok env"
  obtains es where "committed io (state_of io (js_id st) (rs @ es)) (rs @ es)"
    "journal_records io (state_of io (js_id st) (rs @ es)) = Inr (rs @ es)"
    "fst (replay_open io js debug env contents) =
       bind_res (observed_values js (map rec_event (rs @ es))) (\<lambda>vs.
         case ambiguous js vs of
           Some c \<Rightarrow> Inl (Failed (replay_err AmbiguousExecution
                    (''state contains an uncertain started tool call '' @ debug c
                     @ ''; use a new sandbox and run-id to replay from T1'')))
         | None \<Rightarrow> Inr \<lparr>rj_journal = state_of io (js_id st) (rs @ es),
                        rj_trace = \<lparr>tr_id = re_trace_id env, tr_producer = ''pvisor-replay''\<rparr>, rj_cause = None\<rparr>)"
    "\<not> js_poisoned st \<longrightarrow> es = []"
proof -
  have "env_ok (re_journal env)" using assms(4) by (simp add: replay_env_ok_def)
  from committed_file_open [OF assms(1-3) this, of "re_journal_id env"] obtain rs' where rs':
    "journal_open io (re_journal_id env) (re_journal env) contents =
      (Inr (state_of io (js_id st) rs'), header_line io (js_id st) @ lines_of io rs')"
    "committed io (state_of io (js_id st) rs') rs'"
    "rs' = rs \<or> (\<exists>r. rs' = rs @ [r] \<and> contents = header_line io (js_id st) @ lines_of io rs @ record_line io r)" .
  obtain es where es: "rs' = rs @ es" using rs'(3) by auto
  have "\<not> js_poisoned st \<Longrightarrow> contents = header_line io (js_id st) @ lines_of io rs"
    using assms(2, 3) by (auto simp: committed_def)
  then have "\<not> js_poisoned st \<longrightarrow> es = []" using rs'(3) es by (auto simp: record_line_def)
  moreover have "journal_records io (state_of io (js_id st) rs') = Inr rs'"
    using journal_records_state_of [OF assms(1)] rs'(2) by (simp add: committed_def state_of_def)
  moreover from this have "fst (replay_open io js debug env contents) =
       bind_res (observed_values js (map rec_event rs')) (\<lambda>vs.
         case ambiguous js vs of
           Some c \<Rightarrow> Inl (Failed (replay_err AmbiguousExecution
                    (''state contains an uncertain started tool call '' @ debug c
                     @ ''; use a new sandbox and run-id to replay from T1'')))
         | None \<Rightarrow> Inr \<lparr>rj_journal = state_of io (js_id st) rs',
                        rj_trace = \<lparr>tr_id = re_trace_id env, tr_producer = ''pvisor-replay''\<rparr>, rj_cause = None\<rparr>)"
    using assms(4) rs'(1) by (simp add: replay_open_def replay_env_ok_def failing_def replay_context_def)
  ultimately show thesis using that [of es] rs'(2) unfolding es by blast
qed

lemma replay_open_isl:
  assumes "journal_laws io" "committed io st rs" "js_file st = Some contents" "replay_env_ok env" "\<not> js_poisoned st"
  shows "isl (fst (replay_open io js debug env contents)) \<longleftrightarrow>
    (case observed_values js (map rec_event rs) of Inl _ \<Rightarrow> True | Inr vs \<Rightarrow> ambiguous js vs \<noteq> None)"
proof (rule replay_open_committed [OF assms(1-4), of js debug])
  fix es
  assume "\<not> js_poisoned st \<longrightarrow> es = []" and o: "fst (replay_open io js debug env contents) =
       bind_res (observed_values js (map rec_event (rs @ es))) (\<lambda>vs.
         case ambiguous js vs of
           Some c \<Rightarrow> Inl (Failed (replay_err AmbiguousExecution
                    (''state contains an uncertain started tool call '' @ debug c
                     @ ''; use a new sandbox and run-id to replay from T1'')))
         | None \<Rightarrow> Inr \<lparr>rj_journal = state_of io (js_id st) (rs @ es),
                        rj_trace = \<lparr>tr_id = re_trace_id env, tr_producer = ''pvisor-replay''\<rparr>, rj_cause = None\<rparr>)"
  then have "es = []" using assms(5) by simp
  then show ?thesis unfolding o by (cases "observed_values js (map rec_event rs)") (auto split: option.split)
qed

section \<open>Executed calls and their receipts\<close>

definition started_receipt :: "'j replay_json \<Rightarrow> 'j tool_call \<Rightarrow> 'j record_entry \<Rightarrow> bool" where
  "started_receipt js call r \<longleftrightarrow>
     ev_data (rec_event r) = FactObservation ''replay'' ''tool_started'' 1
       (js_object js [(''call_id'', js_string js (tc_call_id call)), (''tool'', js_string js (tc_name call))])"

definition fresh_from :: "(nat \<Rightarrow> append_env) \<Rightarrow> nat \<Rightarrow> 'j record_entry list \<Rightarrow> bool" where
  "fresh_from envs n rs \<longleftrightarrow> (\<forall>k \<ge> n. ae_id (envs k) \<notin> rec_id ` set rs)"

lemma fresh_from_step:
  assumes "inj (ae_id \<circ> envs)" "fresh_from envs n rs" "rec_id r = ae_id (envs n)"
  shows "fresh_from envs (n + 1) (rs @ [r])"
proof -
  have "ae_id (envs k) \<noteq> ae_id (envs n)" if "k \<ge> n + 1" for k
    using inj_eq [OF assms(1), of k n] that by simp
  then show ?thesis using assms(2, 3) by (auto simp: fresh_from_def)
qed

lemma append_fresh:
  assumes "journal_laws io" "committed io (rj_journal rj) rs" "inj (ae_id \<circ> envs)" "fresh_from envs n rs"
    and "replay_append io js (envs n) name members rj = (Inr u, rj')"
  obtains r where "committed io (rj_journal rj') (rs @ [r])" "fresh_from envs (n + 1) (rs @ [r])"
    "ev_data (rec_event r) = FactObservation ''replay'' name 1 (js_object js members)"
proof -
  have "map_of (js_seen (rj_journal rj)) (ae_id (envs n)) = None"
    using seen_iff [OF assms(2)] assms(4) by (simp add: fresh_from_def)
  from replay_append_new [OF assms(1, 2, 5) this] obtain r where
    "committed io (rj_journal rj') (rs @ [r])" "rec_id r = ae_id (envs n)"
    "ev_data (rec_event r) = FactObservation ''replay'' name 1 (js_object js members)" .
  then show thesis using that fresh_from_step [OF assms(3, 4)] by blast
qed

lemma append_grows:
  assumes "journal_laws io" "committed io (rj_journal rj) rs" "replay_append io js env name members rj = (res, rj')"
  obtains es where "committed io (rj_journal rj') (rs @ es)"
  using steps_grow [OF assms(1, 2) r_into_rtranclp [of "journal_step io", OF replay_append_step [OF assms(3)]]] by blast

lemma replay_append_steps:
  "replay_append io js env name members rj = (res, rj') \<Longrightarrow> (journal_step io)\<^sup>*\<^sup>* (rj_journal rj') t \<Longrightarrow>
     (journal_step io)\<^sup>*\<^sup>* (rj_journal rj) t"
  by (rule converse_rtranclp_into_rtranclp [where r = "journal_step io"]) (rule replay_append_step)

lemma replay_calls_steps:
  "replay_calls io js execute_call rebuild envs n calls rj = (res, rj', executed) \<Longrightarrow>
     (journal_step io)\<^sup>*\<^sup>* (rj_journal rj) (rj_journal rj')"
proof (induction calls arbitrary: rj n res executed)
  case (Cons call calls)
  then show ?case
    by (auto split: prod.splits sum.splits
        intro: replay_append_steps [OF _ rtranclp.rtrancl_refl] replay_append_steps [OF _ replay_append_steps])
qed simp

lemma replay_calls_receipts:
  assumes laws: "journal_laws io" and inj: "inj (ae_id \<circ> envs)"
  shows "committed io (rj_journal rj) rs \<Longrightarrow> fresh_from envs n rs \<Longrightarrow>
    replay_calls io js execute_call rebuild envs n calls rj = (res, rj', executed) \<Longrightarrow>
    \<exists>es. committed io (rj_journal rj') (rs @ es) \<and> (\<forall>call \<in> set executed. \<exists>r \<in> set es. started_receipt js call r)"
proof (induction calls arbitrary: rj rs n res executed)
  case Nil
  then show ?case by (auto intro: exI [of _ "[]"])
next
  case (Cons call calls)
  let ?members = "[(''call_id'', js_string js (tc_call_id call)), (''tool'', js_string js (tc_name call))]"
  obtain a1 rj1 where 1: "replay_append io js (envs n) ''tool_started'' ?members rj = (a1, rj1)" by fastforce
  show ?case
  proof (cases a1)
    case (Inl e)
    then have "rj' = rj1" "executed = []" using Cons.prems(3) 1 by simp_all
    then show ?thesis using append_grows [OF laws Cons.prems(1) 1] by (metis list.set(1) empty_iff)
  next
    case (Inr u)
    from append_fresh [OF laws Cons.prems(1) inj Cons.prems(2) 1 [unfolded Inr]] obtain r where
      r: "committed io (rj_journal rj1) (rs @ [r])" "fresh_from envs (n + 1) (rs @ [r])" "started_receipt js call r"
      unfolding started_receipt_def .
    show ?thesis
    proof (cases "execute_call call")
      case (Inl e)
      then have "rj' = rj1" "executed = [call]" using Cons.prems(3) 1 \<open>a1 = Inr u\<close> by simp_all
      then show ?thesis using r by (intro exI [of _ "[r]"]) simp
    next
      case (Inr fresh)
      let ?fin = "[(''call_id'', js_string js (tc_call_id call)),
                   (''return_code'', js_of_code js (fo_return_code fresh)),
                   (''is_error'', js_of_bool js (fo_is_error fresh)),
                   (''duration_ms'', js_of_nat js (fo_duration_ms fresh))]"
      obtain a2 rj2 where 2: "replay_append io js (envs (n + 1)) ''tool_finished'' ?fin rj1 = (a2, rj2)" by fastforce
      note run = Cons.prems(3) [unfolded replay_calls.simps 1 \<open>a1 = Inr u\<close>, simplified Inr 2 prod.case sum.case]
      show ?thesis
      proof (cases "\<exists>u. a2 = Inr u \<and> rebuild call fresh = Inr ()")
        case False
        then have "rj' = rj2" "executed = [call]" using run
          by (cases a2; cases "rebuild call fresh"; simp)+
        moreover from append_grows [OF laws r(1) 2] obtain es where "committed io (rj_journal rj2) ((rs @ [r]) @ es)" .
        ultimately show ?thesis using r(3) by (intro exI [of _ "[r] @ es"]) simp
      next
        case True
        then obtain v where v: "a2 = Inr v" "rebuild call fresh = Inr ()" by blast
        from append_fresh [OF laws r(1) inj r(2) 2 [unfolded v(1)]] obtain f where
          f: "committed io (rj_journal rj2) ((rs @ [r]) @ [f])" "fresh_from envs (n + 1 + 1) ((rs @ [r]) @ [f])" .
        obtain res' ex where ex: "replay_calls io js execute_call rebuild envs (n + 2) calls rj2 = (res', rj', ex)"
          "executed = call # ex" using run v by (auto split: prod.splits)
        from Cons.IH [OF f(1) _ ex(1)] f(2) obtain es where
          "committed io (rj_journal rj') (((rs @ [r]) @ [f]) @ es)"
          "\<forall>call \<in> set ex. \<exists>r \<in> set es. started_receipt js call r" by auto
        then show ?thesis using r(3) ex(2) by (intro exI [of _ "[r, f] @ es"]) auto
      qed
    qed
  qed
qed

text \<open>The state of a journal that holds a start of the call, with every start of it resolved.\<close>

definition receipts_resolved :: "('j, 'h) journal_io \<Rightarrow> 'j replay_json \<Rightarrow> rstr \<Rightarrow> ('j, 'h) journal_state \<Rightarrow> bool" where
  "receipts_resolved io js call_id journal \<longleftrightarrow>
     (\<exists>rs vs. journal_records io journal = Inr rs \<and> observed_values js (map rec_event rs) = Inr vs
        \<and> (\<exists>v \<in> set vs. starts js call_id v) \<and> \<not> unresolved js call_id vs)"

lemma open_resolves:
  assumes "journal_laws io" "replay_laws js" "committed io st rs" "js_file st = Some contents" "replay_env_ok env"
    and "started_receipt js call r" "r \<in> set rs"
    and "replay_open io js debug env contents = (Inr re, contents')"
  shows "receipts_resolved io js (tc_call_id call) (rj_journal re)"
proof -
  from replay_open_committed [OF assms(1, 3-5), of js debug] obtain es where
    es: "journal_records io (state_of io (js_id st) (rs @ es)) = Inr (rs @ es)"
    and o: "Inr re = bind_res (observed_values js (map rec_event (rs @ es))) (\<lambda>vs.
         case ambiguous js vs of
           Some c \<Rightarrow> Inl (Failed (replay_err AmbiguousExecution
                    (''state contains an uncertain started tool call '' @ debug c
                     @ ''; use a new sandbox and run-id to replay from T1'')))
         | None \<Rightarrow> Inr \<lparr>rj_journal = state_of io (js_id st) (rs @ es),
                        rj_trace = \<lparr>tr_id = re_trace_id env, tr_producer = ''pvisor-replay''\<rparr>, rj_cause = None\<rparr>)"
    unfolding assms(8) fst_conv by blast
  obtain vs where vs: "observed_values js (map rec_event (rs @ es)) = Inr vs" "ambiguous js vs = None"
    "rj_journal re = state_of io (js_id st) (rs @ es)"
    using o by (cases "observed_values js (map rec_event (rs @ es))") (auto split: option.splits)
  obtain as bs where rs: "rs @ es = as @ [r] @ bs" using assms(7) split_list [of r rs] by auto
  have "map_of (rev [(''call_id'', js_string js (tc_call_id call)), (''tool'', js_string js (tc_name call))]) ''call_id''
      = Some (js_string js (tc_call_id call))" by simp
  from receipt_value [OF assms(2) this, of "''tool_started''"] obtain v where
    v: "fact_observation js (ev_data (rec_event r)) = Inr (Some v)" "starts js (tc_call_id call) v"
    using assms(6) unfolding started_receipt_def starts_def by metis
  have "v \<in> set vs" using vs(1) v(1) unfolding rs
    by (auto simp: observed_values_append observed_values_Cons bind_res_Inr_iff)
  then show ?thesis using es vs v(2) ambiguous_None_iff [of js vs] unfolding receipts_resolved_def by auto
qed

lemma failure_report_Inr:
  "failure_report js ri events error = Inr (report, code) \<Longrightarrow>
     rr_retryable report = retryable (err_kind error) \<and> code = exit_code (err_kind error)
     \<and> rr_failure report = Some (category (err_kind error), err_message error)"
  by (auto simp: failure_report_def failure_result_def bind_res_Inr_iff)

lemma replay_err_kind [simp]: "err_kind (replay_err kind m) = kind"
  by (simp add: replay_err_def)

section \<open>Reading a journal beside its writer\<close>

text \<open>What the text of a record and of a header is: UTF-8 on one line, and a JSON object with the members written.\<close>

definition line_laws :: "('j, 'h) journal_io \<Rightarrow> 'j replay_json \<Rightarrow> bool" where
  "line_laws io js \<longleftrightarrow>
     (\<forall>r s. io_record io r = Some s \<longrightarrow> valid_utf8 s \<and> strip_cr s = s)
     \<and> (\<forall>h. valid_utf8 (io_header io h) \<and> strip_cr (io_header io h) = io_header io h
          \<and> (\<exists>v. js_parse js (io_header io h) = Some v \<and> js_str js v ''format'' = Some (jh_format h)
                 \<and> js_str js v ''journal'' = Some (jh_journal h)))"

lemma split_on_line: "c \<notin> set s \<Longrightarrow> split_on c (s @ c # rest) = s # split_on c rest"
  by (induction s) auto

lemma split_on_not_Nil: "split_on c s \<noteq> []"
  by (induction s) (auto split: list.split)

lemma buf_lines_line: "newline \<notin> set s \<Longrightarrow> buf_lines (s @ newline # rest) = strip_cr s # buf_lines rest"
  using split_on_not_Nil [of newline rest] by (simp add: buf_lines_def split_on_line Let_def)

lemma buf_lines_Nil: "buf_lines [] = []"
  by (simp add: buf_lines_def)

lemma buf_lines_records:
  assumes "journal_laws io" "line_laws io js" "list_all (record_ok io) rs"
  shows "buf_lines (lines_of io rs) = map (\<lambda>r. the (io_record io r)) rs"
  using assms(3)
proof (induction rs)
  case (Cons r rs)
  then obtain s where s: "io_record io r = Some s" by (auto simp: record_ok_def)
  then have "newline \<notin> set s" "strip_cr s = s"
    using assms(1, 2) by (auto simp: journal_laws_def line_laws_def)
  then show ?case using Cons s by (simp add: record_line_def buf_lines_line)
qed (simp add: buf_lines_Nil lines_of_def)

lemma read_facts_records:
  assumes "line_laws io js" "list_all (record_ok io) rs"
  shows "read_facts io js (map (\<lambda>r. the (io_record io r)) rs) out =
    bind_res (observed_values js (map rec_event rs)) (\<lambda>vs. Inr (out @ vs))"
  using assms(2)
proof (induction rs arbitrary: out)
  case (Cons r rs)
  then obtain s where s: "io_record io r = Some s" "io_parse_record io s = Some r"
    and valid: "event_validate (io_event io) (rec_event r) = Inr ()" by (auto simp: record_ok_def)
  then have "valid_utf8 s" using assms(1) by (auto simp: line_laws_def)
  then show ?case using Cons s valid
    by (cases "fact_observation js (ev_data (rec_event r))"; cases "observed_values js (map rec_event rs)")
      (auto simp: observed_values_Cons failing_def replay_context_def ensure_def split: option.split)
qed (simp add: observed_values_def map_filter_def)

lemma read_observations_committed:
  assumes "journal_laws io" "line_laws io js" "committed io st rs" "\<not> js_poisoned st" "js_file st = Some contents"
  shows "read_observations io js True (Some contents) = observed_values js (map rec_event rs)"
proof -
  let ?h = "io_header io \<lparr>jh_format = trace_format, jh_journal = js_id st\<rparr>"
  have ok: "records_ok io (js_id st) rs" "journal_id_ok (js_id st)" and
    c: "contents = header_line io (js_id st) @ lines_of io rs"
    using assms(3-5) by (auto simp: committed_def)
  have "newline \<notin> set ?h" using assms(1) by (simp add: journal_laws_def)
  moreover obtain v where v: "js_parse js ?h = Some v" "js_str js v ''format'' = Some trace_format"
    "js_str js v ''journal'' = Some (js_id st)" and h: "valid_utf8 ?h" "strip_cr ?h = ?h"
    using assms(2) unfolding line_laws_def by (metis journal_header.select_convs)
  moreover have "list_all (record_ok io) rs" using ok(1) by (simp add: records_ok_def)
  ultimately have "buf_lines contents = ?h # map (\<lambda>r. the (io_record io r)) rs"
    "read_facts io js (map (\<lambda>r. the (io_record io r)) rs) [] = observed_values js (map rec_event rs)"
    using buf_lines_records [OF assms(1, 2)] read_facts_records [OF assms(2)]
    by (simp_all add: c header_line_def buf_lines_line bind_res_def split: sum.split)
  then show ?thesis using v h ok(2)
    by (simp add: read_observations_def ensure_def journal_id_ok_def)
qed

section \<open>Properties\<close>

text \<open>
  C3. A tool is never executed over a state in which its outcome is unknown. Whatever ended
  the loop over the calls of a plan, a failed append, a failed tool or an error after it, and
  whatever was appended, failed or reopened afterwards: the state directory can be opened for
  another replay only when every start of every call that was executed has been followed by a
  committed finish of that call and, after it, by the end of its run.
\<close>

theorem executed_tools_guard_the_state:
  assumes "journal_laws io" "replay_laws js" "journal_init io st0" "(journal_step io)\<^sup>*\<^sup>* st0 (rj_journal rj)"
    and "inj (ae_id \<circ> envs)" "\<forall>k. map_of (js_seen (rj_journal rj)) (ae_id (envs k)) = None"
    and "replay_calls io js execute_call rebuild envs n calls rj = (res, rj', executed)"
    and "call \<in> set executed" "(journal_step io)\<^sup>*\<^sup>* (rj_journal rj') st"
    and "js_file st = Some contents" "replay_env_ok env"
    and "replay_open io js debug env contents = (Inr re, contents')"
  shows "receipts_resolved io js (tc_call_id call) (rj_journal re)"
proof -
  obtain rs where rs: "committed io (rj_journal rj) rs" using journal.inv_reachable assms(1, 3, 4) by blast
  have "fresh_from envs n rs" using assms(6) seen_iff [OF rs] by (simp add: fresh_from_def)
  from replay_calls_receipts [OF assms(1, 5) rs this assms(7)] obtain es where
    es: "committed io (rj_journal rj') (rs @ es)" "\<forall>call \<in> set executed. \<exists>r \<in> set es. started_receipt js call r"
    by (elim exE conjE)
  then obtain r where r: "r \<in> set es" "started_receipt js call r" using assms(8) by blast
  from steps_grow [OF assms(1) es(1) assms(9)] obtain es' where "committed io st ((rs @ es) @ es')" ..
  from open_resolves [OF assms(1, 2) this assms(10, 11) r(2) _ assms(12)] r(1) show ?thesis by simp
qed

text \<open>
  C28. The report of a failed run agrees with what the state admits. When the journal of the run
  is intact after the failure was recorded, the report says that a retry may help exactly when
  the failure is of a kind that a retry may help with and the state can be opened again; a state
  that cannot is reported as an ambiguous execution, with its exit code, and never as retryable.
\<close>

theorem failure_report_agrees_with_state:
  assumes "journal_laws io" "line_laws io js" "journal_init io st0" "(journal_step io)\<^sup>*\<^sup>* st0 (rj_journal rj)"
    and "finalize_failure io js debug env ri error rj = (Inr (report, code), rj')"
    and "\<not> js_poisoned (rj_journal rj')" "js_file (rj_journal rj') = Some contents"
    and "ri_read_opened ri" "replay_env_ok env'"
  shows "rr_retryable report = (retryable (err_kind error) \<and> \<not> isl (fst (replay_open io js debug env' contents)))
    \<and> (if isl (fst (replay_open io js debug env' contents))
       then code = 31 \<and> fst (the (rr_failure report)) = ''ambiguous_execution''
       else code = exit_code (err_kind error)
            \<and> rr_failure report = Some (category (err_kind error), err_message error))"
proof -
  obtain rs where rs: "committed io (rj_journal rj) rs" using journal.inv_reachable assms(1, 3, 4) by blast
  let ?m = "[(''category'', js_string js (category (err_kind error))), (''message'', js_string js (err_message error))]"
  obtain a where a: "replay_append io js env ''run_failed'' ?m rj = (a, rj')"
    using assms(5) by (auto simp: finalize_failure_def Let_def split: prod.splits)
  from append_grows [OF assms(1) rs a] obtain es where es: "committed io (rj_journal rj') (rs @ es)" .
  let ?vs = "observed_values js (map rec_event (rs @ es))"
  have read: "read_observations io js (ri_read_opened ri) (js_file (rj_journal rj')) = ?vs"
    using read_observations_committed [OF assms(1, 2) es assms(6, 7)] assms(7, 8) by simp
  have "isl (fst (replay_open io js debug env' contents)) \<longleftrightarrow>
      (case ?vs of Inl _ \<Rightarrow> True | Inr vs \<Rightarrow> ambiguous js vs \<noteq> None)"
    by (rule replay_open_isl [OF assms(1) es assms(7, 9, 6)])
  moreover have "fst (finalize_failure io js debug env ri error rj) = Inr (report, code)" using assms(5) by simp
  note this [unfolded finalize_failure_def a Let_def prod.case read fst_conv]
  ultimately show ?thesis
    by (cases ?vs) (auto simp del: append.simps dest!: failure_report_Inr split: replay_stop.splits option.splits)
qed

section \<open>An instance\<close>

text \<open>
  Objects with string members, a codec that writes every byte of a header as two letters, and a
  table of the three records of a run: a tool is started, it finishes, and the run fails.
\<close>

definition nibble :: "nat \<Rightarrow> char" where
  "nibble n = char_of (97 + n)"

definition byte_text :: "char \<Rightarrow> rstr" where
  "byte_text c = [nibble (of_char c div 16), nibble (of_char c mod 16)]"

fun field_text :: "rstr \<Rightarrow> rstr" where
  "field_text [] = '',''"
| "field_text (c # s) = byte_text c @ field_text s"

fun read_field :: "rstr \<Rightarrow> (rstr \<times> rstr) option" where
  "read_field (a # b # s) =
     (if a = CHR '','' then Some ([], b # s)
      else map_option (\<lambda>(f, rest). (char_of (16 * (of_char a - 97) + (of_char b - 97 :: nat)) # f, rest)) (read_field s))"
| "read_field [a] = (if a = CHR '','' then Some ([], []) else None)"
| "read_field [] = None"

lemma nibble_code: "n < 16 \<Longrightarrow> of_char (nibble n) = 97 + n" "n < 16 \<Longrightarrow> nibble n \<noteq> CHR '',''"
proof -
  assume n: "n < 16"
  then show "of_char (nibble n) = 97 + n" by (simp add: nibble_def)
  then show "nibble n \<noteq> CHR '',''" by auto
qed

lemma nibble_range: "of_char c div 16 < (16 :: nat)" "of_char c mod 16 < (16 :: nat)"
  using less_mult_imp_div_less [of "of_char c" 16 "16 :: nat"] by simp_all

lemma read_field_text: "read_field (field_text s @ rest) = Some (s, rest)"
proof (induction s)
  case Nil
  then show ?case by (cases rest) simp_all
next
  case (Cons c s)
  then show ?case by (simp add: byte_text_def nibble_code nibble_range)
qed

lemma field_text_ascii: "c \<in> set (field_text s) \<Longrightarrow> c = CHR '','' \<or> (97 \<le> (of_char c :: nat) \<and> of_char c < (113 :: nat))"
  by (induction s) (auto simp: byte_text_def nibble_code nibble_range)

lemma field_text_facts: "newline \<notin> set (field_text s)" "last (field_text s) = CHR '',''" "field_text s \<noteq> []"
  "length (field_text s) = 2 * length s + 1"
proof -
  show "newline \<notin> set (field_text s)" using field_text_ascii [of newline s] by auto
  show 1: "field_text s \<noteq> []" for s by (cases s) (simp_all add: byte_text_def)
  show "last (field_text s) = CHR '',''" by (induction s) (simp_all add: 1)
  show "length (field_text s) = 2 * length s + 1" by (induction s) (simp_all add: byte_text_def)
qed

lemma valid_utf8_ascii: "list_all (byte_in 0 0x7F) s \<Longrightarrow> valid_utf8 s"
  by (induction s rule: valid_utf8.induct) simp_all

definition rx_json :: "(rstr \<times> rstr) list replay_json" where
  "rx_json =
     \<lparr>js_object = map (\<lambda>(k, v). (k, concat (map snd v))),
      js_string = (\<lambda>s. [([], s)]),
      js_of_bool = (\<lambda>b. [([], if b then ''true'' else ''false'')]),
      js_of_code = (\<lambda>c. []),
      js_of_nat = (\<lambda>n. [([], show_nat n)]),
      js_set = (\<lambda>v k x. Some (v @ [(k, concat (map snd x))])),
      js_str = (\<lambda>v k. map_of (rev v) k),
      js_parse = (\<lambda>s. case read_field s of
          None \<Rightarrow> None
        | Some (f, s) \<Rightarrow>
            (case read_field s of None \<Rightarrow> None | Some (j, _) \<Rightarrow> Some [(''format'', f), (''journal'', j)]))\<rparr>"

definition rx_envs :: "nat \<Rightarrow> append_env" where
  "rx_envs k = \<lparr>ae_fault = None, ae_id = CHR ''e'' # replicate k CHR ''x'', ae_now = 0\<rparr>"

definition rx_record :: "nat \<Rightarrow> rstr list \<Rightarrow> rstr \<Rightarrow> (rstr \<times> rstr) list \<Rightarrow> (rstr \<times> rstr) list record_entry" where
  "rx_record k causes name members =
     \<lparr>rec_position = \<lparr>pos_journal = ''j'', pos_offset = of_nat k\<rparr>,
      rec_event = trace_event (ae_id (rx_envs k)) 0 \<lparr>tr_id = ''t'', tr_producer = ''pvisor-replay''\<rparr>
        [''replay'', ''t''] None None causes (FactObservation ''replay'' name 1 members)\<rparr>"

definition rx_0 :: "(rstr \<times> rstr) list record_entry" where
  "rx_0 = rx_record 0 [] ''tool_started'' [(''call_id'', ''c''), (''tool'', ''ls'')]"

definition rx_1 :: "(rstr \<times> rstr) list record_entry" where
  "rx_1 = rx_record 1 [''e''] ''tool_finished''
     [(''call_id'', ''c''), (''return_code'', []), (''is_error'', ''false''), (''duration_ms'', ''3'')]"

definition rx_2 :: "(rstr \<times> rstr) list record_entry" where
  "rx_2 = rx_record 2 [''ex''] ''run_failed'' [(''category'', ''model_rate_limit''), (''message'', ''m'')]"

definition rx_io :: "((rstr \<times> rstr) list, rstr) journal_io" where
  "rx_io =
     \<lparr>io_event = (\<lambda>e. Some (ev_id e)),
      io_record = (\<lambda>r. Some (if r = rx_0 then ''0'' else if r = rx_1 then ''1'' else if r = rx_2 then ''2'' else ''X'')),
      io_parse_record = (\<lambda>s.
        if s = ''0'' \<or> s = ''0'' @ [newline] then Some rx_0
        else if s = ''1'' \<or> s = ''1'' @ [newline] then Some rx_1
        else if s = ''2'' \<or> s = ''2'' @ [newline] then Some rx_2 else None),
      io_header = (\<lambda>h. field_text (jh_format h) @ field_text (jh_journal h)),
      io_parse_header = (\<lambda>s. case read_field s of
          None \<Rightarrow> None
        | Some (f, s) \<Rightarrow>
            (case read_field s of
               None \<Rightarrow> None
             | Some (j, s) \<Rightarrow> if s = [newline] then Some \<lparr>jh_format = f, jh_journal = j\<rparr> else None)),
      io_sha = (\<lambda>s. s)\<rparr>"

definition rx_env :: replay_env where
  "rx_env = \<lparr>re_directory = True, re_lock_opened = True, re_lock_free = True, re_journal = ex_env,
     re_journal_id = ''j'', re_trace_id = ''t''\<rparr>"

definition rx_call :: "(rstr \<times> rstr) list tool_call" where
  "rx_call = \<lparr>tc_ordinal = 1, tc_call_id = ''c'', tc_name = ''ls'', tc_arguments = [], tc_original_observation = [],
     tc_original_is_error = False, tc_native = []\<rparr>"

definition rx_execute :: "(rstr \<times> rstr) list tool_call \<Rightarrow> replay_error + (rstr \<times> rstr) list fresh_observation" where
  "rx_execute call = Inr \<lparr>fo_call_id = tc_call_id call, fo_content = [], fo_is_error = False,
     fo_return_code = Some 0, fo_duration_ms = 3, fo_truncated = False, fo_metadata = []\<rparr>"

lemma rx_io_laws: "journal_laws rx_io"
proof -
  have "newline \<notin> set (io_header rx_io h)" "io_parse_header rx_io (io_header rx_io h @ [newline]) = Some h" for h
    by (simp_all add: rx_io_def field_text_facts read_field_text)
  moreover have "rx_0 \<noteq> rx_1" "rx_0 \<noteq> rx_2" "rx_1 \<noteq> rx_2"
    by (simp_all add: rx_0_def rx_1_def rx_2_def rx_record_def)
  ultimately show ?thesis unfolding journal_laws_def
    by (auto simp: rx_io_def field_text_facts split: if_splits)
qed

lemma map_of_rev_map: "map_of (rev (map (\<lambda>(k, v). (k, f v)) ms)) k = map_option f (map_of (rev ms) k)"
  unfolding rev_map by (rule fun_cong [OF map_of_map, simplified])

lemma rx_json_laws: "replay_laws rx_json"
  unfolding replay_laws_def by (simp add: rx_json_def map_of_rev_map)

lemma rx_line_laws: "line_laws rx_io rx_json"
proof -
  have ascii: "list_all (byte_in 0 0x7F) (field_text s)" for s
    unfolding list_all_iff byte_in_def of_nat_of_char [symmetric, where ?'a = int] using field_text_ascii [of _ s] by fastforce
  have "valid_utf8 (io_header rx_io h)" "strip_cr (io_header rx_io h) = io_header rx_io h" for h
    using ascii by (auto intro!: valid_utf8_ascii simp: rx_io_def strip_cr_def field_text_facts)
  moreover have "\<exists>v. js_parse rx_json (io_header rx_io h) = Some v \<and> js_str rx_json v ''format'' = Some (jh_format h)
      \<and> js_str rx_json v ''journal'' = Some (jh_journal h)" for h
    using read_field_text [of "jh_journal h" "[]"] by (simp add: rx_io_def rx_json_def read_field_text)
  ultimately show ?thesis unfolding line_laws_def by (auto simp: rx_io_def strip_cr_def byte_in_def)
qed

definition rx_open :: "((rstr \<times> rstr) list, rstr) replay_journal" where
  "rx_open = \<lparr>rj_journal = state_of rx_io ''j'' [], rj_trace = \<lparr>tr_id = ''t'', tr_producer = ''pvisor-replay''\<rparr>,
     rj_cause = None\<rparr>"

definition rx_run :: "(replay_error + (rstr \<times> rstr) list fresh_observation list)
    \<times> ((rstr \<times> rstr) list, rstr) replay_journal \<times> (rstr \<times> rstr) list tool_call list" where
  "rx_run = replay_calls rx_io rx_json rx_execute (\<lambda>_ _. Inr ()) rx_envs 0 [rx_call] rx_open"

lemma rx_init: "journal_init rx_io (rj_journal rx_open)"
proof -
  have "journal_id_ok ''j''" "journal_open rx_io ''j'' ex_env [] = (Inr (state_of rx_io ''j'' []), header_line rx_io ''j'')"
    by (simp_all add: journal_id_ok_def journal_open_def ex_env_def open_journal_file_def open_contents_def
        ensure_def state_of_def unresolved_causes_def)
  then show ?thesis unfolding journal_init_def rx_open_def by auto
qed

lemma rx_envs_inj: "inj (ae_id \<circ> rx_envs)"
  by (rule injI) (auto simp: rx_envs_def dest: arg_cong [of _ _ length])

definition rx_error :: replay_error where
  "rx_error = \<lparr>err_kind = ModelRateLimit, err_message = ''m''\<rparr>"

definition rx_input :: report_input where
  "rx_input = \<lparr>ri_run_id = ''r'', ri_mode = ReplayOnly, ri_after_step = 1, ri_prefix_model_turns = 1,
     ri_replay_completed = False, ri_read_opened = True, ri_result_written = True\<rparr>"

definition rx_final :: "(replay_stop + replay_result \<times> int) \<times> ((rstr \<times> rstr) list, rstr) replay_journal" where
  "rx_final = finalize_failure rx_io rx_json id (rx_envs 2) rx_input rx_error (fst (snd rx_run))"

definition rx_contents :: rstr where
  "rx_contents = the (js_file (rj_journal (snd rx_final)))"

definition rx_sound where
  "rx_sound executed final \<longleftrightarrow> executed = [rx_call] \<and> \<not> isl (fst final) \<and> \<not> js_poisoned (rj_journal (snd final))
     \<and> (case js_file (rj_journal (snd final)) of
          None \<Rightarrow> False | Some contents \<Rightarrow> \<not> isl (fst (replay_open rx_io rx_json id rx_env contents)))"

definition rx_all where
  "rx_all run = rx_sound (snd (snd run)) (finalize_failure rx_io rx_json id (rx_envs 2) rx_input rx_error (fst (snd run)))"

lemma rx_all_run: "rx_all rx_run"
  by code_simp

lemma rx_facts:
  "snd (snd rx_run) = [rx_call]" "js_file (rj_journal (snd rx_final)) \<noteq> None"
  "\<not> js_poisoned (rj_journal (snd rx_final))" "\<not> isl (fst (replay_open rx_io rx_json id rx_env rx_contents))"
  "\<not> isl (fst rx_final)"
  using rx_all_run unfolding rx_all_def rx_sound_def rx_final_def [symmetric] rx_contents_def
  by (auto split: option.splits)

lemma rx_file: "js_file (rj_journal (snd rx_final)) = Some rx_contents"
  using rx_facts(2) by (auto simp: rx_contents_def)

lemma rx_env_ok: "replay_env_ok rx_env"
  using ex_env_ok by (simp add: replay_env_ok_def rx_env_def)

lemma rx_final_steps: "(journal_step rx_io)\<^sup>*\<^sup>* (rj_journal (fst (snd rx_run))) (rj_journal (snd rx_final))"
proof -
  obtain a rj' where a: "replay_append rx_io rx_json (rx_envs 2) ''run_failed''
      [(''category'', js_string rx_json (category (err_kind rx_error))),
       (''message'', js_string rx_json (err_message rx_error))] (fst (snd rx_run)) = (a, rj')" by fastforce
  then have "snd rx_final = rj'" by (simp add: rx_final_def finalize_failure_def Let_def)
  then show ?thesis using replay_append_step [OF a] by (simp add: r_into_rtranclp)
qed

theorem executed_tools_guard_the_state_witness:
  "\<exists>re contents'. replay_open rx_io rx_json id rx_env rx_contents = (Inr re, contents')
     \<and> receipts_resolved rx_io rx_json ''c'' (rj_journal re)"
proof -
  obtain re contents' where o: "replay_open rx_io rx_json id rx_env rx_contents = (Inr re, contents')"
    using rx_facts(4) by (cases "replay_open rx_io rx_json id rx_env rx_contents") (auto dest: not_isl_InrD)
  have run: "replay_calls rx_io rx_json rx_execute (\<lambda>_ _. Inr ()) rx_envs 0 [rx_call] rx_open =
      (fst rx_run, fst (snd rx_run), snd (snd rx_run))" by (simp add: rx_run_def)
  have fresh: "\<forall>k. map_of (js_seen (rj_journal rx_open)) (ae_id (rx_envs k)) = None"
    by (simp add: rx_open_def state_of_def seen_of_def)
  have "rx_call \<in> set (snd (snd rx_run))" by (simp add: rx_facts)
  from executed_tools_guard_the_state [OF rx_io_laws rx_json_laws rx_init rtranclp.rtrancl_refl rx_envs_inj fresh run
      this rx_final_steps rx_file rx_env_ok o] o
  show ?thesis by (simp add: rx_call_def)
qed

theorem failure_report_agrees_with_state_witness:
  "\<exists>report code. fst rx_final = Inr (report, code) \<and> rr_retryable report \<and> code = 40"
proof -
  obtain report code where f: "fst rx_final = Inr (report, code)" using rx_facts(5) by (auto dest!: not_isl_InrD)
  have "finalize_failure rx_io rx_json id (rx_envs 2) rx_input rx_error (fst (snd rx_run)) =
      (Inr (report, code), snd rx_final)" using f by (simp add: rx_final_def [symmetric] prod_eq_iff)
  moreover have "(journal_step rx_io)\<^sup>*\<^sup>* (rj_journal rx_open) (rj_journal (fst (snd rx_run)))"
    by (rule replay_calls_steps [of _ rx_json rx_execute "\<lambda>_ _. Inr ()" rx_envs 0 "[rx_call]" _ "fst rx_run" _ "snd (snd rx_run)"])
      (simp add: rx_run_def)
  moreover have "ri_read_opened rx_input" by (simp add: rx_input_def)
  ultimately have "rr_retryable report = (retryable (err_kind rx_error) \<and> True) \<and> code = exit_code (err_kind rx_error)"
    using failure_report_agrees_with_state [where debug = id and error = rx_error,
        OF rx_io_laws rx_line_laws rx_init _ _ rx_facts(3) rx_file _ rx_env_ok] rx_facts(4) by auto
  then show ?thesis using f by (simp add: rx_error_def)
qed

end
