(* ===== verification/Mmio.thy ===== *)
theory Mmio
  imports Virtqueue Bus
begin

text \<open>
  The MMIO transport of virtio devices (\<open>crates/pvisor-vm/src/devices/virtio/mmio.rs\<close>) and the
  interface of a device (\<open>device.rs\<close>): feature negotiation, the status register, the
  configuration of queues, activation, reset and snapshots.

  A device is reached through the operations of the trait \<open>VirtioDevice\<close>, the record
  \<open>virtio_ops\<close>; the locale \<open>virtio_device\<close> states what the trait asks of an implementation. An
  event descriptor of a queue is the number of times it was signalled. A panic, of a failed
  activation or notification, is the value \<open>None\<close>. Waking an idle guest and the interrupt
  controller are not modelled: the interrupt status register is.
\<close>

unbundle bit_operations_syntax

section \<open>Devices\<close>

text \<open>A queue with the number of its event descriptor.\<close>

type_synonym device_queue = "queue \<times> nat"

record 's device_snapshot =
  ds_queues :: "queue_snapshot list option"
  ds_state :: 's

record ('d, 's) virtio_ops =
  vo_avail_features :: "'d \<Rightarrow> u64"
  vo_acked_features :: "'d \<Rightarrow> u64"
  vo_set_acked_features :: "u64 \<Rightarrow> 'd \<Rightarrow> 'd"
  vo_device_type :: "'d \<Rightarrow> u32"
  vo_queue_config :: "'d \<Rightarrow> u16 list"
  vo_read_config :: "'d \<Rightarrow> u64 \<Rightarrow> u8 list \<Rightarrow> u8 list"
  vo_write_config :: "u64 \<Rightarrow> u8 list \<Rightarrow> 'd \<Rightarrow> 'd"
  vo_activate :: "device_queue list \<Rightarrow> 'd \<Rightarrow> 'd option"
  vo_is_activated :: "'d \<Rightarrow> bool"
  vo_reset :: "'d \<Rightarrow> bool \<times> 'd"
  vo_shm_region :: "'d \<Rightarrow> (u64 \<times> u64) option"
  vo_shm_region_id :: "'d \<Rightarrow> u32"
  vo_capture_state :: "'d \<Rightarrow> rstr + 's device_snapshot"
  vo_restore_state :: "'s \<Rightarrow> 'd \<Rightarrow> rstr + 'd"

definition avail_features_by_page :: "('d, 's) virtio_ops \<Rightarrow> u32 \<Rightarrow> 'd \<Rightarrow> u32" where
  "avail_features_by_page ops page d =
     (if page = 0 then ucast (vo_avail_features ops d)
      else if page = 1 then ucast (drop_bit 32 (vo_avail_features ops d))
      else 0)"

definition ack_features_by_page :: "('d, 's) virtio_ops \<Rightarrow> u32 \<Rightarrow> u32 \<Rightarrow> 'd \<Rightarrow> 'd" where
  "ack_features_by_page ops page val d =
     (let v = (if page = 0 then ucast val else if page = 1 then push_bit 32 (ucast val) else 0);
          unrequested = v AND NOT (vo_avail_features ops d);
          v = (if unrequested \<noteq> 0 then v AND NOT unrequested else v)
      in vo_set_acked_features ops (vo_acked_features ops d OR v) d)"

definition read_config_space :: "u8 list \<Rightarrow> u64 \<Rightarrow> u8 list \<Rightarrow> u8 list" where
  "read_config_space config offset data =
     (if of_nat (length config) \<le> offset then data
      else
        (case checked_add offset (of_nat (length data)) of
           None \<Rightarrow> data
         | Some finish \<Rightarrow>
             (let bytes = take (unat (min finish (of_nat (length config))) - unat offset) (drop (unat offset) config)
              in bytes @ drop (length bytes) data)))"

section \<open>The transport\<close>

definition VENDOR_ID :: u32 where "VENDOR_ID = 0"
definition MMIO_MAGIC_VALUE :: u32 where "MMIO_MAGIC_VALUE = 0x74726976"
definition MMIO_VERSION :: u32 where "MMIO_VERSION = 2"

definition INIT :: u32 where "INIT = 0"
definition ACKNOWLEDGE :: u32 where "ACKNOWLEDGE = 1"
definition DRIVER :: u32 where "DRIVER = 2"
definition FAILED :: u32 where "FAILED = 128"
definition FEATURES_OK :: u32 where "FEATURES_OK = 8"
definition DRIVER_OK :: u32 where "DRIVER_OK = 4"

definition VIRTIO_MMIO_INT_VRING :: u32 where "VIRTIO_MMIO_INT_VRING = 1"
definition VIRTIO_MMIO_INT_CONFIG :: u32 where "VIRTIO_MMIO_INT_CONFIG = 2"

text \<open>\<open>VIRTIO_RING_F_EVENT_IDX\<close> of the virtio bindings.\<close>

definition event_idx_bit :: u64 where "event_idx_bit = push_bit 29 1"

lemmas status_defs = INIT_def ACKNOWLEDGE_def DRIVER_def FAILED_def FEATURES_OK_def DRIVER_OK_def

record 'd mmio =
  mm_device :: 'd
  features_select :: u32
  acked_features_select :: u32
  queue_select :: u32
  device_status :: u32
  config_generation :: u32
  mm_queues :: "queue list option"
  queue_evts :: "nat list"
  queue_config :: "u16 list"
  shm_region_select :: u32
  interrupt_status :: u64
  irq_line :: "u32 option"

definition create_queues :: "u16 list \<Rightarrow> queue list" where
  "create_queues config = map queue_new config"

definition mmio_new :: "('d, 's) virtio_ops \<Rightarrow> 'd \<Rightarrow> 'd mmio" where
  "mmio_new ops d =
     (let config = vo_queue_config ops d in
      \<lparr>mm_device = d, features_select = 0, acked_features_select = 0, queue_select = 0,
       device_status = INIT, config_generation = 0, mm_queues = Some (create_queues config),
       queue_evts = replicate (length config) 0, queue_config = config, shm_region_select = 0,
       interrupt_status = 0, irq_line = None\<rparr>)"

definition check_device_status :: "u32 \<Rightarrow> u32 \<Rightarrow> 'd mmio \<Rightarrow> bool" where
  "check_device_status st clr t \<longleftrightarrow> device_status t AND (st OR clr) = st"

definition with_queue :: "'u \<Rightarrow> (queue \<Rightarrow> 'u) \<Rightarrow> 'd mmio \<Rightarrow> 'u" where
  "with_queue d f t =
     (case mm_queues t of
        Some qs \<Rightarrow> if unat (queue_select t) < length qs then f (qs ! unat (queue_select t)) else d
      | None \<Rightarrow> d)"

definition with_queue_mut :: "(queue \<Rightarrow> queue) \<Rightarrow> 'd mmio \<Rightarrow> 'd mmio" where
  "with_queue_mut f t =
     (case mm_queues t of
        Some qs \<Rightarrow>
          if unat (queue_select t) < length qs
          then t\<lparr>mm_queues := Some (qs[unat (queue_select t) := f (qs ! unat (queue_select t))])\<rparr>
          else t
      | None \<Rightarrow> t)"

definition update_queue_field :: "(queue \<Rightarrow> queue) \<Rightarrow> 'd mmio \<Rightarrow> 'd mmio" where
  "update_queue_field f t = (if check_device_status FEATURES_OK FAILED t then with_queue_mut f t else t)"

definition mmio_reset :: "'d mmio \<Rightarrow> 'd mmio" where
  "mmio_reset t =
     t\<lparr>features_select := 0, acked_features_select := 0, queue_select := 0, interrupt_status := 0,
       device_status := INIT, mm_queues := Some (create_queues (queue_config t))\<rparr>"

text \<open>\<open>zip\<close> of the queues with the event descriptors that exist.\<close>

definition device_queues :: "bool \<Rightarrow> queue list \<Rightarrow> nat list \<Rightarrow> device_queue list" where
  "device_queues event_idx qs evts =
     map (\<lambda>(q, e). (set_event_idx event_idx q, e)) (zip qs [0..<length evts])"

definition mmio_activate :: "('d, 's) virtio_ops \<Rightarrow> 'd mmio \<Rightarrow> 'd mmio option" where
  "mmio_activate ops t =
     (case mm_queues t of
        None \<Rightarrow> Some t
      | Some qs \<Rightarrow>
          (let event_idx = vo_acked_features ops (mm_device t) AND event_idx_bit \<noteq> 0
           in map_option (\<lambda>d. t\<lparr>mm_queues := None, mm_device := d\<rparr>)
                (vo_activate ops (device_queues event_idx qs (queue_evts t)) (mm_device t))))"

text \<open>The arms of the match on the bits that the driver adds, in their order.\<close>

definition set_device_status :: "('d, 's) virtio_ops \<Rightarrow> u32 \<Rightarrow> 'd mmio \<Rightarrow> 'd mmio option" where
  "set_device_status ops status t =
     (let changed = NOT (device_status t) AND status in
      if changed = ACKNOWLEDGE \<and> device_status t = INIT then Some (t\<lparr>device_status := status\<rparr>)
      else if changed = DRIVER \<and> device_status t = ACKNOWLEDGE then Some (t\<lparr>device_status := status\<rparr>)
      else if changed = FEATURES_OK \<and> device_status t = ACKNOWLEDGE OR DRIVER
      then Some (t\<lparr>device_status := status\<rparr>)
      else if changed = DRIVER_OK \<and> device_status t = ACKNOWLEDGE OR DRIVER OR FEATURES_OK then
        (let t = t\<lparr>device_status := status\<rparr>
         in if vo_is_activated ops (mm_device t) then Some t else mmio_activate ops t)
      else if status AND FAILED \<noteq> 0 then Some (t\<lparr>device_status := device_status t OR FAILED\<rparr>)
      else if status = 0 then
        (let t = (if vo_is_activated ops (mm_device t)
                  then (let (supported, d) = vo_reset ops (mm_device t); t = t\<lparr>mm_device := d\<rparr>
                        in if supported then t else t\<lparr>device_status := device_status t OR FAILED\<rparr>)
                  else t)
         in Some (if device_status t AND FAILED = 0 then mmio_reset t else t))
      else Some t)"

section \<open>Registers\<close>

definition read_le_u32 :: "u8 list \<Rightarrow> u32" where
  "read_le_u32 bs = le_word (take 4 (bs @ replicate 4 0))"

definition write_le_u32 :: "u8 list \<Rightarrow> u32 \<Rightarrow> u8 list" where
  "write_le_u32 buf n = take (length buf) (le_bytes 4 (unat n)) @ drop 4 buf"

definition mmio_shm :: "('d, 's) virtio_ops \<Rightarrow> 'd mmio \<Rightarrow> u64 \<times> u64" where
  "mmio_shm ops t =
     (if shm_region_select t \<noteq> vo_shm_region_id ops (mm_device t) then (0, NOT 0)
      else (case vo_shm_region ops (mm_device t) of Some (base, len) \<Rightarrow> (base, len) | None \<Rightarrow> (0, NOT 0)))"

definition mmio_register :: "('d, 's) virtio_ops \<Rightarrow> u64 \<Rightarrow> 'd mmio \<Rightarrow> u32 option" where
  "mmio_register ops offset t =
     (if offset = 0x0 then Some MMIO_MAGIC_VALUE
      else if offset = 0x04 then Some MMIO_VERSION
      else if offset = 0x08 then Some (vo_device_type ops (mm_device t))
      else if offset = 0x0c then Some VENDOR_ID
      else if offset = 0x10 then
        (let features = avail_features_by_page ops (features_select t) (mm_device t)
         in Some (if features_select t = 1 then features OR 0x1 else features))
      else if offset = 0x34 then
        Some (if unat (queue_select t) < length (queue_config t)
              then ucast (queue_config t ! unat (queue_select t)) else 0)
      else if offset = 0x44 then Some (with_queue 0 (\<lambda>q. if q_ready q then 1 else 0) t)
      else if offset = 0x60 then Some (ucast (interrupt_status t))
      else if offset = 0x70 then Some (device_status t)
      else if offset = 0xfc then Some (config_generation t)
      else if 0xb0 \<le> offset \<and> offset \<le> 0xbc then
        (let (shm_base, shm_len) = mmio_shm ops t in
         Some (if offset = 0xb0 then ucast shm_len
               else if offset = 0xb4 then ucast (drop_bit 32 shm_len)
               else if offset = 0xb8 then ucast shm_base
               else if offset = 0xbc then ucast (drop_bit 32 shm_base)
               else 0))
      else None)"

definition mmio_read :: "('d, 's) virtio_ops \<Rightarrow> u64 \<Rightarrow> u8 list \<Rightarrow> 'd mmio \<Rightarrow> u8 list" where
  "mmio_read ops offset data t =
     (if offset \<le> 0xff \<and> length data = 4 then
        (case mmio_register ops offset t of Some v \<Rightarrow> write_le_u32 data v | None \<Rightarrow> data)
      else if 0x100 \<le> offset \<and> offset \<le> 0xfff then vo_read_config ops (mm_device t) (offset - 0x100) data
      else data)"

definition addr_hi :: "u32 \<Rightarrow> u64 \<Rightarrow> u64" where
  "addr_hi x v = (v AND 0xffffffff) OR push_bit 32 (ucast x)"

definition addr_lo :: "u32 \<Rightarrow> u64 \<Rightarrow> u64" where
  "addr_lo x v = (v AND NOT 0xffffffff) OR ucast x"

text \<open>Whether the event descriptor takes one more signal is an argument.\<close>

definition mmio_notify :: "bool \<Rightarrow> u32 \<Rightarrow> 'd mmio \<Rightarrow> 'd mmio option" where
  "mmio_notify signalled v t =
     (if unat v < length (queue_evts t)
      then (if signalled then Some (t\<lparr>queue_evts := (queue_evts t)[unat v := queue_evts t ! unat v + 1]\<rparr>)
            else None)
      else Some t)"

definition mmio_write_register :: "('d, 's) virtio_ops \<Rightarrow> bool \<Rightarrow> u64 \<Rightarrow> u32 \<Rightarrow> 'd mmio \<Rightarrow> 'd mmio option" where
  "mmio_write_register ops signalled offset v t =
     (if offset = 0x14 then Some (t\<lparr>features_select := v\<rparr>)
      else if offset = 0x20 then
        Some (if check_device_status DRIVER (FEATURES_OK OR FAILED) t
              then t\<lparr>mm_device := ack_features_by_page ops (acked_features_select t) v (mm_device t)\<rparr>
              else t)
      else if offset = 0x24 then Some (t\<lparr>acked_features_select := v\<rparr>)
      else if offset = 0x30 then Some (t\<lparr>queue_select := v\<rparr>)
      else if offset = 0x38 then Some (update_queue_field (\<lambda>q. q\<lparr>q_size := ucast v\<rparr>) t)
      else if offset = 0x44 then Some (update_queue_field (\<lambda>q. q\<lparr>q_ready := (v = 1)\<rparr>) t)
      else if offset = 0x50 then mmio_notify signalled v t
      else if offset = 0x64 then
        Some (if check_device_status DRIVER_OK 0 t
              then t\<lparr>interrupt_status := interrupt_status t AND NOT (ucast v)\<rparr> else t)
      else if offset = 0x70 then set_device_status ops v t
      else if offset = 0x80 then Some (update_queue_field (\<lambda>q. q\<lparr>q_desc_table := addr_lo v (q_desc_table q)\<rparr>) t)
      else if offset = 0x84 then Some (update_queue_field (\<lambda>q. q\<lparr>q_desc_table := addr_hi v (q_desc_table q)\<rparr>) t)
      else if offset = 0x90 then Some (update_queue_field (\<lambda>q. q\<lparr>q_avail_ring := addr_lo v (q_avail_ring q)\<rparr>) t)
      else if offset = 0x94 then Some (update_queue_field (\<lambda>q. q\<lparr>q_avail_ring := addr_hi v (q_avail_ring q)\<rparr>) t)
      else if offset = 0xa0 then Some (update_queue_field (\<lambda>q. q\<lparr>q_used_ring := addr_lo v (q_used_ring q)\<rparr>) t)
      else if offset = 0xa4 then Some (update_queue_field (\<lambda>q. q\<lparr>q_used_ring := addr_hi v (q_used_ring q)\<rparr>) t)
      else if offset = 0xac then Some (t\<lparr>shm_region_select := v\<rparr>)
      else Some t)"

definition mmio_write :: "('d, 's) virtio_ops \<Rightarrow> bool \<Rightarrow> u64 \<Rightarrow> u8 list \<Rightarrow> 'd mmio \<Rightarrow> 'd mmio option" where
  "mmio_write ops signalled offset data t =
     (if offset \<le> 0xff \<and> length data = 4 then mmio_write_register ops signalled offset (read_le_u32 data) t
      else if 0x100 \<le> offset \<and> offset \<le> 0xfff then
        Some (if check_device_status DRIVER FAILED t
              then t\<lparr>mm_device := vo_write_config ops (offset - 0x100) data (mm_device t)\<rparr> else t)
      else Some t)"

text \<open>\<open>try_signal\<close>: a bit of the interrupt status; used queues and configuration changes.\<close>

definition try_signal :: "u32 \<Rightarrow> 'd mmio \<Rightarrow> 'd mmio" where
  "try_signal status t = t\<lparr>interrupt_status := interrupt_status t OR ucast status\<rparr>"

definition signal_used_queue :: "'d mmio \<Rightarrow> 'd mmio" where
  "signal_used_queue = try_signal VIRTIO_MMIO_INT_VRING"

definition signal_config_change :: "'d mmio \<Rightarrow> 'd mmio" where
  "signal_config_change = try_signal VIRTIO_MMIO_INT_CONFIG"

definition mmio_interrupt :: "bool \<Rightarrow> u32 \<Rightarrow> 'd mmio \<Rightarrow> 'd mmio option" where
  "mmio_interrupt signalled irq_mask t =
     (if signalled then Some (t\<lparr>interrupt_status := interrupt_status t OR ucast irq_mask\<rparr>) else None)"

definition set_irq_line :: "bool \<Rightarrow> u32 \<Rightarrow> 'd mmio \<Rightarrow> 'd mmio" where
  "set_irq_line shared line t = (if shared then t else t\<lparr>irq_line := Some line\<rparr>)"

section \<open>Snapshots\<close>

record 's mmio_snapshot =
  ms_version :: u32
  ms_device_type :: u32
  ms_avail_features :: u64
  ms_acked_features :: u64
  ms_features_select :: u32
  ms_acked_features_select :: u32
  ms_queue_select :: u32
  ms_device_status :: u32
  ms_config_generation :: u32
  ms_shm_region_select :: u32
  ms_interrupt_status :: u32
  ms_irq_line :: "u32 option"
  ms_queues :: "queue_snapshot list option"
  ms_device :: "'s device_snapshot"

text \<open>Whether the lock of the device is free is an argument of both operations.\<close>

definition mmio_capture_state :: "('d, 's) virtio_ops \<Rightarrow> bool \<Rightarrow> 'd mmio \<Rightarrow> rstr + 's mmio_snapshot" where
  "mmio_capture_state ops unlocked t =
     (let d = mm_device t in
      bind_res (ensure unlocked ''virtio device busy or poisoned'') (\<lambda>_.
      bind_res (ensure (vo_shm_region ops d = None) ''DAX/SHM snapshot unsupported'') (\<lambda>_.
      bind_res (vo_capture_state ops d) (\<lambda>state.
      bind_res (ensure ((ds_queues state \<noteq> None) = vo_is_activated ops d)
        ''device queue ownership inconsistent'') (\<lambda>_.
      Inr \<lparr>ms_version = 1, ms_device_type = vo_device_type ops d, ms_avail_features = vo_avail_features ops d,
           ms_acked_features = vo_acked_features ops d, ms_features_select = features_select t,
           ms_acked_features_select = acked_features_select t, ms_queue_select = queue_select t,
           ms_device_status = device_status t, ms_config_generation = config_generation t,
           ms_shm_region_select = shm_region_select t, ms_interrupt_status = ucast (interrupt_status t),
           ms_irq_line = irq_line t, ms_queues = map_option (map capture_state) (mm_queues t),
           ms_device = state\<rparr>)))))"

text \<open>Errors of the guest memory, of an activation and of an event descriptor carry their own text.\<close>

datatype restore_error = Message rstr | Memory_Error | Activation_Error | Event_Error

definition as_message :: "rstr + 'a \<Rightarrow> restore_error + 'a" where
  "as_message r = (case r of Inl e \<Rightarrow> Inl (Message e) | Inr a \<Rightarrow> Inr a)"

definition snapshot_fits :: "('d, 's) virtio_ops \<Rightarrow> 's mmio_snapshot \<Rightarrow> 'd mmio \<Rightarrow> bool" where
  "snapshot_fits ops s t \<longleftrightarrow>
     (let active = ds_queues (ms_device s) \<noteq> None; d = mm_device t in
      \<not> (ms_version s \<noteq> 1 \<or> ms_device_type s \<noteq> vo_device_type ops d
         \<or> ms_avail_features s \<noteq> vo_avail_features ops d
         \<or> ms_acked_features s AND NOT (ms_avail_features s) \<noteq> 0
         \<or> ms_irq_line s \<noteq> irq_line t \<or> ms_interrupt_status s AND NOT 3 \<noteq> 0
         \<or> vo_is_activated ops d \<or> vo_shm_region ops d \<noteq> None
         \<or> active = (ms_queues s \<noteq> None)
         \<or> active \<noteq> (ms_device_status s AND DRIVER_OK \<noteq> 0)))"

definition queue_pending :: "'m guest_memory \<Rightarrow> 'm \<Rightarrow> queue \<Rightarrow> restore_error + bool" where
  "queue_pending g mem q =
     (if \<not> q_ready q then Inr False
      else (case load_u16 g mem (q_avail_ring q + 2) of
              Inl _ \<Rightarrow> Inl Memory_Error
            | Inr available \<Rightarrow> Inr (available \<noteq> q_next_avail q)))"

text \<open>The writes to the event descriptors of queues with work, up to the first that fails.\<close>

fun wake_queues :: "bool list \<Rightarrow> bool list \<Rightarrow> nat list \<Rightarrow> restore_error + nat list" where
  "wake_queues signalled (p # pending) (e # evts) =
     (if p \<and> \<not> hd signalled then Inl Event_Error
      else bind_res (wake_queues (tl signalled) pending evts) (\<lambda>es. Inr ((if p then e + 1 else e) # es)))"
| "wake_queues signalled _ evts = Inr evts"

definition restore_registers :: "'s mmio_snapshot \<Rightarrow> 'd mmio \<Rightarrow> 'd mmio" where
  "restore_registers s t =
     t\<lparr>features_select := ms_features_select s, acked_features_select := ms_acked_features_select s,
       queue_select := ms_queue_select s, device_status := ms_device_status s,
       config_generation := ms_config_generation s, shm_region_select := ms_shm_region_select s,
       interrupt_status := ucast (ms_interrupt_status s)\<rparr>"

definition restore_active ::
  "('d, 's) virtio_ops \<Rightarrow> 'm guest_memory \<Rightarrow> 'm \<Rightarrow> bool list \<Rightarrow> queue list \<Rightarrow> 'd \<Rightarrow> 'd mmio
    \<Rightarrow> restore_error + 'd mmio" where
  "restore_active ops g mem signalled qs d t =
     bind_res (collect_res (queue_pending g mem) qs) (\<lambda>pending.
     case vo_activate ops (zip qs [0..<length (queue_evts t)]) d of
       None \<Rightarrow> Inl Activation_Error
     | Some d' \<Rightarrow>
         bind_res (wake_queues signalled pending (queue_evts t)) (\<lambda>evts.
         Inr (t\<lparr>mm_device := d', queue_evts := evts, mm_queues := None\<rparr>)))"

definition mmio_restore_state ::
  "('d, 's) virtio_ops \<Rightarrow> 'm guest_memory \<Rightarrow> 'm \<Rightarrow> bool \<Rightarrow> bool list \<Rightarrow> 's mmio_snapshot \<Rightarrow> 'd mmio
    \<Rightarrow> restore_error + 'd mmio" where
  "mmio_restore_state ops g mem unlocked signalled s t =
     (let active = ds_queues (ms_device s) \<noteq> None in
      bind_res (ensure unlocked (Message ''virtio device busy or poisoned'')) (\<lambda>_.
      bind_res (ensure (snapshot_fits ops s t) (Message ''virtio topology, features or lifecycle mismatch'')) (\<lambda>_.
      bind_res (case (if active then ds_queues (ms_device s) else ms_queues s) of
                  None \<Rightarrow> Inl (Message ''missing virtqueues'') | Some saved \<Rightarrow> Inr saved) (\<lambda>saved.
      bind_res (ensure (length saved = length (queue_config t)) (Message ''virtqueue count mismatch'')) (\<lambda>_.
      bind_res (ensure (\<not> (active \<and> list_ex (\<lambda>q. qs_event_idx_enabled q
                             \<noteq> (ms_acked_features s AND event_idx_bit \<noteq> 0)) saved))
        (Message ''virtqueue notification feature mismatch'')) (\<lambda>_.
      bind_res (as_message (collect_res (\<lambda>(q, max_size). queue_restore g mem max_size q)
        (zip saved (queue_config t)))) (\<lambda>qs.
      bind_res (as_message (vo_restore_state ops (ds_state (ms_device s)) (mm_device t))) (\<lambda>d.
      let d = vo_set_acked_features ops (ms_acked_features s) d in
      bind_res (if active then restore_active ops g mem signalled qs d t
                else Inr (t\<lparr>mm_device := d, mm_queues := Some qs\<rparr>)) (\<lambda>t.
      Inr (restore_registers s t))))))))))"

section \<open>The configuration space\<close>

text \<open>A read gives the bytes of the configuration where they exist, and leaves the others alone.\<close>

lemma read_config_space_bytes:
  assumes "length config < 2 ^ 64" "length data < 2 ^ 64" "i < length data"
  shows "length (read_config_space config offset data) = length data"
    "read_config_space config offset data ! i =
       (if unat offset + length data < 2 ^ 64 \<and> unat offset + i < length config
        then config ! (unat offset + i) else data ! i)"
proof -
  have n: "unat (of_nat (length config) :: u64) = length config" "unat (of_nat (length data) :: u64) = length data"
    using assms(1, 2) by (simp_all only: unat_of_nat) simp_all
  have "length (read_config_space config offset data) = length data
    \<and> read_config_space config offset data ! i =
       (if unat offset + length data < 2 ^ 64 \<and> unat offset + i < length config
        then config ! (unat offset + i) else data ! i)"
  proof (cases "of_nat (length config) \<le> offset")
    case True
    then show ?thesis using n by (simp add: read_config_space_def word_le_nat_alt)
  next
    case False
    then have off: "unat offset < length config" using n by (simp add: word_le_nat_alt)
    show ?thesis
    proof (cases "checked_add offset (of_nat (length data))")
      case None
      moreover have "2 ^ 64 \<le> unat offset + length data" using None n by (simp add: checked_add_None_iff)
      ultimately show ?thesis using False by (simp add: read_config_space_def)
    next
      case (Some finish)
      have sum: "unat finish = unat offset + length data"
        using conjunct1 [OF checked_add_SomeD [OF Some]] unfolding n .
      have "unat finish < 2 ^ 64" using unsigned_less [where 'a = nat, of finish] by simp
      then have "unat offset + length data < 2 ^ 64" unfolding sum .
      moreover note sum
      moreover have "unat (min finish (of_nat (length config))) = min (unat finish) (length config)"
        using n by (simp add: min_def word_le_nat_alt)
      ultimately show ?thesis
        using Some False off assms(3) by (auto simp: read_config_space_def Let_def nth_append min_def)
    qed
  qed
  then show "length (read_config_space config offset data) = length data"
    "read_config_space config offset data ! i =
       (if unat offset + length data < 2 ^ 64 \<and> unat offset + i < length config
        then config ! (unat offset + i) else data ! i)" by simp_all
qed
section \<open>The interface\<close>

text \<open>What work on its queues leaves of a device: the features, and whether it is active.\<close>

definition keeps_lifecycle :: "('d, 's) virtio_ops \<Rightarrow> 'd \<Rightarrow> 'd \<Rightarrow> bool" where
  "keeps_lifecycle ops d d' \<longleftrightarrow>
     vo_avail_features ops d' = vo_avail_features ops d \<and> vo_acked_features ops d' = vo_acked_features ops d
     \<and> vo_is_activated ops d' = vo_is_activated ops d"

inductive mmio_step :: "('d, 's) virtio_ops \<Rightarrow> 'd mmio \<Rightarrow> 'd mmio \<Rightarrow> bool" for ops where
  guest_write: "mmio_write ops signalled offset data t = Some t' \<Longrightarrow> mmio_step ops t t'"
| device_signal: "mmio_step ops t (try_signal status t)"
| bus_interrupt: "mmio_interrupt signalled irq_mask t = Some t' \<Longrightarrow> mmio_step ops t t'"
| device_work: "keeps_lifecycle ops (mm_device t) d \<Longrightarrow> mmio_step ops t (t\<lparr>mm_device := d\<rparr>)"

inductive_cases mmio_stepE: "mmio_step ops t t'"

definition fresh_device :: "('d, 's) virtio_ops \<Rightarrow> 'd \<Rightarrow> bool" where
  "fresh_device ops d \<longleftrightarrow>
     \<not> vo_is_activated ops d \<and> vo_acked_features ops d AND NOT (vo_avail_features ops d) = 0"

definition idle_queue :: "queue \<Rightarrow> bool" where
  "idle_queue q \<longleftrightarrow>
     q_next_avail q = 0 \<and> q_next_used q = 0 \<and> q_num_added q = 0 \<and> \<not> q_event_idx_enabled q"

definition negotiated_queues :: "'d mmio \<Rightarrow> queue list \<Rightarrow> bool" where
  "negotiated_queues t qs \<longleftrightarrow>
     map q_max_size qs = queue_config t \<and> list_all idle_queue qs
     \<and> (device_status t AND FEATURES_OK = 0 \<longrightarrow> qs = create_queues (queue_config t))"

definition mmio_inv :: "('d, 's) virtio_ops \<Rightarrow> 'd mmio \<Rightarrow> bool" where
  "mmio_inv ops t \<longleftrightarrow>
     vo_acked_features ops (mm_device t) AND NOT (vo_avail_features ops (mm_device t)) = 0
     \<and> length (queue_evts t) = length (queue_config t)
     \<and> (vo_is_activated ops (mm_device t) \<longrightarrow> device_status t AND DRIVER_OK \<noteq> 0)
     \<and> (device_status t AND DRIVER_OK \<noteq> 0 \<and> device_status t AND FAILED = 0
          \<longrightarrow> vo_is_activated ops (mm_device t))
     \<and> (case mm_queues t of
          None \<Rightarrow> device_status t AND DRIVER_OK \<noteq> 0
        | Some qs \<Rightarrow> device_status t AND DRIVER_OK = 0 \<and> negotiated_queues t qs)"

lemma flag_bits:
  "w AND DRIVER_OK = 0 \<longleftrightarrow> \<not> bit w 2" "w AND FEATURES_OK = 0 \<longleftrightarrow> \<not> bit w 3" "w AND FAILED = 0 \<longleftrightarrow> \<not> bit w 7"
  using and_exp_eq_0_iff_not_bit [of w 2] and_exp_eq_0_iff_not_bit [of w 3] and_exp_eq_0_iff_not_bit [of w 7]
  by (simp_all add: status_defs)

text \<open>A status the driver writes has the bits that were clear exactly where they are announced.\<close>

lemma added_bits:
  assumes "NOT old AND status = (added :: u32)" "\<not> bit old n" "n < 32"
  shows "bit status n = bit added n"
  using assms by (auto simp: bit_simps)

lemma ack_AND_NOT: "(a OR v) AND NOT m = 0" if "a AND NOT m = 0" "v AND NOT m = 0" for a v m :: u64
  using that by (simp add: bit.conj_disj_distrib2)

lemma unrequested_removed: "(if v AND NOT m \<noteq> 0 then v AND NOT (v AND NOT m) else v) = v AND m" for v m :: u64
proof -
  have "v AND NOT (v AND NOT m) = v AND m" by (rule bit_word_eqI) (auto simp: bit_simps)
  moreover have "v = v AND m" if "v AND NOT m = 0"
  proof (rule bit_word_eqI)
    fix n assume "n < LENGTH(64)"
    moreover have "\<not> bit (v AND NOT m) n" using that by simp
    ultimately show "bit v n = bit (v AND m) n" by (auto simp: bit_simps)
  qed
  ultimately show ?thesis by auto
qed

lemma ack_features_eq:
  "ack_features_by_page ops page val d =
     vo_set_acked_features ops
       (vo_acked_features ops d OR
        ((if page = 0 then ucast val else if page = 1 then push_bit 32 (ucast val) else 0)
         AND vo_avail_features ops d)) d"
  unfolding ack_features_by_page_def Let_def unrequested_removed ..

lemma if_some_elim:
  assumes "(if b then x else y) = Some z"
  obtains "b" "x = Some z" | "\<not> b" "y = Some z"
  using assms by (auto split: if_splits)

locale virtio_device =
  fixes ops :: "('d, 's) virtio_ops"
  assumes set_acked: "vo_acked_features ops (vo_set_acked_features ops a d) = a"
      "vo_avail_features ops (vo_set_acked_features ops a d) = vo_avail_features ops d"
      "vo_is_activated ops (vo_set_acked_features ops a d) = vo_is_activated ops d"
    and write_config: "keeps_lifecycle ops d (vo_write_config ops offset data d)"
    and activate: "vo_activate ops qs d = Some d' \<Longrightarrow>
        vo_is_activated ops d' \<and> vo_avail_features ops d' = vo_avail_features ops d
        \<and> vo_acked_features ops d' = vo_acked_features ops d"
    and reset: "vo_reset ops d = (supported, d') \<Longrightarrow>
        vo_is_activated ops d' = (\<not> supported \<and> vo_is_activated ops d)
        \<and> vo_avail_features ops d' = vo_avail_features ops d
        \<and> vo_acked_features ops d' = vo_acked_features ops d"
begin

lemma inv_new: "fresh_device ops d \<Longrightarrow> mmio_inv ops (mmio_new ops d)"
  by (auto simp: mmio_inv_def mmio_new_def fresh_device_def negotiated_queues_def create_queues_def
      INIT_def queue_new_def idle_queue_def list_all_iff Let_def comp_def)

lemma inv_frame:
  assumes "mmio_inv ops t" "keeps_lifecycle ops (mm_device t) (mm_device t')" "device_status t' = device_status t"
    "mm_queues t' = mm_queues t" "queue_config t' = queue_config t" "length (queue_evts t') = length (queue_evts t)"
  shows "mmio_inv ops t'"
  using assms by (auto simp: mmio_inv_def keeps_lifecycle_def negotiated_queues_def split: option.splits)

lemma inv_ack: "mmio_inv ops t \<Longrightarrow> mmio_inv ops (t\<lparr>mm_device := ack_features_by_page ops page val (mm_device t)\<rparr>)"
  unfolding ack_features_eq
  by (simp add: mmio_inv_def negotiated_queues_def set_acked ack_AND_NOT and.assoc split: option.splits)

lemma inv_update_queue:
  assumes inv: "mmio_inv ops t" and f: "\<And>q. q_max_size (f q) = q_max_size q" "\<And>q. idle_queue q \<Longrightarrow> idle_queue (f q)"
  shows "mmio_inv ops (update_queue_field f t)"
proof (cases "check_device_status FEATURES_OK FAILED t \<and> (\<exists>qs. mm_queues t = Some qs \<and> unat (queue_select t) < length qs)")
  case True
  then obtain qs where qs: "mm_queues t = Some qs" "unat (queue_select t) < length qs" by blast
  let ?i = "unat (queue_select t)"
  have "device_status t AND FEATURES_OK \<noteq> 0"
  proof -
    have "bit (device_status t AND (FEATURES_OK OR FAILED)) 3"
      using True by (simp add: check_device_status_def status_defs)
    then show ?thesis by (simp add: flag_bits bit_and_iff)
  qed
  moreover have "map q_max_size (qs[?i := f (qs ! ?i)]) = map q_max_size qs"
    using qs(2) f(1) by (simp add: map_update list_update_same_conv)
  moreover have "list_all idle_queue qs \<Longrightarrow> list_all idle_queue (qs[?i := f (qs ! ?i)])"
    using qs(2) f(2) by (auto simp: list_all_length nth_list_update)
  ultimately show ?thesis
    using inv qs True by (auto simp: mmio_inv_def negotiated_queues_def update_queue_field_def with_queue_mut_def)
next
  case False
  then have "update_queue_field f t = t"
    by (auto simp: update_queue_field_def with_queue_mut_def split: option.splits)
  then show ?thesis using inv by simp
qed

lemma inv_early_status:
  assumes "mmio_inv ops t" "\<not> bit (device_status t) 2" "\<not> bit (device_status t) 3"
    "\<not> bit status 2" "NOT (device_status t) AND status = added"
  shows "mmio_inv ops (t\<lparr>device_status := status\<rparr>)"
proof -
  have "\<not> vo_is_activated ops (mm_device t)" using assms by (auto simp: mmio_inv_def flag_bits)
  moreover obtain qs where "mm_queues t = Some qs" "negotiated_queues t qs"
    using assms(1, 2) by (auto simp: mmio_inv_def flag_bits split: option.splits)
  moreover have "negotiated_queues (t\<lparr>device_status := status\<rparr>) qs"
    using calculation(3) assms(3) by (auto simp: negotiated_queues_def flag_bits)
  ultimately show ?thesis using assms(1, 4) by (auto simp: mmio_inv_def flag_bits)
qed

lemma inv_activate:
  assumes inv: "mmio_inv ops t" and old: "device_status t = ACKNOWLEDGE OR DRIVER OR FEATURES_OK"
    and status: "bit status 2"
    and t': "mmio_activate ops (t\<lparr>device_status := status\<rparr>) = Some t'"
  shows "mmio_inv ops t'"
proof -
  have "\<not> bit (device_status t) 2" by (simp add: old status_defs)
  then obtain qs where qs: "mm_queues t = Some qs"
    using inv by (auto simp: mmio_inv_def flag_bits split: option.splits)
  then obtain dqs d where d: "vo_activate ops dqs (mm_device t) = Some d"
    and eq: "t' = t\<lparr>device_status := status, mm_queues := None, mm_device := d\<rparr>"
    using t' by (auto simp: mmio_activate_def Let_def)
  show ?thesis using activate [OF d] inv status unfolding eq by (simp add: mmio_inv_def flag_bits)
qed

lemma inv_failed: "mmio_inv ops t \<Longrightarrow> mmio_inv ops (t\<lparr>device_status := device_status t OR FAILED\<rparr>)"
  by (auto simp: mmio_inv_def negotiated_queues_def flag_bits bit_or_iff FAILED_def split: option.splits)

lemma inv_device_reset:
  assumes inv: "mmio_inv ops t"
    and t': "t' = (if vo_is_activated ops (mm_device t)
                   then (let (supported, d) = vo_reset ops (mm_device t); u = t\<lparr>mm_device := d\<rparr>
                         in if supported then u else u\<lparr>device_status := device_status u OR FAILED\<rparr>)
                   else t)"
  shows "mmio_inv ops (if device_status t' AND FAILED = 0 then mmio_reset t' else t')"
proof (cases "vo_is_activated ops (mm_device t)")
  case True
  obtain supported d where r: "vo_reset ops (mm_device t) = (supported, d)" by fastforce
  have queues: "mm_queues t = None" "bit (device_status t) 2"
    using inv True by (auto simp: mmio_inv_def flag_bits split: option.splits)
  show ?thesis
    using True r t' inv queues reset [OF r]
    by (auto simp: mmio_inv_def mmio_reset_def negotiated_queues_def create_queues_def queue_new_def
        idle_queue_def flag_bits bit_or_iff FAILED_def INIT_def list_all_iff comp_def)
next
  case False
  then show ?thesis
    using t' inv
    by (auto simp: mmio_inv_def mmio_reset_def negotiated_queues_def create_queues_def queue_new_def
        idle_queue_def flag_bits INIT_def list_all_iff comp_def)
qed

lemma inv_set_device_status:
  assumes inv: "mmio_inv ops t" and t': "set_device_status ops status t = Some t'"
  shows "mmio_inv ops t'"
proof -
  let ?old = "device_status t" and ?added = "NOT (device_status t) AND status"
  have new: "bit status n = bit ?added n" if "\<not> bit ?old n" "n < 32" for n
    using added_bits [OF refl that] .
  consider (early) "t' = t\<lparr>device_status := status\<rparr>" "\<not> bit ?old 2" "\<not> bit ?old 3" "\<not> bit status 2"
    | (live) "?old = ACKNOWLEDGE OR DRIVER OR FEATURES_OK" "bit status 2"
        "(if vo_is_activated ops (mm_device t) then Some (t\<lparr>device_status := status\<rparr>)
          else mmio_activate ops (t\<lparr>device_status := status\<rparr>)) = Some t'"
    | (failed) "t' = t\<lparr>device_status := ?old OR FAILED\<rparr>"
    | (reset) "status = 0" "set_device_status ops 0 t = Some t'"
    | (refused) "t' = t"
    using t' new [of 2]
    by (auto simp: set_device_status_def Let_def status_defs split: if_splits)
  then show ?thesis
  proof cases
    case early
    then show ?thesis using inv_early_status [OF inv] by blast
  next
    case live
    then have "\<not> vo_is_activated ops (mm_device t)" using inv by (auto simp: mmio_inv_def status_defs)
    then show ?thesis using inv_activate [OF inv live(1, 2)] live(3) by simp
  next
    case reset
    then show ?thesis
      using inv_device_reset [OF inv refl] by (simp add: set_device_status_def status_defs Let_def)
  qed (use inv inv_failed in auto)
qed

lemma inv_write_register:
  assumes inv: "mmio_inv ops t" and t': "mmio_write_register ops signalled offset v t = Some t'"
  shows "mmio_inv ops t'"
proof -
  have queue: "mmio_inv ops (update_queue_field f t)"
    if "\<And>q. q_max_size (f q) = q_max_size q" "\<And>q. idle_queue (f q) = idle_queue q" for f
    using inv_update_queue [OF inv] that by blast
  have frame: "mmio_inv ops u"
    if "mm_device u = mm_device t" "device_status u = device_status t" "mm_queues u = mm_queues t"
      "queue_config u = queue_config t" "length (queue_evts u) = length (queue_evts t)" for u
    using inv_frame [OF inv] that by (simp add: keeps_lifecycle_def)
  have notify: "mmio_notify signalled v t = Some t' \<Longrightarrow> mmio_inv ops t'"
    by (rule frame) (auto simp: mmio_notify_def split: if_splits)
  show ?thesis
    using t' unfolding mmio_write_register_def
    by (elim if_some_elim)
      (auto intro!: queue inv_ack [OF inv] intro: frame inv simp: idle_queue_def
        dest: notify inv_set_device_status [OF inv])
qed

lemma inv_write:
  "mmio_inv ops t \<Longrightarrow> mmio_write ops signalled offset data t = Some t' \<Longrightarrow> mmio_inv ops t'"
  using inv_frame [of t "t\<lparr>mm_device := vo_write_config ops (offset - 0x100) data (mm_device t)\<rparr>"] write_config
  by (auto simp: mmio_write_def intro: inv_write_register split: if_splits)

lemma inv_step: "mmio_inv ops t \<Longrightarrow> mmio_step ops t t' \<Longrightarrow> mmio_inv ops t'"
  by (elim mmio_stepE)
    (auto simp: mmio_interrupt_def try_signal_def keeps_lifecycle_def
      intro: inv_write inv_frame split: if_splits)

end

interpretation transport: state_machine
  "\<lambda>t. virtio_device ops \<and> (\<exists>d. fresh_device ops d \<and> t = mmio_new ops d)" "mmio_step ops"
  "\<lambda>t. virtio_device ops \<and> mmio_inv ops t" for ops
  by unfold_locales (auto intro: virtio_device.inv_new virtio_device.inv_step)

lemma register_config:
  assumes "mmio_write_register ops signalled offset v t = Some t'"
  shows "queue_config t' = queue_config t"
proof -
  have queue: "queue_config (update_queue_field f t) = queue_config t" for f
    by (simp add: update_queue_field_def with_queue_mut_def split: option.splits)
  have status: "set_device_status ops status t = Some t' \<Longrightarrow> queue_config t' = queue_config t" for status
    by (auto simp: set_device_status_def mmio_activate_def mmio_reset_def Let_def
        split: if_splits option.splits prod.splits)
  show ?thesis
    using assms unfolding mmio_write_register_def
    by (elim if_some_elim) (auto simp: queue mmio_notify_def dest: status split: if_splits)
qed

lemma step_config: "mmio_step ops t t' \<Longrightarrow> queue_config t' = queue_config t"
  by (elim mmio_stepE)
    (auto simp: mmio_write_def mmio_interrupt_def try_signal_def dest: register_config split: if_splits)

lemma steps_config: "(mmio_step ops)\<^sup>*\<^sup>* t t' \<Longrightarrow> queue_config t' = queue_config t"
  by (induction rule: rtranclp_induct) (simp_all add: step_config)

section \<open>Properties\<close>

text \<open>
  C10. Queues are owned by one side. After any accesses of the guest, interrupts and work of the
  device, the transport holds the queues exactly while the driver has not announced that it is
  ready; the device is active only after that, and it is active from then on unless the transport
  has failed. Queues the transport holds keep the sizes the device asked for, were never used,
  and have not been configured before the features were agreed. The driver never gets a feature
  that the device does not offer.
\<close>

theorem transport_lifecycle:
  assumes "virtio_device ops" "fresh_device ops d" "(mmio_step ops)\<^sup>*\<^sup>* (mmio_new ops d) t"
  shows "vo_acked_features ops (mm_device t) AND NOT (vo_avail_features ops (mm_device t)) = 0
    \<and> (mm_queues t = None \<longleftrightarrow> device_status t AND DRIVER_OK \<noteq> 0)
    \<and> (vo_is_activated ops (mm_device t) \<longrightarrow> device_status t AND DRIVER_OK \<noteq> 0)
    \<and> (device_status t AND DRIVER_OK \<noteq> 0 \<and> device_status t AND FAILED = 0
         \<longrightarrow> vo_is_activated ops (mm_device t))
    \<and> (\<forall>qs. mm_queues t = Some qs \<longrightarrow> map q_max_size qs = vo_queue_config ops d \<and> list_all idle_queue qs
         \<and> (device_status t AND FEATURES_OK = 0 \<longrightarrow> qs = create_queues (vo_queue_config ops d)))"
proof -
  have "mmio_inv ops t" using transport.inv_reachable assms by blast
  moreover have "queue_config t = vo_queue_config ops d"
    using steps_config [OF assms(3)] by (simp add: mmio_new_def Let_def)
  ultimately show ?thesis by (auto simp: mmio_inv_def negotiated_queues_def split: option.splits)
qed

text \<open>
  A failure is final: whatever the driver writes, a status of zero included, the transport stays
  failed and the driver cannot initialise it again.
\<close>

lemma failed_stays:
  assumes "device_status t AND FAILED \<noteq> 0" "mmio_step ops t t'"
  shows "device_status t' AND FAILED \<noteq> 0"
proof -
  have "bit (device_status t) 7" using assms(1) by (simp add: flag_bits)
  then have old: "device_status t \<noteq> 0" "device_status t \<noteq> 1" "device_status t \<noteq> 3" "device_status t \<noteq> 11" by auto
  have queue: "device_status (update_queue_field f t) = device_status t" for f
    by (simp add: update_queue_field_def with_queue_mut_def split: option.splits)
  have status: "set_device_status ops status t = Some t' \<Longrightarrow> device_status t' AND FAILED \<noteq> 0" for status
    using assms(1) old
    by (auto simp: set_device_status_def Let_def status_defs flag_bits bit_or_iff
        split: if_splits option.splits prod.splits)
  have register: "mmio_write_register ops signalled offset v t = Some t' \<Longrightarrow> device_status t' AND FAILED \<noteq> 0"
    for signalled offset v
    using assms(1) unfolding mmio_write_register_def
    by (elim if_some_elim) (auto simp: queue mmio_notify_def dest: status split: if_splits)
  show ?thesis
    using assms by (elim mmio_stepE)
      (auto simp: mmio_write_def mmio_interrupt_def try_signal_def dest: register split: if_splits)
qed

theorem failed_transport_is_final:
  assumes "device_status t AND FAILED \<noteq> 0" "(mmio_step ops)\<^sup>*\<^sup>* t t'"
  shows "device_status t' AND FAILED \<noteq> 0"
  using assms(2) by (induction rule: rtranclp_induct) (use assms(1) failed_stays in blast)+

end
