(* ===== verification/Mmio_Init.thy ===== *)
theory Mmio_Init
  imports Mmio
begin

text \<open>
  What a driver and a snapshot get from the MMIO transport: the sequence of register writes that
  initialises a device, and the state that a snapshot carries to a fresh transport
  (\<open>crates/pvisor-vm/src/devices/virtio/mmio.rs\<close>).
\<close>

unbundle bit_operations_syntax

section \<open>The initialisation of a driver\<close>

definition put_register :: "('d, 's) virtio_ops \<Rightarrow> u64 \<Rightarrow> u32 \<Rightarrow> 'd mmio \<Rightarrow> 'd mmio option" where
  "put_register ops offset v t = mmio_write ops True offset (le_bytes 4 (unat v)) t"

fun write_all :: "('d, 's) virtio_ops \<Rightarrow> (u64 \<times> u32) list \<Rightarrow> 'd mmio \<Rightarrow> 'd mmio option" where
  "write_all ops [] t = Some t"
| "write_all ops ((offset, v) # ws) t =
     Option.bind (put_register ops offset v t) (write_all ops ws)"

text \<open>The size and the three addresses the driver chose for a queue.\<close>

type_synonym queue_setup = "u16 \<times> u64 \<times> u64 \<times> u64"

definition queue_writes :: "nat \<Rightarrow> queue_setup \<Rightarrow> (u64 \<times> u32) list" where
  "queue_writes i s =
     (case s of (n, desc, avail, used) \<Rightarrow>
        [(0x30, of_nat i), (0x38, ucast n), (0x80, ucast desc), (0x84, ucast (drop_bit 32 desc)),
         (0x90, ucast avail), (0x94, ucast (drop_bit 32 avail)),
         (0xa0, ucast used), (0xa4, ucast (drop_bit 32 used)), (0x44, 1)])"

definition configured :: "queue_setup \<Rightarrow> queue \<Rightarrow> queue" where
  "configured s q =
     (case s of (n, desc, avail, used) \<Rightarrow>
        q\<lparr>q_size := n, q_desc_table := desc, q_avail_ring := avail, q_used_ring := used, q_ready := True\<rparr>)"

fun setup_writes :: "nat \<Rightarrow> queue_setup list \<Rightarrow> (u64 \<times> u32) list" where
  "setup_writes k [] = []"
| "setup_writes k (s # ss) = queue_writes k s @ setup_writes (Suc k) ss"

definition init_writes :: "u64 \<Rightarrow> queue_setup list \<Rightarrow> (u64 \<times> u32) list" where
  "init_writes features ss =
     [(0x70, 1), (0x70, 3), (0x24, 0), (0x20, ucast features), (0x24, 1),
      (0x20, ucast (drop_bit 32 features)), (0x70, 11)] @ setup_writes 0 ss @ [(0x70, 15)]"

lemma read_written: "read_le_u32 (le_bytes 4 (unat v)) = v"
  using le_word_bytes [of 4 v] by (simp add: read_le_u32_def)

lemma write_register:
  "offset \<le> 0xff \<Longrightarrow> put_register ops offset v t = mmio_write_register ops True offset v t"
  by (simp add: put_register_def mmio_write_def read_written)

lemma write_all_append: "write_all ops (us @ vs) t = Option.bind (write_all ops us t) (write_all ops vs)"
  by (induction us arbitrary: t) (auto split: Option.bind_splits)

lemma low_bits: "bit (0xffffffff :: u64) n \<longleftrightarrow> n < 32"
proof -
  have m: "(0xffffffff :: u64) = mask 32" by (simp add: mask_eq_exp_minus_1)
  show ?thesis unfolding m bit_mask_iff by auto
qed

lemma join_halves:
  assumes m: "\<And>n. bit m n \<longleftrightarrow> n < 32"
  shows "((v AND NOT m OR ucast (ucast a :: u32)) AND m) OR push_bit 32 (ucast (ucast (drop_bit 32 a) :: u32))
    = (a :: u64)" (is "?joined = _")
proof (rule bit_word_eqI)
  fix n assume "n < LENGTH(64)"
  then show "bit ?joined n = bit a n"
    by (cases "n < 32")
      (auto simp: m bit_or_iff bit_and_iff bit_not_iff bit_push_bit_iff bit_unsigned_iff bit_drop_bit_eq)
qed

lemma write_all_Nil [simp]: "write_all ops [] = Some"
  by (rule ext) simp

lemma addr_join: "addr_hi (ucast (drop_bit 32 a)) (addr_lo (ucast a) v) = a"
  unfolding addr_hi_def addr_lo_def by (rule join_halves) (rule low_bits)

lemma queue_size_register: "ucast (ucast n :: u32) = (n :: u16)"
  by (rule bit_word_eqI) (auto simp: bit_simps)

lemma update_selected:
  assumes "check_device_status FEATURES_OK FAILED t" "mm_queues t = Some qs" "unat (queue_select t) = i" "i < length qs"
  shows "update_queue_field f t = t\<lparr>mm_queues := Some (qs[i := f (qs ! i)])\<rparr>"
  using assms by (simp add: update_queue_field_def with_queue_mut_def)

lemma setup_one:
  assumes "check_device_status FEATURES_OK FAILED t" "mm_queues t = Some qs" "i < length qs" "i < 2 ^ 32"
  shows "write_all ops (queue_writes i s) t =
    Some (t\<lparr>queue_select := of_nat i, mm_queues := Some (qs[i := configured s (qs ! i)])\<rparr>)"
proof -
  obtain n desc avail used where s: "s = (n, desc, avail, used)" by (cases s)
  let ?t = "\<lambda>q. t\<lparr>queue_select := of_nat i, mm_queues := Some (qs[i := q])\<rparr>"
  have i: "unat (of_nat i :: u32) = i" using assms(4) by (simp add: unat_of_nat)
  have ok: "check_device_status FEATURES_OK FAILED (?t q)"
    "check_device_status FEATURES_OK FAILED (t\<lparr>queue_select := of_nat i\<rparr>)" for q
    using assms(1) by (simp_all add: check_device_status_def)
  have first: "update_queue_field f (t\<lparr>queue_select := of_nat i\<rparr>) = ?t (f (qs ! i))" for f
    using update_selected [OF ok(2), of qs i] assms i by simp
  have step: "update_queue_field f (?t q) = ?t (f q)" for f q
    using update_selected [OF ok(1), of q "qs[i := q]" i f] assms i by simp
  show ?thesis
    unfolding s queue_writes_def prod.case configured_def write_all.simps
    by (simp add: write_register mmio_write_register_def first step addr_join queue_size_register)
qed

lemma setup_all:
  assumes "check_device_status FEATURES_OK FAILED t" "mm_queues t = Some qs"
    "k + length ss = length qs" "length qs < 2 ^ 32"
  shows "\<exists>sel. write_all ops (setup_writes k ss) t =
    Some (t\<lparr>queue_select := sel, mm_queues := Some (take k qs @ map2 configured ss (drop k qs))\<rparr>)"
  using assms
proof (induction ss arbitrary: k t qs)
  case Nil
  then show ?case by (intro exI [of _ "queue_select t"]) simp
next
  case (Cons s ss)
  let ?qs = "qs[k := configured s (qs ! k)]" and ?t = "\<lambda>sel qs. t\<lparr>queue_select := sel, mm_queues := Some qs\<rparr>"
  have k: "k < length qs" using Cons.prems(3) by simp
  have one: "write_all ops (queue_writes k s) t = Some (?t (of_nat k) ?qs)"
    using setup_one [OF Cons.prems(1, 2) k] Cons.prems(4) k by simp
  have "check_device_status FEATURES_OK FAILED (?t (of_nat k) ?qs)"
    using Cons.prems(1) by (simp add: check_device_status_def)
  then obtain sel where rest: "write_all ops (setup_writes (Suc k) ss) (?t (of_nat k) ?qs) =
      Some (?t sel (take (Suc k) ?qs @ map2 configured ss (drop (Suc k) ?qs)))"
    using Cons.IH [of "?t (of_nat k) ?qs" ?qs "Suc k"] Cons.prems(3, 4) by fastforce
  have "take (Suc k) ?qs = take k qs @ [configured s (qs ! k)]"
    using k by (simp add: take_Suc_conv_app_nth)
  moreover have "drop k qs = qs ! k # drop (Suc k) qs" using k by (simp add: Cons_nth_drop_Suc)
  ultimately have "take (Suc k) ?qs @ map2 configured ss (drop (Suc k) ?qs)
      = take k qs @ map2 configured (s # ss) (drop k qs)" by simp
  then show ?case using one rest by (intro exI [of _ sel]) (simp add: write_all_append)
qed

lemma write_status: "put_register ops 0x70 v t = set_device_status ops v t"
  by (simp add: write_register mmio_write_register_def)

lemma features_join:
  "(a OR (ucast (ucast f :: u32) AND m)) OR (push_bit 32 (ucast (ucast (drop_bit 32 f) :: u32)) AND m)
     = a OR (f AND m)" for a f m :: u64
proof (rule bit_word_eqI)
  fix n assume "n < LENGTH(64)"
  then show "bit ((a OR (ucast (ucast f :: u32) AND m)) OR (push_bit 32 (ucast (ucast (drop_bit 32 f) :: u32)) AND m)) n
      = bit (a OR (f AND m)) n"
    by (cases "n < 32") (auto simp: bit_or_iff bit_and_iff bit_push_bit_iff bit_unsigned_iff bit_drop_bit_eq)
qed

definition negotiated :: "('d, 's) virtio_ops \<Rightarrow> u64 \<Rightarrow> 'd \<Rightarrow> 'd" where
  "negotiated ops features d =
     ack_features_by_page ops 1 (ucast (drop_bit 32 features)) (ack_features_by_page ops 0 (ucast features) d)"

lemma negotiated_facts:
  assumes "virtio_device ops"
  shows "vo_acked_features ops (negotiated ops features d)
      = vo_acked_features ops d OR (features AND vo_avail_features ops d)"
    "vo_avail_features ops (negotiated ops features d) = vo_avail_features ops d"
    "vo_is_activated ops (negotiated ops features d) = vo_is_activated ops d"
  by (simp_all add: negotiated_def ack_features_eq virtio_device.set_acked [OF assms] features_join)

lemma negotiation:
  "write_all ops [(0x70, 1), (0x70, 3), (0x24, 0), (0x20, ucast features), (0x24, 1),
      (0x20, ucast (drop_bit 32 features)), (0x70, 11)] (mmio_new ops d)
    = Some ((mmio_new ops d)\<lparr>mm_device := negotiated ops features d, acked_features_select := 1, device_status := 11\<rparr>)"
  by (simp add: write_status set_device_status_def write_register mmio_write_register_def check_device_status_def
      mmio_new_def negotiated_def status_defs Let_def)

text \<open>
  C16. The initialisation a conforming driver performs works on every device that activates: written
  register by register in 32-bit accesses, it hands the device exactly the queues the driver described,
  with their sizes and 64-bit addresses, the event index switched on exactly when it was
  agreed, and the features are those the driver asked for and the device offers. Only a device
  that refuses its activation stops the program.
\<close>

theorem driver_initialisation:
  assumes "virtio_device ops" "\<not> vo_is_activated ops d" "length ss = length (vo_queue_config ops d)" "length ss < 2 ^ 32"
  shows "vo_acked_features ops (negotiated ops features d)
      = vo_acked_features ops d OR (features AND vo_avail_features ops d)
    \<and> (case vo_activate ops
             (zip (map2 (\<lambda>s n. set_event_idx
                           ((vo_acked_features ops d OR (features AND vo_avail_features ops d)) AND event_idx_bit \<noteq> 0)
                           (configured s (queue_new n))) ss (vo_queue_config ops d))
                  [0..<length ss])
             (negotiated ops features d) of
         None \<Rightarrow> write_all ops (init_writes features ss) (mmio_new ops d) = None
       | Some d' \<Rightarrow> \<exists>t. write_all ops (init_writes features ss) (mmio_new ops d) = Some t
                     \<and> mm_device t = d' \<and> mm_queues t = None \<and> device_status t = 15)"
proof -
  let ?config = "vo_queue_config ops d" and ?d = "negotiated ops features d"
  let ?t = "(mmio_new ops d)\<lparr>mm_device := ?d, acked_features_select := 1, device_status := 11\<rparr>"
  have t: "check_device_status FEATURES_OK FAILED ?t" "mm_queues ?t = Some (create_queues ?config)"
    by (simp_all add: check_device_status_def status_defs mmio_new_def Let_def)
  obtain sel where queues: "write_all ops (setup_writes 0 ss) ?t =
      Some (?t\<lparr>queue_select := sel, mm_queues := Some (map2 configured ss (create_queues ?config))\<rparr>)"
    using setup_all [OF t, of 0 ss ops] assms(3, 4) by (auto simp: create_queues_def)
  have zips: "map2 (\<lambda>s n. f (configured s (queue_new n))) ss ?config
      = map f (map2 configured ss (create_queues ?config))" for f
    by (simp add: create_queues_def zip_map2 comp_def case_prod_beta)
  have pairs: "map (\<lambda>(q, e). (f q, e)) (zip qs es) = zip (map f qs) es" for f :: "queue \<Rightarrow> queue" and qs and es :: "nat list"
    by (simp add: zip_map1 case_prod_beta)
  have all: "write_all ops (init_writes features ss) (mmio_new ops d) =
      set_device_status ops 15 (?t\<lparr>queue_select := sel, mm_queues := Some (map2 configured ss (create_queues ?config))\<rparr>)"
    unfolding init_writes_def write_all_append negotiation using queues by (simp add: write_status Option.bind_runit)
  show ?thesis
    using assms(2, 3) negotiated_facts [OF assms(1)]
    unfolding all
    by (auto simp: set_device_status_def status_defs mmio_activate_def device_queues_def Let_def zips pairs
        mmio_new_def split: option.splits)
qed

section \<open>Restoring a snapshot\<close>

lemma restore_queue:
  "queue_restore g mem n s = Inr q \<Longrightarrow> capture_state q = s \<and> (q_ready q \<longrightarrow> valid_layout g mem q)"
  by (cases s) (auto simp: queue_restore_def capture_state_def Let_def split: if_splits)

lemma restore_queues:
  assumes "list_all2 (\<lambda>q n. \<not> isl (queue_restore g mem n q)) saved config"
  shows "\<exists>qs. collect_res (\<lambda>(q, n). queue_restore g mem n q) (zip saved config) = Inr qs
    \<and> map capture_state qs = saved \<and> list_all (\<lambda>q. q_ready q \<longrightarrow> valid_layout g mem q) qs"
  using assms
proof (induction rule: list_all2_induct)
  case (Cons s saved n config)
  then obtain q qs where q: "queue_restore g mem n s = Inr q"
    and qs: "collect_res (\<lambda>(q, n). queue_restore g mem n q) (zip saved config) = Inr qs"
      "map capture_state qs = saved" "list_all (\<lambda>q. q_ready q \<longrightarrow> valid_layout g mem q) qs"
    by (auto dest: not_isl_InrD)
  then show ?case using restore_queue [OF q] by (intro exI [of _ "q # qs"]) simp
qed simp

text \<open>Whether the guest has made requests available that the device has not taken.\<close>

definition waiting :: "'m guest_memory \<Rightarrow> 'm \<Rightarrow> queue_snapshot \<Rightarrow> bool" where
  "waiting g mem s \<longleftrightarrow> qs_ready s \<and> load_u16 g mem (qs_avail_ring s + 2) \<noteq> Inr (qs_next_avail s)"

lemma queue_pending_waiting:
  assumes "guest_memory_laws g" "q_ready q \<longrightarrow> valid_layout g mem q"
  shows "queue_pending g mem q = Inr (waiting g mem (capture_state q))"
proof (cases "q_ready q")
  case True
  then have "valid_layout g mem q" using assms(2) by simp
  note area = valid_layout_facts(1) [OF this]
  have two: "unat (2 :: u64) + 2 \<le> 6 + 2 * unat (q_size q)" by simp
  obtain w where "load_u16 g mem (q_avail_ring q + 2) = Inr w"
    by (rule load_area [OF assms(1) area two])
  then show ?thesis using True by (auto simp: queue_pending_def waiting_def capture_state_def)
qed (simp add: queue_pending_def waiting_def capture_state_def)

lemma collect_pending:
  assumes "guest_memory_laws g" "list_all (\<lambda>q. q_ready q \<longrightarrow> valid_layout g mem q) qs"
  shows "collect_res (queue_pending g mem) qs = Inr (map (waiting g mem) (map capture_state qs))"
  using assms(2) by (induction qs) (simp_all add: queue_pending_waiting [OF assms(1)])

lemma wake_all:
  "length pending = length evts \<Longrightarrow>
     wake_queues (replicate (length evts) True) pending evts = Inr (map2 (\<lambda>p e. if p then e + 1 else e) pending evts)"
  by (induction pending evts rule: list_induct2) auto

definition keeps_identity :: "('d, 's) virtio_ops \<Rightarrow> 'd \<Rightarrow> 'd \<Rightarrow> bool" where
  "keeps_identity ops d d' \<longleftrightarrow>
     vo_device_type ops d' = vo_device_type ops d \<and> vo_avail_features ops d' = vo_avail_features ops d
     \<and> vo_shm_region ops d' = vo_shm_region ops d \<and> vo_queue_config ops d' = vo_queue_config ops d"

text \<open>
  A device with snapshots: \<open>alike d d0\<close> says that \<open>d0\<close> is a device built afresh for the place of \<open>d\<close>.
\<close>

locale snapshot_device = virtio_device ops for ops :: "('d, 's) virtio_ops" +
  fixes alike :: "'d \<Rightarrow> 'd \<Rightarrow> bool"
  assumes alike: "alike d d0 \<Longrightarrow> keeps_identity ops d d0 \<and> \<not> vo_is_activated ops d0"
    and set_acked_identity: "keeps_identity ops d (vo_set_acked_features ops a d)"
    and activate_identity: "vo_activate ops qs d = Some d' \<Longrightarrow> keeps_identity ops d d'"
    and activates: "length qs = length (vo_queue_config ops d) \<Longrightarrow> vo_activate ops qs d \<noteq> None"
    and restores: "vo_capture_state ops d = Inr s \<Longrightarrow> alike d d0 \<Longrightarrow>
        \<exists>d1. vo_restore_state ops (ds_state s) d0 = Inr d1 \<and> keeps_identity ops d0 d1 \<and> keeps_lifecycle ops d0 d1"
    and recaptures_inactive: "vo_capture_state ops d = Inr s \<Longrightarrow> alike d d0 \<Longrightarrow> ds_queues s = None \<Longrightarrow>
        vo_restore_state ops (ds_state s) d0 = Inr d1 \<Longrightarrow>
        vo_capture_state ops (vo_set_acked_features ops a d1) = Inr s"
    and recaptures_active: "vo_capture_state ops d = Inr s \<Longrightarrow> alike d d0 \<Longrightarrow>
        ds_queues s = Some (map capture_state (map fst dqs)) \<Longrightarrow>
        vo_restore_state ops (ds_state s) d0 = Inr d1 \<Longrightarrow>
        vo_activate ops dqs (vo_set_acked_features ops a d1) = Some d2 \<Longrightarrow> vo_capture_state ops d2 = Inr s"
begin

lemma restored_device:
  assumes "vo_capture_state ops d = Inr s" "alike d d0" "a AND NOT (vo_avail_features ops d) = 0"
  obtains d1 where "vo_restore_state ops (ds_state s) d0 = Inr d1"
    "keeps_identity ops d (vo_set_acked_features ops a d1)" "\<not> vo_is_activated ops (vo_set_acked_features ops a d1)"
    "vo_acked_features ops (vo_set_acked_features ops a d1) = a"
proof -
  obtain d1 where d1: "vo_restore_state ops (ds_state s) d0 = Inr d1" "keeps_identity ops d0 d1" "keeps_lifecycle ops d0 d1"
    using restores [OF assms(1, 2)] by blast
  then have "keeps_identity ops d (vo_set_acked_features ops a d1)"
    using alike [OF assms(2)] set_acked_identity [of d1 a] by (simp add: keeps_identity_def)
  then show thesis
    using that d1 alike [OF assms(2)] by (simp add: set_acked keeps_lifecycle_def)
qed

lemma capture_restored:
  assumes cap: "mmio_capture_state ops True t = Inr s" and ident: "keeps_identity ops (mm_device t) (mm_device u)"
    and dev: "vo_capture_state ops (mm_device u) = Inr (ms_device s)"
      "vo_is_activated ops (mm_device u) = vo_is_activated ops (mm_device t)"
      "vo_acked_features ops (mm_device u) = vo_acked_features ops (mm_device t)"
    and queues: "map_option (map capture_state) (mm_queues u) = ms_queues s" and irq: "irq_line u = irq_line t"
  shows "mmio_capture_state ops True (restore_registers s u) = Inr s"
proof -
  have "ucast (ucast (ms_interrupt_status s) :: u64) = ms_interrupt_status s"
    by (rule bit_word_eqI) (auto simp: bit_simps)
  then show ?thesis
    using assms by (auto simp: mmio_capture_state_def restore_registers_def keeps_identity_def Let_def res_simps ensure_def
        split: if_splits)
qed

lemma fits_fresh:
  assumes inv: "mmio_inv ops t" and cap: "mmio_capture_state ops True t = Inr s"
    and d0: "alike (mm_device t) d0" and agrees: "vo_is_activated ops (mm_device t) \<longleftrightarrow> device_status t AND DRIVER_OK \<noteq> 0"
    and intr: "(ucast (interrupt_status t) :: u32) AND NOT 3 = 0"
  shows "snapshot_fits ops s ((mmio_new ops d0)\<lparr>irq_line := irq_line t\<rparr>)"
  using assms alike [OF d0]
  by (auto simp: mmio_capture_state_def snapshot_fits_def mmio_inv_def keeps_identity_def mmio_new_def Let_def
      res_simps ensure_def split: if_splits option.splits)

lemma restore_inactive:
  assumes fits: "snapshot_fits ops s t0" and cap: "mmio_capture_state ops True t = Inr s"
    and d0: "alike (mm_device t) (mm_device t0)" and idle: "\<not> vo_is_activated ops (mm_device t)"
    and acked: "vo_acked_features ops (mm_device t) AND NOT (vo_avail_features ops (mm_device t)) = 0"
    and saved: "ms_queues s = Some saved"
      "list_all2 (\<lambda>q n. \<not> isl (queue_restore g mem n q)) saved (queue_config t0)"
    and irq: "irq_line t0 = irq_line t"
  shows "\<exists>t'. mmio_restore_state ops g mem True signalled s t0 = Inr t'
    \<and> mmio_capture_state ops True t' = Inr s \<and> queue_evts t' = queue_evts t0"
proof -
  have dev: "vo_capture_state ops (mm_device t) = Inr (ms_device s)" and none: "ds_queues (ms_device s) = None"
    and ack: "ms_acked_features s = vo_acked_features ops (mm_device t)"
    using cap idle by (auto simp: mmio_capture_state_def Let_def res_simps ensure_def split: if_splits)
  obtain d1 where d1: "vo_restore_state ops (ds_state (ms_device s)) (mm_device t0) = Inr d1"
    "keeps_identity ops (mm_device t) (vo_set_acked_features ops (ms_acked_features s) d1)"
    "\<not> vo_is_activated ops (vo_set_acked_features ops (ms_acked_features s) d1)"
    "vo_acked_features ops (vo_set_acked_features ops (ms_acked_features s) d1) = ms_acked_features s"
    using restored_device [OF dev d0] acked ack by metis
  obtain qs where qs: "collect_res (\<lambda>(q, n). queue_restore g mem n q) (zip saved (queue_config t0)) = Inr qs"
    "map capture_state qs = saved"
    using restore_queues [OF saved(2)] by blast
  let ?u = "t0\<lparr>mm_device := vo_set_acked_features ops (ms_acked_features s) d1, mm_queues := Some qs\<rparr>"
  have "mmio_restore_state ops g mem True signalled s t0 = Inr (restore_registers s ?u)"
    using fits none saved qs(1) d1(1) list_all2_lengthD [OF saved(2)]
    by (simp add: mmio_restore_state_def ensure_def as_message_def Let_def)
  moreover have "mmio_capture_state ops True (restore_registers s ?u) = Inr s"
    by (rule capture_restored [OF cap])
      (use d1 idle ack qs(2) saved(1) irq recaptures_inactive [OF dev d0 none d1(1)] in simp_all)
  ultimately show ?thesis by (auto simp: restore_registers_def)
qed

lemma restore_running:
  assumes fits: "snapshot_fits ops s t0" and cap: "mmio_capture_state ops True t = Inr s"
    and d0: "alike (mm_device t) (mm_device t0)" and live: "vo_is_activated ops (mm_device t)"
    and acked: "vo_acked_features ops (mm_device t) AND NOT (vo_avail_features ops (mm_device t)) = 0"
    and saved: "ms_queues s = None" "ds_queues (ms_device s) = Some saved"
      "list_all2 (\<lambda>q n. \<not> isl (queue_restore g mem n q)) saved (queue_config t0)"
      "list_all (\<lambda>q. qs_event_idx_enabled q = (ms_acked_features s AND event_idx_bit \<noteq> 0)) saved"
    and t0: "queue_config t0 = vo_queue_config ops (mm_device t0)" "length (queue_evts t0) = length (queue_config t0)"
      "irq_line t0 = irq_line t"
    and laws: "guest_memory_laws g"
  shows "\<exists>t'. mmio_restore_state ops g mem True (replicate (length saved) True) s t0 = Inr t'
    \<and> mmio_capture_state ops True t' = Inr s
    \<and> queue_evts t' = map2 (\<lambda>q e. if waiting g mem q then e + 1 else e) saved (queue_evts t0)"
proof -
  have dev: "vo_capture_state ops (mm_device t) = Inr (ms_device s)"
    and ack: "ms_acked_features s = vo_acked_features ops (mm_device t)"
    using cap by (auto simp: mmio_capture_state_def Let_def res_simps ensure_def split: if_splits)
  let ?acked = "\<lambda>d. vo_set_acked_features ops (ms_acked_features s) d"
  obtain d1 where d1: "vo_restore_state ops (ds_state (ms_device s)) (mm_device t0) = Inr d1"
    "keeps_identity ops (mm_device t) (?acked d1)" "vo_acked_features ops (?acked d1) = ms_acked_features s"
    using restored_device [OF dev d0] acked ack by metis
  obtain qs where qs: "collect_res (\<lambda>(q, n). queue_restore g mem n q) (zip saved (queue_config t0)) = Inr qs"
    "map capture_state qs = saved" "list_all (\<lambda>q. q_ready q \<longrightarrow> valid_layout g mem q) qs"
    using restore_queues [OF saved(3)] by blast
  have len: "length saved = length (queue_config t0)" "length qs = length saved"
    using list_all2_lengthD [OF saved(3)] qs(2) by (simp, metis length_map)
  let ?dqs = "zip qs [0..<length (queue_evts t0)]"
  have dqs: "map fst ?dqs = qs" using len t0(2) by simp
  have "length ?dqs = length (vo_queue_config ops (?acked d1))"
    using len t0 d1(2) alike [OF d0] by (simp add: keeps_identity_def)
  then obtain d2 where d2: "vo_activate ops ?dqs (?acked d1) = Some d2" using activates by blast
  let ?evts = "map2 (\<lambda>p e. if p then e + 1 else e) (map (waiting g mem) saved) (queue_evts t0)"
  let ?u = "t0\<lparr>mm_device := d2, queue_evts := ?evts, mm_queues := None\<rparr>"
  have wake: "wake_queues (replicate (length saved) True) (map (waiting g mem) saved) (queue_evts t0) = Inr ?evts"
    using wake_all [of "map (waiting g mem) saved" "queue_evts t0"] len t0(2) by simp
  have "Mmio.restore_active ops g mem (replicate (length saved) True) qs (?acked d1) t0 = Inr ?u"
    using collect_pending [OF laws qs(3)] qs(2) d2 wake by (simp add: restore_active_def)
  then have "mmio_restore_state ops g mem True (replicate (length saved) True) s t0 = Inr (restore_registers s ?u)"
    using fits saved qs(1) d1(1) len(1)
    by (auto simp: mmio_restore_state_def ensure_def as_message_def Let_def list_ex_iff list_all_iff)
  moreover have "mmio_capture_state ops True (restore_registers s ?u) = Inr s"
  proof (rule capture_restored [OF cap])
    show "vo_capture_state ops (mm_device ?u) = Inr (ms_device s)"
      using recaptures_active [OF dev d0 _ d1(1) d2] dqs qs(2) saved(2) by simp
    show "keeps_identity ops (mm_device t) (mm_device ?u)"
      using d1(2) activate_identity [OF d2] by (simp add: keeps_identity_def)
  qed (use activate [OF d2] live d1(3) ack saved(1) t0(3) in simp_all)
  ultimately show ?thesis by (auto simp: restore_registers_def zip_map1 case_prod_beta)
qed

end

definition saved_queues :: "'s mmio_snapshot \<Rightarrow> queue_snapshot list option" where
  "saved_queues s = (if ds_queues (ms_device s) \<noteq> None then ds_queues (ms_device s) else ms_queues s)"

lemma capture_owner:
  assumes "mmio_inv ops t" "mmio_capture_state ops True t = Inr s"
    "vo_is_activated ops (mm_device t) \<longleftrightarrow> device_status t AND DRIVER_OK \<noteq> 0" "saved_queues s = Some saved"
  shows "if vo_is_activated ops (mm_device t) then ms_queues s = None \<and> ds_queues (ms_device s) = Some saved
    else ms_queues s = Some saved"
  using assms
  by (auto simp: mmio_capture_state_def mmio_inv_def saved_queues_def Let_def res_simps ensure_def
      split: if_splits option.splits)

text \<open>
  What a snapshot needs to be restored: activation has not failed, no unknown interrupt is pending, there is a
  queue for each configured one, its maximum size is the configured one and its rings lie in the
  memory when it is ready, and the queues of an active device agree with the negotiated features on event indices.
\<close>

definition restorable ::
  "('d, 's) virtio_ops \<Rightarrow> 'm guest_memory \<Rightarrow> 'm \<Rightarrow> 'd \<Rightarrow> 's mmio_snapshot \<Rightarrow> 'd mmio \<Rightarrow> bool" where
  "restorable ops g mem d0 s t \<longleftrightarrow>
     (device_status t AND DRIVER_OK \<noteq> 0 \<longrightarrow> vo_is_activated ops (mm_device t))
     \<and> (ucast (interrupt_status t) :: u32) AND NOT 3 = 0
     \<and> (case saved_queues s of
          None \<Rightarrow> False
        | Some saved \<Rightarrow>
            list_all2 (\<lambda>q n. \<not> isl (queue_restore g mem n q)) saved (vo_queue_config ops d0)
            \<and> (vo_is_activated ops (mm_device t) \<longrightarrow>
                 list_all (\<lambda>q. qs_event_idx_enabled q = (ms_acked_features s AND event_idx_bit \<noteq> 0)) saved))"

lemma restored_queues:
  assumes "collect_res (\<lambda>(q, n). queue_restore g mem n q) (zip saved config) = Inr qs" "length saved = length config"
  shows "list_all2 (\<lambda>q n. \<not> isl (queue_restore g mem n q)) saved config"
  using collect_res_InrD [OF assms(1)] assms(2) by (auto simp: list_all2_conv_all_nth)

lemma restore_needs:
  assumes "mmio_restore_state ops g mem True signalled s t0 = Inr t'"
  shows "snapshot_fits ops s t0" "\<exists>saved. saved_queues s = Some saved
    \<and> list_all2 (\<lambda>q n. \<not> isl (queue_restore g mem n q)) saved (queue_config t0)
    \<and> (ds_queues (ms_device s) \<noteq> None \<longrightarrow>
         list_all (\<lambda>q. qs_event_idx_enabled q = (ms_acked_features s AND event_idx_bit \<noteq> 0)) saved)"
proof -
  obtain saved qs where fits: "snapshot_fits ops s t0" and saved: "saved_queues s = Some saved"
    "length saved = length (queue_config t0)"
    "\<not> (ds_queues (ms_device s) \<noteq> None \<and> list_ex (\<lambda>q. qs_event_idx_enabled q
       \<noteq> (ms_acked_features s AND event_idx_bit \<noteq> 0)) saved)"
    "collect_res (\<lambda>(q, n). queue_restore g mem n q) (zip saved (queue_config t0)) = Inr qs"
    using assms by (auto simp: mmio_restore_state_def saved_queues_def as_message_def Let_def res_simps
        split: option.splits sum.splits if_splits)
  show "snapshot_fits ops s t0" by (rule fits)
  show "\<exists>saved. saved_queues s = Some saved
    \<and> list_all2 (\<lambda>q n. \<not> isl (queue_restore g mem n q)) saved (queue_config t0)
    \<and> (ds_queues (ms_device s) \<noteq> None \<longrightarrow>
         list_all (\<lambda>q. qs_event_idx_enabled q = (ms_acked_features s AND event_idx_bit \<noteq> 0)) saved)"
    using saved restored_queues [OF saved(4, 2)] by (auto simp: list_ex_iff list_all_iff)
qed

lemma restored_restorable:
  assumes "mmio_capture_state ops True t = Inr s"
    "mmio_restore_state ops g mem True signalled s ((mmio_new ops d0)\<lparr>irq_line := irq_line t\<rparr>) = Inr t'"
  shows "restorable ops g mem d0 s t"
proof -
  have cap: "ms_interrupt_status s = ucast (interrupt_status t)" "ms_device_status s = device_status t"
    "ds_queues (ms_device s) \<noteq> None \<longleftrightarrow> vo_is_activated ops (mm_device t)"
    using assms(1) by (auto simp: mmio_capture_state_def Let_def res_simps ensure_def split: if_splits)
  have config: "queue_config ((mmio_new ops d0)\<lparr>irq_line := irq_line t\<rparr>) = vo_queue_config ops d0"
    by (simp add: mmio_new_def Let_def)
  show ?thesis
    using restore_needs [OF assms(2)] cap unfolding config by (auto simp: restorable_def snapshot_fits_def Let_def)
qed


end
