(* ===== verification/Rng.thy ===== *)
theory Rng
  imports Mmio_Init
begin

text \<open>
  The entropy device (\<open>crates/pvisor-vm/src/devices/virtio/rng\<close>), the device on which the
  interface of the MMIO transport is instantiated, with the loop that serves its request queue.

  The random bytes of the host, and the memory that a write leaves behind when it fails, are the record
  \<open>rng_env\<close>. The loop over the available requests is a partial function: \<open>None\<close> is a
  loop that does not end. Registration with the event manager is not modelled.
\<close>

unbundle bit_operations_syntax

section \<open>The device\<close>

text \<open>Snapshots of the other kinds of devices are opaque here.\<close>

datatype 'o device_snapshot_state = Rng_Snapshot | Other_Snapshot 'o

record rng =
  rng_queues :: "device_queue list option"
  rng_avail_features :: u64
  rng_acked_features :: u64
  rng_activate_evt :: nat
  rng_active :: bool
  rng_frozen :: bool

definition NUM_QUEUES :: nat where "NUM_QUEUES = 1"

definition QUEUE_CONFIG :: "u16 list" where "QUEUE_CONFIG = replicate NUM_QUEUES 256"

definition VIRTIO_ID_RNG :: u32 where "VIRTIO_ID_RNG = 4"

definition AVAIL_FEATURES :: u64 where "AVAIL_FEATURES = push_bit 32 1"

definition rng_new :: rng where
  "rng_new =
     \<lparr>rng_queues = None, rng_avail_features = AVAIL_FEATURES, rng_acked_features = 0, rng_activate_evt = 0,
      rng_active = False, rng_frozen = False\<rparr>"

definition rng_freeze :: "rng \<Rightarrow> bool \<times> rng" where
  "rng_freeze r = (True, r\<lparr>rng_frozen := True\<rparr>)"

text \<open>The event descriptors written, up to the first that fails, with their counters.\<close>

fun signal_queues :: "bool list \<Rightarrow> device_queue list \<Rightarrow> nat list \<Rightarrow> bool \<times> nat list" where
  "signal_queues ok [] evts = (True, evts)"
| "signal_queues ok ((q, e) # dqs) evts =
     (if hd ok then signal_queues (tl ok) dqs (evts[e := evts ! e + 1]) else (False, evts))"

definition rng_thaw :: "bool list \<Rightarrow> nat list \<Rightarrow> rng \<Rightarrow> bool \<times> nat list \<times> rng" where
  "rng_thaw ok evts r =
     (if rng_frozen r then
        (let (woken, evts) = (case rng_queues r of None \<Rightarrow> (True, evts) | Some dqs \<Rightarrow> signal_queues ok dqs evts)
         in if woken then (True, evts, r\<lparr>rng_frozen := False\<rparr>) else (False, evts, r))
      else (True, evts, r))"

definition rng_capture_state :: "rng \<Rightarrow> rstr + 'o device_snapshot_state device_snapshot" where
  "rng_capture_state r =
     (if rng_active r \<and> \<not> rng_frozen r then Inl ''device must be frozen before capture''
      else Inr \<lparr>ds_queues = map_option (map (\<lambda>(q, e). capture_state q)) (rng_queues r), ds_state = Rng_Snapshot\<rparr>)"

definition rng_restore_state :: "'o device_snapshot_state \<Rightarrow> rng \<Rightarrow> rstr + rng" where
  "rng_restore_state s r =
     (if rng_active r then Inl ''restore requires a fresh device''
      else
        (case s of
           Rng_Snapshot \<Rightarrow> Inr (r\<lparr>rng_frozen := True\<rparr>)
         | Other_Snapshot _ \<Rightarrow> Inl ''RNG state type mismatch''))"

definition rng_activate :: "bool \<Rightarrow> device_queue list \<Rightarrow> rng \<Rightarrow> rng option" where
  "rng_activate event_written dqs r =
     (if length dqs \<noteq> NUM_QUEUES then None
      else if \<not> event_written then None
      else Some (r\<lparr>rng_activate_evt := rng_activate_evt r + 1, rng_queues := Some dqs, rng_active := True\<rparr>))"

definition rng_reset :: "rng \<Rightarrow> bool \<times> rng" where
  "rng_reset r = (True, r\<lparr>rng_queues := None, rng_frozen := False, rng_active := False\<rparr>)"

definition rng_ops :: "bool \<Rightarrow> (rng, 'o device_snapshot_state) virtio_ops" where
  "rng_ops event_written =
     \<lparr>vo_avail_features = rng_avail_features, vo_acked_features = rng_acked_features,
      vo_set_acked_features = (\<lambda>a r. r\<lparr>rng_acked_features := a\<rparr>), vo_device_type = (\<lambda>_. VIRTIO_ID_RNG),
      vo_queue_config = (\<lambda>_. QUEUE_CONFIG), vo_read_config = (\<lambda>_ _ data. data),
      vo_write_config = (\<lambda>_ _ r. r), vo_activate = rng_activate event_written, vo_is_activated = rng_active,
      vo_reset = rng_reset, vo_shm_region = (\<lambda>_. None), vo_shm_region_id = (\<lambda>_. 0),
      vo_capture_state = rng_capture_state, vo_restore_state = rng_restore_state\<rparr>"

text \<open>A fresh device for the place of a captured one.\<close>

definition rng_alike :: "rng \<Rightarrow> rng \<Rightarrow> bool" where
  "rng_alike r r0 \<longleftrightarrow>
     rng_avail_features r0 = rng_avail_features r \<and> \<not> rng_active r0 \<and> rng_queues r0 = None"

interpretation rng: virtio_device "rng_ops event_written" for event_written
  by unfold_locales
    (auto simp: rng_ops_def keeps_lifecycle_def rng_activate_def rng_reset_def split: if_splits)

interpretation rng_snapshots: snapshot_device "rng_ops True" rng_alike
proof unfold_locales
  show "vo_activate (rng_ops True) qs d \<noteq> None" if "length qs = length (vo_queue_config (rng_ops True) d)"
    for qs and d :: rng
    using that by (simp add: rng_ops_def rng_activate_def QUEUE_CONFIG_def)
qed (auto simp: rng_ops_def rng_alike_def keeps_identity_def keeps_lifecycle_def rng_activate_def
    rng_capture_state_def rng_restore_state_def comp_def case_prod_beta split: if_splits)

section \<open>Serving requests\<close>

record 'm rng_env =
  entropy :: "nat \<Rightarrow> nat \<Rightarrow> u8 list option"
  torn_write :: "'m \<Rightarrow> u64 \<Rightarrow> u8 list \<Rightarrow> 'm"

text \<open>
  The loop over the descriptors of a request. The iterator has read the next descriptor before the
  current buffer is filled. The result says whether all were filled, and how many bytes.
\<close>

function rng_fill ::
  "'m rng_env \<Rightarrow> 'm guest_memory \<Rightarrow> nat \<Rightarrow> 'm \<Rightarrow> descriptor_chain \<Rightarrow> u32 \<Rightarrow> bool \<times> nat \<times> 'm \<times> u32" where
  "rng_fill env g k mem c written =
     (case entropy env k (unat (dc_len c)) of
        None \<Rightarrow> (False, k + 1, mem, written)
      | Some bytes \<Rightarrow>
          (case gm_write g mem (dc_addr c) bytes of
             None \<Rightarrow> (False, k + 1, torn_write env mem (dc_addr c) bytes, written)
           | Some mem' \<Rightarrow>
               (case next_descriptor g mem c of
                  None \<Rightarrow> (True, k + 1, mem', written + dc_len c)
                | Some d \<Rightarrow> rng_fill env g (k + 1) mem' d (written + dc_len c))))"
  by pat_completeness auto
termination
  by (relation "measure (\<lambda>(_, _, _, _, c, _). unat (dc_ttl c))") (auto dest: next_descriptor_ttl)

declare rng_fill.simps [simp del]

partial_function (option) rng_loop ::
  "'m rng_env \<Rightarrow> 'm guest_memory \<Rightarrow> nat \<Rightarrow> 'm \<Rightarrow> queue \<Rightarrow> bool
    \<Rightarrow> (queue_error + (nat \<times> 'm \<times> queue \<times> bool)) option" where
  "rng_loop env g k mem q have_used =
     (case queue_pop g mem q of
        Inl e \<Rightarrow> Some (Inl e)
      | Inr (head, q1) \<Rightarrow>
          (case head of
             None \<Rightarrow> Some (Inr (k, mem, q1, have_used))
           | Some c \<Rightarrow>
               (case rng_fill env g k mem c 0 of (filled, k', mem', written) \<Rightarrow>
                  (case add_used g (dc_index c) written
                          (mem', if filled then q1 else go_to_previous_position q1) of
                     (_, mem2, q2) \<Rightarrow> rng_loop env g k' mem2 q2 True))))"

definition rng_process_req ::
  "'m rng_env \<Rightarrow> 'm guest_memory \<Rightarrow> nat \<Rightarrow> 'm \<Rightarrow> rng \<Rightarrow> (queue_error + (bool \<times> nat \<times> 'm \<times> rng)) option" where
  "rng_process_req env g k mem r =
     (if rng_frozen r then Some (Inr (False, k, mem, r))
      else if \<not> rng_active r then Some (Inl Panic)
      else
        (case rng_queues r of
           None \<Rightarrow> Some (Inl Panic)
         | Some [] \<Rightarrow> Some (Inl Panic)
         | Some ((q, e) # dqs) \<Rightarrow>
             map_option (\<lambda>res. bind_res res (\<lambda>(k', mem', q', have_used).
                 Inr (have_used, k', mem', r\<lparr>rng_queues := Some ((q', e) # dqs)\<rparr>)))
               (rng_loop env g k mem q False)))"

text \<open>
  An event on the request queue: its counter is read, which resets it, and the guest is
  interrupted when something was used.
\<close>

definition handle_req_event ::
  "bool \<Rightarrow> bool \<Rightarrow> 'm rng_env \<Rightarrow> 'm guest_memory \<Rightarrow> nat \<Rightarrow> 'm \<Rightarrow> rng mmio
    \<Rightarrow> (queue_error + ('m \<times> rng mmio)) option" where
  "handle_req_event event_in event_read env g k mem t =
     (if \<not> event_in then Some (Inr (mem, t))
      else
        (case rng_queues (mm_device t) of
           None \<Rightarrow> Some (Inl Panic)
         | Some [] \<Rightarrow> Some (Inl Panic)
         | Some ((q, e) # dqs) \<Rightarrow>
             if \<not> event_read then Some (Inr (mem, t))
             else
               map_option (\<lambda>res. bind_res res (\<lambda>(have_used, k', mem', r).
                   let t' = t\<lparr>queue_evts := (queue_evts t)[e := 0], mm_device := r\<rparr>
                   in Inr (mem', if have_used then signal_used_queue t' else t')))
                 (rng_process_req env g k mem (mm_device t))))"

section \<open>What a queue sees of the memory\<close>

text \<open>The guest's mappings are fixed, and offsets are added to addresses.\<close>

definition mapping_laws :: "'m guest_memory \<Rightarrow> bool" where
  "mapping_laws g \<longleftrightarrow>
     (\<forall>m a k b. gm_checked_offset g m a k = Some b \<longrightarrow> unat b = unat a + k)
     \<and> (\<forall>m b bs m'. gm_write g m b bs = Some m' \<longrightarrow>
          gm_checked_offset g m' = gm_checked_offset g m
          \<and> (\<forall>a cs. gm_write g m' a cs = None \<longleftrightarrow> gm_write g m a cs = None))"

definition avail_area :: "queue \<Rightarrow> u64 \<Rightarrow> nat \<Rightarrow> bool" where
  "avail_area q a k \<longleftrightarrow> within a k (q_avail_ring q) (6 + 2 * unat (q_size q))"

definition desc_area :: "queue \<Rightarrow> u64 \<Rightarrow> nat \<Rightarrow> bool" where
  "desc_area q a k \<longleftrightarrow> within a k (q_desc_table q) (16 * unat (q_size q))"

definition outside :: "queue \<Rightarrow> u64 \<Rightarrow> nat \<Rightarrow> bool" where
  "outside q a k \<longleftrightarrow>
     apart a k (q_avail_ring q) (6 + 2 * unat (q_size q)) \<and> apart a k (q_desc_table q) (16 * unat (q_size q))"

definition same_view :: "'m guest_memory \<Rightarrow> queue \<Rightarrow> 'm \<Rightarrow> 'm \<Rightarrow> bool" where
  "same_view g q m m' \<longleftrightarrow>
     gm_check g m' = gm_check g m \<and> gm_checked_offset g m' = gm_checked_offset g m
     \<and> (\<forall>a cs. gm_write g m' a cs = None \<longleftrightarrow> gm_write g m a cs = None)
     \<and> (\<forall>a k. avail_area q a k \<or> desc_area q a k \<longrightarrow> gm_read g m' a k = gm_read g m a k)"

lemma same_view_refl [simp]: "same_view g q m m"
  by (simp add: same_view_def)

lemma same_view_trans: "same_view g q m1 m2 \<Longrightarrow> same_view g q m2 m3 \<Longrightarrow> same_view g q m1 m3"
  by (simp add: same_view_def)

lemma same_view_write:
  assumes "guest_memory_laws g" "mapping_laws g" "gm_write g m b bs = Some m'" "outside q b (length bs)"
  shows "same_view g q m m'"
proof -
  have "apart b (length bs) a k" if "avail_area q a k \<or> desc_area q a k" for a k
    using assms(4) that by (auto simp: outside_def apart_def avail_area_def desc_area_def within_def)
  then show ?thesis
    using assms(2, 3) write_read [OF assms(1, 3)] by (auto simp: same_view_def mapping_laws_def)
qed

text \<open>A queue that works: a valid layout whose used ring lies outside of what the guest writes.\<close>

definition sound_queue :: "'m guest_memory \<Rightarrow> 'm \<Rightarrow> queue \<Rightarrow> bool" where
  "sound_queue g m q \<longleftrightarrow>
     valid_layout g m q \<and> unat (q_size q) \<le> 16384 \<and> outside q (q_used_ring q) (6 + 8 * unat (q_size q))"

definition same_rings :: "queue \<Rightarrow> queue \<Rightarrow> bool" where
  "same_rings q q' \<longleftrightarrow>
     q_size q' = q_size q \<and> q_max_size q' = q_max_size q \<and> q_ready q' = q_ready q \<and> q_desc_table q' = q_desc_table q
     \<and> q_avail_ring q' = q_avail_ring q \<and> q_used_ring q' = q_used_ring q"

lemma same_rings_view: "same_rings q q' \<Longrightarrow> same_view g q' = same_view g q"
  by (intro ext) (simp add: same_rings_def same_view_def avail_area_def desc_area_def)

lemma sound_queue_same:
  assumes "sound_queue g m q" "same_view g q m m'" "same_rings q q'"
  shows "sound_queue g m' q'"
  using assms by (simp add: sound_queue_def same_rings_def same_view_def valid_layout_def area_ok_def outside_def Let_def)

lemma checked_new_same:
  assumes "mapping_laws g" "same_view g q m m'"
  shows "checked_new g m' (q_desc_table q) (q_size q) i = checked_new g m (q_desc_table q) (q_size q) i"
proof (cases "q_size q \<le> i")
  case False
  then have i: "unat i < unat (q_size q)" by (simp add: word_less_nat_alt word_le_nat_alt)
  have "gm_read g m' b 16 = gm_read g m b 16" if "gm_checked_offset g m (q_desc_table q) (unat i * 16) = Some b" for b
  proof -
    have "unat b = unat (q_desc_table q) + unat i * 16" using assms(1) that by (simp add: mapping_laws_def)
    then have "desc_area q b 16" using i by (simp add: desc_area_def within_def)
    then show ?thesis using assms(2) by (simp add: same_view_def)
  qed
  then show ?thesis using assms(2) by (auto simp: checked_new_def same_view_def split: option.splits)
qed (simp add: checked_new_def)

lemma next_descriptor_same:
  assumes "mapping_laws g" "same_view g q m m'" "dc_desc_table c = q_desc_table q" "dc_queue_size c = q_size q"
  shows "next_descriptor g m' c = next_descriptor g m c"
  using checked_new_same [OF assms(1, 2)] assms(3, 4) by (simp add: next_descriptor_def)

text \<open>The next head of a queue, as the available ring and the descriptor table give it.\<close>

definition next_head :: "'m guest_memory \<Rightarrow> 'm \<Rightarrow> queue \<Rightarrow> descriptor_chain option" where
  "next_head g m q =
     (case load_u16 g m (q_avail_ring q + of_nat (4 + 2 * (unat (q_next_avail q) mod unat (q_size q)))) of
        Inl _ \<Rightarrow> None
      | Inr i \<Rightarrow> checked_new g m (q_desc_table q) (q_size q) i)"

definition served :: "queue \<Rightarrow> queue" where
  "served q = q\<lparr>q_next_used := q_next_used q + 1, q_num_added := q_num_added q + 1\<rparr>"

lemma outside_within: "outside q a n \<Longrightarrow> within b k a n \<Longrightarrow> 0 < k \<Longrightarrow> outside q b k"
  by (auto simp: outside_def apart_def within_def)

text \<open>A sequence of writes, each a place and the bytes written there.\<close>

fun gm_writes :: "'m guest_memory \<Rightarrow> 'm \<Rightarrow> (u64 \<times> u8 list) list \<Rightarrow> 'm option" where
  "gm_writes g m [] = Some m"
| "gm_writes g m ((a, bs) # ws) = (case gm_write g m a bs of None \<Rightarrow> None | Some m' \<Rightarrow> gm_writes g m' ws)"

lemma gm_writes_append:
  "gm_writes g m (ws @ vs) = (case gm_writes g m ws of None \<Rightarrow> None | Some m' \<Rightarrow> gm_writes g m' vs)"
  by (induction g m ws rule: gm_writes.induct) (auto split: option.splits)

lemma writes_frame:
  assumes "guest_memory_laws g"
  shows "gm_writes g m ws = Some m' \<Longrightarrow> (\<And>b bs. (b, bs) \<in> set ws \<Longrightarrow> apart b (length bs) a n) \<Longrightarrow>
    gm_read g m' a n = gm_read g m a n"
proof (induction ws arbitrary: m)
  case (Cons w ws)
  obtain b bs where w: "w = (b, bs)" by (cases w)
  obtain m1 where m1: "gm_write g m b bs = Some m1" "gm_writes g m1 ws = Some m'"
    using Cons.prems(1) w by (auto split: option.splits)
  have "gm_read g m' a n = gm_read g m1 a n" using Cons.IH [OF m1(2)] Cons.prems(2) by simp
  then show ?case using write_read(3) [OF assms m1(1), of a n] Cons.prems(2) [of b bs] w by simp
qed simp

text \<open>What completing a request writes: its element of the used ring, then the published index.\<close>

definition slot_at :: "queue \<Rightarrow> u16 \<Rightarrow> u64" where
  "slot_at q u = q_used_ring q + used_slot (q\<lparr>q_next_used := u\<rparr>)"

definition completion :: "queue \<Rightarrow> u16 \<Rightarrow> u16 \<Rightarrow> u32 \<Rightarrow> (u64 \<times> u8 list) list" where
  "completion q u head len =
     [(slot_at q u, le_bytes 4 (unat head) @ le_bytes 4 (unat len)), (q_used_ring q + 2, le_bytes 2 (unat (u + 1)))]"

lemma completion_same: "same_rings q q' \<Longrightarrow> completion q' = completion q"
  by (intro ext) (simp add: same_rings_def completion_def slot_at_def used_slot_def)

lemma add_used_writes:
  assumes "add_used g head len (m, q) = (Inr (), m', q')"
  shows "\<exists>a b m1. address_add (q_used_ring q) (used_slot q) = Inr a
    \<and> gm_write g m a (le_bytes 4 (unat head) @ le_bytes 4 (unat len)) = Some m1
    \<and> address_add (q_used_ring q) 2 = Inr b \<and> gm_write g m1 b (le_bytes 2 (unat (q_next_used q + 1))) = Some m'"
  using assms unfolding add_used_def store_u16_def bind_res_def Let_def
  by (auto split: if_splits sum.splits option.splits)

lemma add_used_view:
  assumes laws: "guest_memory_laws g" "mapping_laws g" and q: "sound_queue g m q" and head: "head < q_size q"
  obtains m' r where "add_used g head len (m, q) = (r, m', served q)" "same_view g q m m'"
    "load_u16 g m' (q_used_ring q + 2) = Inr (q_next_used q + 1)"
    "gm_writes g m (completion q (q_next_used q) head len) = Some m'"
proof -
  let ?area = "6 + 8 * unat (q_size q)" and ?used = "q_used_ring q"
  have v: "valid_layout g m q" and far: "outside q ?used ?area" using q by (simp_all add: sound_queue_def)
  note facts = valid_layout_facts [OF v]
  obtain m' where m': "add_used g head len (m, q) = (Inr (), m', served q)"
    and published: "load_u16 g m' (?used + 2) = Inr (q_next_used q + 1)"
    using add_used_slot [OF laws(1) v head, of len] by (auto simp: served_def)
  have "unat (q_next_used q) mod unat (q_size q) < unat (q_size q)" using facts(4) by simp
  then have slot: "unat (used_slot q) + 8 \<le> ?area" unfolding unat_used_slot by linarith
  have idx: "unat (2 :: u64) + 2 \<le> ?area" by simp
  have at_slot: "unat (?used + used_slot q) = unat ?used + unat (used_slot q)"
      "address_add ?used (used_slot q) = Inr (?used + used_slot q)"
    and at_idx: "unat (?used + 2) = unat ?used + 2" "address_add ?used 2 = Inr (?used + 2)"
    using area_access(1, 2) [OF laws(1) facts(2) slot] area_access(1, 2) [OF laws(1) facts(2) idx] by simp_all
  obtain m1 where m1: "gm_write g m (?used + used_slot q) (le_bytes 4 (unat head) @ le_bytes 4 (unat len)) = Some m1"
    and m2: "gm_write g m1 (?used + 2) (le_bytes 2 (unat (q_next_used q + 1))) = Some m'"
    using add_used_writes [OF m'] unfolding at_slot(2) at_idx(2) by blast
  have w: "within (?used + used_slot q) 8 ?used ?area" "within (?used + 2) 2 ?used ?area"
    unfolding within_def at_slot(1) at_idx(1) using slot idx by linarith+
  have "outside q (?used + used_slot q) 8" "outside q (?used + 2) 2"
    using outside_within [OF far w(1)] outside_within [OF far w(2)] by simp_all
  then have "same_view g q m m1" "same_view g q m1 m'"
    using same_view_write [OF laws m1] same_view_write [OF laws m2] by simp_all
  note view = same_view_trans [OF this]
  have "gm_writes g m (completion q (q_next_used q) head len) = Some m'"
    using m1 m2 by (simp add: completion_def slot_at_def)
  then show thesis by (rule that [OF m' view published])
qed

lemma load_same:
  assumes "same_view g q m m'" "unat k + 2 \<le> 6 + 2 * unat (q_size q)" "guest_memory_laws g" "valid_layout g m q"
  shows "load_u16 g m' (q_avail_ring q + k) = load_u16 g m (q_avail_ring q + k)"
proof -
  have "unat (q_avail_ring q + k) = unat (q_avail_ring q) + unat k"
    using area_access(1) [OF assms(3) valid_layout_facts(1) [OF assms(4)] assms(2)] by simp
  then have "avail_area q (q_avail_ring q + k) 2" using assms(2) by (simp add: avail_area_def within_def)
  then show ?thesis using assms(1) by (simp add: same_view_def load_u16_def)
qed

lemma avail_idx_same:
  assumes "guest_memory_laws g" "sound_queue g m q" "same_view g q m m'"
  shows "avail_idx g m' q = avail_idx g m q"
proof -
  have v: "valid_layout g m q" using assms(2) by (simp add: sound_queue_def)
  have two: "unat (2 :: u64) + 2 \<le> 6 + 2 * unat (q_size q)" by simp
  have "address_add (q_avail_ring q) 2 = Inr (q_avail_ring q + 2)"
    using area_access(2) [OF assms(1) valid_layout_facts(1) [OF v] two] by simp
  then show ?thesis using load_same [OF assms(3) two assms(1) v] by (simp add: avail_idx_def)
qed

lemma next_head_same:
  assumes "guest_memory_laws g" "mapping_laws g" "sound_queue g m q" "same_view g q m m'"
  shows "next_head g m' q = next_head g m q"
proof -
  have v: "valid_layout g m q" and n: "unat (q_size q) \<le> 16384" using assms(3) by (simp_all add: sound_queue_def)
  let ?off = "4 + 2 * (unat (q_next_avail q) mod unat (q_size q))"
  have "unat (q_next_avail q) mod unat (q_size q) < unat (q_size q)" using valid_layout_facts(4) [OF v] by simp
  then have bound: "?off + 2 \<le> 6 + 2 * unat (q_size q)" by linarith
  then have "?off < 2 ^ 64" using n by simp
  then have "unat (of_nat ?off :: u64) = ?off" by (simp only: unat_of_nat) simp
  then show ?thesis
    using load_same [OF assms(4) _ assms(1) v, of "of_nat ?off"] bound checked_new_same [OF assms(2, 4)]
    by (simp add: next_head_def split: sum.splits)
qed

lemma pop_head:
  assumes "guest_memory_laws g" "sound_queue g m q"
  shows "\<exists>idx. avail_idx g m q = Inr idx \<and> queue_pop g m q =
    Inr (if idx = q_next_avail q then (None, q)
         else (case next_head g m q of None \<Rightarrow> (None, q) | Some c \<Rightarrow> (Some c, q\<lparr>q_next_avail := q_next_avail q + 1\<rparr>)))"
proof -
  have "valid_layout g m q" "unat (q_size q) \<le> 16384" using assms(2) by (simp_all add: sound_queue_def)
  then obtain idx d where "avail_idx g m q = Inr idx"
    "load_u16 g m (q_avail_ring q + of_nat (4 + 2 * (unat (q_next_avail q) mod unat (q_size q)))) = Inr d"
    "queue_pop g m q =
       Inr (if idx = q_next_avail q then (None, q)
            else (case checked_new g m (q_desc_table q) (q_size q) d of
                    None \<Rightarrow> (None, q) | Some c \<Rightarrow> (Some c, q\<lparr>q_next_avail := q_next_avail q + 1\<rparr>)))"
    by (rule pop_slot [OF assms(1)])
  then show ?thesis unfolding next_head_def by simp
qed

lemma next_head_facts:
  "next_head g m q = Some c \<Longrightarrow> dc_index c < q_size q \<and> dc_desc_table c = q_desc_table q \<and> dc_queue_size c = q_size q"
  by (auto simp: next_head_def dest: checked_new_facts split: sum.splits)

lemma same_rings_served [simp]: "same_rings q (served q)" "q_next_avail (served q) = q_next_avail q"
  by (simp_all add: same_rings_def served_def)

lemma same_rings_next [simp]: "same_rings q (q\<lparr>q_next_avail := n\<rparr>)"
  by (simp add: same_rings_def)

lemma same_rings_reads:
  "same_rings q q' \<Longrightarrow> avail_idx g m q' = avail_idx g m q"
  "same_rings q q' \<Longrightarrow> q_next_avail q' = q_next_avail q \<Longrightarrow> next_head g m q' = next_head g m q"
  by (simp_all add: same_rings_def avail_idx_def next_head_def split: sum.splits)

lemma served_reads [simp]:
  "avail_idx g m (served q) = avail_idx g m q" "next_head g m (served q) = next_head g m q"
  by (simp_all add: same_rings_reads [OF same_rings_served(1)])

section \<open>A buffer outside of memory\<close>

definition rng_env_laws :: "'m rng_env \<Rightarrow> bool" where
  "rng_env_laws env \<longleftrightarrow> (\<forall>k n bs. entropy env k n = Some bs \<longrightarrow> length bs = n)"

definition stuck_head :: "'m rng_env \<Rightarrow> 'm guest_memory \<Rightarrow> descriptor_chain \<Rightarrow> 'm \<Rightarrow> queue \<Rightarrow> bool" where
  "stuck_head env g c m q \<longleftrightarrow>
     sound_queue g m q \<and> avail_idx g m q \<noteq> Inr (q_next_avail q) \<and> next_head g m q = Some c
     \<and> (\<forall>bs. length bs = unat (dc_len c) \<longrightarrow> gm_write g m (dc_addr c) bs = None)
     \<and> (\<forall>m bs. torn_write env m (dc_addr c) bs = m)"

lemma stuck_step:
  assumes laws: "guest_memory_laws g" "mapping_laws g" "rng_env_laws env" and stuck: "stuck_head env g c m q"
  obtains r m' where "queue_pop g m q = Inr (Some c, q\<lparr>q_next_avail := q_next_avail q + 1\<rparr>)"
    "rng_fill env g k m c 0 = (False, k + 1, m, 0)" "add_used g (dc_index c) 0 (m, q) = (r, m', served q)"
    "stuck_head env g c m' (served q)"
proof -
  have q: "sound_queue g m q" and c: "next_head g m q = Some c" and idx: "avail_idx g m q \<noteq> Inr (q_next_avail q)"
    using stuck by (simp_all add: stuck_head_def)
  have pop: "queue_pop g m q = Inr (Some c, q\<lparr>q_next_avail := q_next_avail q + 1\<rparr>)"
    using pop_head [OF laws(1) q] c idx by auto
  have fill: "rng_fill env g k m c 0 = (False, k + 1, m, 0)"
    using stuck laws(3) by (auto simp: rng_fill.simps [of env g k m c] stuck_head_def rng_env_laws_def split: option.splits)
  have head: "dc_index c < q_size q" using next_head_facts [OF c] by simp
  obtain m' r where used: "add_used g (dc_index c) 0 (m, q) = (r, m', served q)" and view: "same_view g q m m'"
    by (rule add_used_view [OF laws(1, 2) q head])
  have "avail_idx g m' (served q) = avail_idx g m q" "next_head g m' (served q) = next_head g m q"
    using avail_idx_same [OF laws(1) q view] next_head_same [OF laws(1, 2) q view]
    by simp_all
  moreover have "sound_queue g m' (served q)" by (rule sound_queue_same [OF q view same_rings_served(1)])
  moreover have "gm_write g m' a bs = None \<longleftrightarrow> gm_write g m a bs = None" for a bs
    using view by (simp add: same_view_def)
  ultimately have "stuck_head env g c m' (served q)" using stuck by (simp add: stuck_head_def)
  then show thesis by (rule that [OF pop fill used])
qed

lemma go_back [simp]: "go_to_previous_position (q\<lparr>q_next_avail := q_next_avail q + 1\<rparr>) = q"
  by (simp add: go_to_previous_position_def)

definition stuck_loop ::
  "'m rng_env \<Rightarrow> 'm guest_memory \<Rightarrow> nat \<Rightarrow> 'm \<Rightarrow> queue \<Rightarrow> bool \<Rightarrow> bool" where
  "stuck_loop env g k m q have_used \<longleftrightarrow>
     guest_memory_laws g \<and> mapping_laws g \<and> rng_env_laws env \<and> (\<exists>c. stuck_head env g c m q)"

lemma rng_loop_returns: "rng_loop env g k m q have_used = Some y \<Longrightarrow> \<not> stuck_loop env g k m q have_used"
proof (rule rng_loop.raw_induct [where P = "\<lambda>env g k m q have_used y. \<not> stuck_loop env g k m q have_used"])
  fix loop :: "'m rng_env \<Rightarrow> 'm guest_memory \<Rightarrow> nat \<Rightarrow> 'm \<Rightarrow> queue \<Rightarrow> bool
    \<Rightarrow> (queue_error + (nat \<times> 'm \<times> queue \<times> bool)) option" and env g k m q have_used y
  assume ih: "\<And>env g k m q have_used y. loop env g k m q have_used = Some y \<Longrightarrow> \<not> stuck_loop env g k m q have_used"
    and body: "(case queue_pop g m q of
        Inl e \<Rightarrow> Some (Inl e)
      | Inr (head, q1) \<Rightarrow>
          (case head of
             None \<Rightarrow> Some (Inr (k, m, q1, have_used))
           | Some c \<Rightarrow>
               (case rng_fill env g k m c 0 of (filled, k', mem', written) \<Rightarrow>
                  (case add_used g (dc_index c) written
                          (mem', if filled then q1 else go_to_previous_position q1) of
                     (_, mem2, q2) \<Rightarrow> loop env g k' mem2 q2 True)))) = Some y"
  show "\<not> stuck_loop env g k m q have_used"
  proof
    assume "stuck_loop env g k m q have_used"
    then obtain c where a: "guest_memory_laws g" "mapping_laws g" "rng_env_laws env" "stuck_head env g c m q"
      by (auto simp: stuck_loop_def)
    obtain r m' where s: "queue_pop g m q = Inr (Some c, q\<lparr>q_next_avail := q_next_avail q + 1\<rparr>)"
      "rng_fill env g k m c 0 = (False, k + 1, m, 0)" "add_used g (dc_index c) 0 (m, q) = (r, m', served q)"
      "stuck_head env g c m' (served q)"
      by (rule stuck_step [OF a])
    then have "loop env g (k + 1) m' (served q) True = Some y" using body by simp
    from ih [OF this] show False using a s(4) by (auto simp: stuck_loop_def)
  qed
qed

section \<open>Draining the queue\<close>

definition good_buffer :: "'m guest_memory \<Rightarrow> 'm \<Rightarrow> queue \<Rightarrow> descriptor_chain \<Rightarrow> bool" where
  "good_buffer g m q d \<longleftrightarrow>
     gm_check g m (dc_addr d) (unat (dc_len d)) \<and> outside q (dc_addr d) (unat (dc_len d))
     \<and> apart (dc_addr d) (unat (dc_len d)) (q_used_ring q) (6 + 8 * unat (q_size q))"

definition good_request :: "'m guest_memory \<Rightarrow> 'm \<Rightarrow> queue \<Rightarrow> bool" where
  "good_request g m q \<longleftrightarrow>
     (case next_head g m q of None \<Rightarrow> False | Some c \<Rightarrow> list_all (good_buffer g m q) (desc_iter g m c))"

text \<open>The descriptors of the request \<open>j\<close> places ahead, and what filling descriptors writes.\<close>

definition advanced :: "queue \<Rightarrow> nat \<Rightarrow> queue" where
  "advanced q j = q\<lparr>q_next_avail := q_next_avail q + of_nat j\<rparr>"

definition request_chain :: "'m guest_memory \<Rightarrow> 'm \<Rightarrow> queue \<Rightarrow> nat \<Rightarrow> descriptor_chain list" where
  "request_chain g m q j = (case next_head g m (advanced q j) of None \<Rightarrow> [] | Some c \<Rightarrow> desc_iter g m c)"

fun fills :: "'m rng_env \<Rightarrow> nat \<Rightarrow> descriptor_chain list \<Rightarrow> (u64 \<times> u8 list) list" where
  "fills env k [] = []"
| "fills env k (d # ds) =
     (dc_addr d, case entropy env k (unat (dc_len d)) of None \<Rightarrow> [] | Some bs \<Rightarrow> bs) # fills env (k + 1) ds"

fun serve_writes :: "'m rng_env \<Rightarrow> queue \<Rightarrow> nat \<Rightarrow> u16 \<Rightarrow> descriptor_chain list list \<Rightarrow> (u64 \<times> u8 list) list" where
  "serve_writes env q k u [] = []"
| "serve_writes env q k u (c # cs) =
     fills env k c @ completion q u (dc_index (hd c)) (sum_list (map dc_len c))
       @ serve_writes env q (k + length c) (u + 1) cs"

lemma serve_writes_split:
  "serve_writes env q k u (c # cs) = serve_writes env q k u [c] @ serve_writes env q (k + length c) (u + 1) cs"
  by simp

lemma serve_writes_same: "same_rings q q' \<Longrightarrow> serve_writes env q' k u cs = serve_writes env q k u cs"
  by (induction env q k u cs rule: serve_writes.induct) (simp_all add: completion_same)

lemma desc_iter_same:
  assumes "mapping_laws g" "same_view g q m m'"
  shows "dc_desc_table c = q_desc_table q \<Longrightarrow> dc_queue_size c = q_size q \<Longrightarrow> desc_iter g m' c = desc_iter g m c"
proof (induction "unat (dc_ttl c)" arbitrary: c rule: less_induct)
  case less
  have nxt: "next_descriptor g m' c = next_descriptor g m c"
    by (rule next_descriptor_same [OF assms less.prems])
  show ?case
  proof (cases "next_descriptor g m c")
    case (Some d)
    have "unat (dc_ttl d) < unat (dc_ttl c)" using next_descriptor_ttl [OF Some] by simp
    then have "desc_iter g m' d = desc_iter g m d"
      using less.hyps [of d] next_descriptor_facts [OF Some] less.prems by simp
    then show ?thesis using nxt Some by (simp add: desc_iter.simps [of _ _ c])
  qed (use nxt in \<open>simp add: desc_iter.simps [of _ _ c]\<close>)
qed

lemma checked_write:
  assumes "guest_memory_laws g" "gm_check g m a (length bs)"
  obtains m' where "gm_write g m a bs = Some m'"
proof -
  have "within a (length bs) a (length bs)" by (simp add: within_def)
  then have "gm_write g m a bs \<noteq> None" using assms unfolding guest_memory_laws_def by meson
  then show thesis using that by blast
qed

lemma fill_all:
  assumes laws: "guest_memory_laws g" "mapping_laws g" and bytes: "\<And>k n. \<exists>bs. entropy env k n = Some bs \<and> length bs = n"
  shows "same_view g q m mem \<Longrightarrow> dc_desc_table c = q_desc_table q \<Longrightarrow> dc_queue_size c = q_size q \<Longrightarrow>
    list_all (good_buffer g m q) (desc_iter g m c) \<Longrightarrow>
    \<exists>mem'. rng_fill env g k mem c w
        = (True, k + length (desc_iter g m c), mem', w + sum_list (map dc_len (desc_iter g m c)))
      \<and> same_view g q m mem' \<and> gm_writes g mem (fills env k (desc_iter g m c)) = Some mem'"
proof (induction "unat (dc_ttl c)" arbitrary: c k mem w rule: less_induct)
  case less
  obtain bs where bs: "entropy env k (unat (dc_len c)) = Some bs" "length bs = unat (dc_len c)" using bytes by blast
  have good: "good_buffer g m q c" using less.prems(4) by (simp add: desc_iter.simps [of g m c])
  then have "gm_check g mem (dc_addr c) (length bs)"
    using less.prems(1) bs(2) by (simp add: good_buffer_def same_view_def)
  then obtain mem1 where mem1: "gm_write g mem (dc_addr c) bs = Some mem1" by (rule checked_write [OF laws(1)])
  have view: "same_view g q m mem1"
    using same_view_trans [OF less.prems(1) same_view_write [OF laws mem1]] good bs(2) by (simp add: good_buffer_def)
  have nxt: "next_descriptor g mem c = next_descriptor g m c"
    by (rule next_descriptor_same [OF laws(2) less.prems(1-3)])
  show ?case
  proof (cases "next_descriptor g m c")
    case None
    then show ?thesis
      using bs mem1 nxt view by (simp add: rng_fill.simps [of env g k mem c] desc_iter.simps [of g m c])
  next
    case (Some d)
    have ttl: "unat (dc_ttl d) < unat (dc_ttl c)" using next_descriptor_ttl [OF Some] by simp
    have "list_all (good_buffer g m q) (desc_iter g m d)"
      using less.prems(4) Some by (simp add: desc_iter.simps [of g m c])
    then obtain mem' where "rng_fill env g (k + 1) mem1 d (w + dc_len c)
        = (True, k + 1 + length (desc_iter g m d), mem', w + dc_len c + sum_list (map dc_len (desc_iter g m d)))"
      "same_view g q m mem'" "gm_writes g mem1 (fills env (k + 1) (desc_iter g m d)) = Some mem'"
      using less.hyps [OF ttl view, of "k + 1" "w + dc_len c"] next_descriptor_facts [OF Some] less.prems(2, 3) by auto
    then show ?thesis
      using bs mem1 nxt Some
      by (simp add: rng_fill.simps [of env g k mem c] desc_iter.simps [of g m c] add.assoc)
  qed
qed

lemma good_request_same:
  assumes "guest_memory_laws g" "mapping_laws g" "sound_queue g m q" "same_view g q m m'" "same_rings q q'"
    "q_next_avail q' = q_next_avail q"
  shows "good_request g m' q' = good_request g m q"
proof -
  have head: "next_head g m' q' = next_head g m q"
    by (simp add: same_rings_reads(2) [OF assms(5, 6)] next_head_same [OF assms(1-4)])
  have "good_buffer g m' q' = good_buffer g m q"
    using assms(4, 5) by (intro ext) (simp add: good_buffer_def same_view_def same_rings_def outside_def)
  then show ?thesis
    unfolding good_request_def head
    by (auto simp: desc_iter_same [OF assms(2, 4)] dest: next_head_facts split: option.splits)
qed

lemma request_chain_same:
  assumes "guest_memory_laws g" "mapping_laws g" "sound_queue g m q" "same_view g q m m'" "same_rings q q'"
    "q_next_avail q' = q_next_avail q + of_nat i"
  shows "request_chain g m' q' j = request_chain g m q (i + j)"
proof -
  have rings: "same_rings q (advanced q (i + j))" "same_rings (advanced q (i + j)) (advanced q' j)"
    using assms(5) by (simp_all add: same_rings_def advanced_def)
  have "sound_queue g m (advanced q (i + j))" "same_view g (advanced q (i + j)) m m'"
    using sound_queue_same [OF assms(3) same_view_refl rings(1)] assms(4) by (simp_all add: same_rings_view [OF rings(1)])
  moreover have "q_next_avail (advanced q' j) = q_next_avail (advanced q (i + j))" using assms(6) by (simp add: advanced_def)
  ultimately have head: "next_head g m' (advanced q' j) = next_head g m (advanced q (i + j))"
    using same_rings_reads(2) [OF rings(2)] next_head_same [OF assms(1, 2)] by metis
  have "desc_iter g m' c = desc_iter g m c" if "next_head g m (advanced q (i + j)) = Some c" for c
    using desc_iter_same [OF assms(2, 4), of c] next_head_facts [OF that] by (simp add: advanced_def)
  then show ?thesis by (auto simp: request_chain_def head split: option.split)
qed

lemma serve_one:
  assumes laws: "guest_memory_laws g" "mapping_laws g" "\<And>k n. \<exists>bs. entropy env k n = Some bs \<and> length bs = n"
    and q: "sound_queue g m q" "avail_idx g m q \<noteq> Inr (q_next_avail q)" "good_request g m q"
  obtains m' where
    "rng_loop env g k m q used = rng_loop env g (k + length (request_chain g m q 0)) m' (served (advanced q (Suc 0))) True"
    "same_view g q m m'" "load_u16 g m' (q_used_ring q + 2) = Inr (q_next_used q + 1)"
    "gm_writes g m (serve_writes env q k (q_next_used q) [request_chain g m q 0]) = Some m'"
proof -
  let ?q = "advanced q (Suc 0)"
  have rings: "same_rings q ?q" by (simp add: advanced_def)
  obtain c where c: "next_head g m q = Some c" "list_all (good_buffer g m q) (desc_iter g m c)"
    using q(3) by (auto simp: good_request_def split: option.splits)
  have pop: "queue_pop g m q = Inr (Some c, ?q)"
    using pop_head [OF laws(1) q(1)] c(1) q(2) by (auto simp: advanced_def)
  note facts = next_head_facts [OF c(1)]
  have chain: "request_chain g m q 0 = desc_iter g m c" "hd (desc_iter g m c) = c"
    using c(1) by (simp_all add: request_chain_def advanced_def desc_iter.simps [of g m c])
  let ?k = "k + length (desc_iter g m c)" and ?w = "sum_list (map dc_len (desc_iter g m c))"
  obtain m1 where fill: "rng_fill env g k m c 0 = (True, ?k, m1, ?w)" and view: "same_view g q m m1"
    and filled: "gm_writes g m (fills env k (desc_iter g m c)) = Some m1"
    using fill_all [OF laws same_view_refl _ _ c(2), of k 0] facts by auto
  have sound: "sound_queue g m1 ?q" by (rule sound_queue_same [OF q(1) view rings])
  have head: "dc_index c < q_size ?q" using facts by (simp add: advanced_def)
  obtain m2 r where used: "add_used g (dc_index c) ?w (m1, ?q) = (r, m2, served ?q)" "same_view g ?q m1 m2"
    "load_u16 g m2 (q_used_ring ?q + 2) = Inr (q_next_used ?q + 1)"
    and completed: "gm_writes g m1 (completion ?q (q_next_used ?q) (dc_index c) ?w) = Some m2"
    by (rule add_used_view [OF laws(1, 2) sound head])
  have "gm_writes g m (serve_writes env q k (q_next_used q) [request_chain g m q 0]) = Some m2"
    using filled completed chain by (simp add: gm_writes_append completion_same [OF rings]) (simp add: advanced_def)
  moreover have "rng_loop env g k m q used = rng_loop env g ?k m2 (served ?q) True"
    using pop fill used(1) by (subst rng_loop.simps) simp
  moreover have "same_view g q m m2"
    by (rule same_view_trans [OF view]) (use used(2) in \<open>simp add: same_rings_view [OF rings]\<close>)
  ultimately show thesis using that used(3) chain by (simp add: advanced_def)
qed

lemma drained:
  assumes laws: "guest_memory_laws g" "mapping_laws g" "\<And>k n. \<exists>bs. entropy env k n = Some bs \<and> length bs = n"
  shows "sound_queue g m q \<Longrightarrow> avail_idx g m q = Inr (q_next_avail q + of_nat n) \<Longrightarrow> n < 65536 \<Longrightarrow>
    (\<And>j. j < n \<Longrightarrow> good_request g m (advanced q j)) \<Longrightarrow>
    \<exists>k' m' q'. rng_loop env g k m q used = Some (Inr (k', m', q', used \<or> 0 < n)) \<and> same_rings q q'
      \<and> gm_writes g m (serve_writes env q k (q_next_used q) (map (request_chain g m q) [0..<n])) = Some m'
      \<and> q_next_avail q' = q_next_avail q + of_nat n \<and> q_next_used q' = q_next_used q + of_nat n
      \<and> same_view g q m m' \<and> (if n = 0 then m' = m else load_u16 g m' (q_used_ring q + 2) = Inr (q_next_used q'))"
proof (induction n arbitrary: k m q used)
  case 0
  then have "queue_pop g m q = Inr (None, q)" using pop_head [OF laws(1) "0.prems"(1)] by auto
  then show ?case by (subst rng_loop.simps) (simp add: same_rings_def)
next
  case (Suc n)
  let ?q = "served (advanced q (Suc 0))"
  have rings: "same_rings q ?q" by (simp add: same_rings_def served_def advanced_def)
  have "unat (of_nat (Suc n) :: u16) = Suc n" using Suc.prems(3) by (simp only: unat_of_nat) simp
  then have "of_nat (Suc n) \<noteq> (0 :: u16)" by (metis nat.distinct(1) unsigned_0)
  then have idx: "avail_idx g m q \<noteq> Inr (q_next_avail q)" using Suc.prems(2) by simp
  have "good_request g m q" using Suc.prems(4) [of 0] by (simp add: advanced_def)
  then obtain m' where one: "rng_loop env g k m q used = rng_loop env g (k + length (request_chain g m q 0)) m' ?q True"
    and view: "same_view g q m m'" and used: "load_u16 g m' (q_used_ring q + 2) = Inr (q_next_used q + 1)"
    and writes: "gm_writes g m (serve_writes env q k (q_next_used q) [request_chain g m q 0]) = Some m'"
    by (rule serve_one [OF laws Suc.prems(1) idx])
  let ?k = "k + length (request_chain g m q 0)"
  have sound: "sound_queue g m' ?q" by (rule sound_queue_same [OF Suc.prems(1) view rings])
  have idx': "avail_idx g m' ?q = Inr (q_next_avail ?q + of_nat n)"
    unfolding same_rings_reads(1) [OF rings] avail_idx_same [OF laws(1) Suc.prems(1) view] Suc.prems(2)
    by (simp add: served_def advanced_def)
  have good: "good_request g m' (advanced ?q j)" if "j < n" for j
  proof -
    have eq: "same_rings (advanced q (Suc j)) (advanced ?q j)" "q_next_avail (advanced ?q j) = q_next_avail (advanced q (Suc j))"
      "same_rings q (advanced q (Suc j))"
      by (simp_all add: same_rings_def advanced_def served_def)
    have "sound_queue g m (advanced q (Suc j))" by (rule sound_queue_same [OF Suc.prems(1) same_view_refl eq(3)])
    moreover have "same_view g (advanced q (Suc j)) m m'" using view by (simp add: same_rings_view [OF eq(3)])
    ultimately show ?thesis using good_request_same [OF laws(1, 2) _ _ eq(1, 2)] Suc.prems(4) [of "Suc j"] that by blast
  qed
  have n: "n < 65536" using Suc.prems(3) by simp
  obtain k2 m2 q2 where rest: "rng_loop env g ?k m' ?q True = Some (Inr (k2, m2, q2, True))" "same_rings ?q q2"
    "q_next_avail q2 = q_next_avail ?q + of_nat n" "q_next_used q2 = q_next_used ?q + of_nat n" "same_view g ?q m' m2"
    and last: "if n = 0 then m2 = m' else load_u16 g m2 (q_used_ring ?q + 2) = Inr (q_next_used q2)"
    and more: "gm_writes g m' (serve_writes env ?q ?k (q_next_used ?q) (map (request_chain g m' ?q) [0..<n])) = Some m2"
    using Suc.IH [OF sound idx' n good, of ?k True] by auto
  have used_next: "q_next_used ?q = q_next_used q + 1" by (simp add: served_def advanced_def)
  have "request_chain g m' ?q j = request_chain g m q (Suc j)" for j
    using request_chain_same [OF laws(1, 2) Suc.prems(1) view rings, of 1 j] by (simp add: served_def advanced_def)
  then have "map (request_chain g m q) [0..<Suc n] = request_chain g m q 0 # map (request_chain g m' ?q) [0..<n]"
    by (simp add: map_upt_Suc del: upt_Suc)
  then have "gm_writes g m (serve_writes env q k (q_next_used q) (map (request_chain g m q) [0..<Suc n])) = Some m2"
    using more unfolding serve_writes_same [OF rings] used_next
    by (simp only: serve_writes_split [of env q k _ _ "map _ _"] gm_writes_append writes option.simps)
  moreover have "same_view g q m m2"
    by (rule same_view_trans [OF view]) (use rest(5) in \<open>simp add: same_rings_view [OF rings]\<close>)
  moreover have "same_rings q q2" using rest(2) rings by (simp add: same_rings_def)
  moreover have "load_u16 g m2 (q_used_ring q + 2) = Inr (q_next_used q2)"
    using last used rest(4) by (auto simp: served_def advanced_def split: if_splits)
  ultimately show ?case
    using one rest(1, 3, 4)
    by (intro exI [of _ k2] exI [of _ m2] exI [of _ q2]) (simp add: served_def advanced_def)
qed

section \<open>What the guest finds\<close>

definition ring_fits :: "queue \<Rightarrow> bool" where
  "ring_fits q \<longleftrightarrow> unat (q_used_ring q) + (6 + 8 * unat (q_size q)) \<le> 2 ^ 64
     \<and> 0 < unat (q_size q) \<and> unat (q_size q) dvd 65536"

lemma sound_ring_fits:
  assumes "guest_memory_laws g" "sound_queue g m q"
  shows "ring_fits q"
proof -
  have v: "valid_layout g m q" using assms(2) by (simp add: sound_queue_def)
  then have "unat (q_used_ring q) + (6 + 8 * unat (q_size q)) \<le> 2 ^ 64"
    using valid_layout_facts(2) [OF v] assms(1) unfolding guest_memory_laws_def by meson
  then show ?thesis using valid_layout_facts(4, 5) [OF v] by (simp add: ring_fits_def)
qed

definition slot_no :: "queue \<Rightarrow> u16 \<Rightarrow> nat" where
  "slot_no q u = unat u mod unat (q_size q)"

lemma ring_places:
  assumes "ring_fits q"
  shows "unat (slot_at q u) = unat (q_used_ring q) + (4 + 8 * slot_no q u)"
    "unat (q_used_ring q + 2) = unat (q_used_ring q) + 2" "slot_no q u < unat (q_size q)"
proof -
  show less: "slot_no q u < unat (q_size q)" using assms by (simp add: ring_fits_def slot_no_def)
  have slot: "unat (used_slot (q\<lparr>q_next_used := u\<rparr>)) = 4 + 8 * slot_no q u"
    by (simp add: unat_used_slot slot_no_def)
  have "unat (q_used_ring q) + (4 + 8 * slot_no q u) < 2 ^ 64" using assms less unfolding ring_fits_def by linarith
  then show "unat (slot_at q u) = unat (q_used_ring q) + (4 + 8 * slot_no q u)"
    unfolding slot_at_def by (subst unat_add_no_overflow) (simp_all add: slot)
  have "unat (q_used_ring q) + 2 < 2 ^ 64" using assms unfolding ring_fits_def by linarith
  then show "unat (q_used_ring q + 2) = unat (q_used_ring q) + 2" by (subst unat_add_no_overflow) simp_all
qed

lemma slots_differ:
  assumes "ring_fits q" "0 < j" "j < unat (q_size q)"
  shows "slot_no q (u + of_nat j) \<noteq> slot_no q u"
proof -
  have "unat (u + of_nat j) = (unat u + j) mod 65536" by (simp add: unat_word_ariths unat_of_nat mod_simps)
  then have "slot_no q (u + of_nat j) = (unat u + j) mod unat (q_size q)"
    using assms(1) by (simp add: slot_no_def ring_fits_def mod_mod_cancel)
  moreover have "(unat u + j) mod unat (q_size q) \<noteq> unat u mod unat (q_size q)"
    using assms(2, 3) by (auto simp: mod_eq_dvd_iff_nat dest: nat_dvd_not_less)
  ultimately show ?thesis by (simp add: slot_no_def)
qed

definition clear_of_ring :: "queue \<Rightarrow> descriptor_chain \<Rightarrow> bool" where
  "clear_of_ring q d \<longleftrightarrow> apart (dc_addr d) (unat (dc_len d)) (q_used_ring q) (6 + 8 * unat (q_size q))"

definition buffers_apart :: "descriptor_chain \<Rightarrow> descriptor_chain \<Rightarrow> bool" where
  "buffers_apart d e \<longleftrightarrow> apart (dc_addr d) (unat (dc_len d)) (dc_addr e) (unat (dc_len e))"

lemma fills_set:
  assumes "\<And>k n. \<exists>bs. entropy env k n = Some bs \<and> length bs = n"
  shows "(a, bs) \<in> set (fills env k ds) \<Longrightarrow> \<exists>d \<in> set ds. a = dc_addr d \<and> length bs = unat (dc_len d)"
proof (induction ds arbitrary: k)
  case (Cons d ds)
  obtain cs where "entropy env k (unat (dc_len d)) = Some cs" "length cs = unat (dc_len d)" using assms by blast
  then show ?case using Cons by auto
qed simp

text \<open>The writes of serving: to a buffer, to a slot of the used ring, or of the published index.\<close>

lemma serve_writes_set:
  assumes bytes: "\<And>k n. \<exists>bs. entropy env k n = Some bs \<and> length bs = n"
  shows "(a, bs) \<in> set (serve_writes env q k u cs) \<Longrightarrow>
    (\<exists>d \<in> set (concat cs). a = dc_addr d \<and> length bs = unat (dc_len d))
    \<or> (\<exists>j < length cs. a = slot_at q (u + of_nat j) \<and> length bs = 8) \<or> (a = q_used_ring q + 2 \<and> length bs = 2)"
proof (induction cs arbitrary: k u)
  case (Cons c cs)
  then consider "(a, bs) \<in> set (fills env k c)"
    | "(a, bs) \<in> set (completion q u (dc_index (hd c)) (sum_list (map dc_len c)))"
    | "(a, bs) \<in> set (serve_writes env q (k + length c) (u + 1) cs)" by auto
  then show ?case
  proof cases
    case 1
    then show ?thesis using fills_set [OF bytes 1] by auto
  next
    case 2
    then show ?thesis by (auto simp: completion_def)
  next
    case 3
    from Cons.IH [OF 3] show ?thesis
    proof (elim disjE)
      assume "\<exists>j < length cs. a = slot_at q (u + 1 + of_nat j) \<and> length bs = 8"
      then obtain j where "j < length cs" "a = slot_at q (u + 1 + of_nat j)" "length bs = 8" by blast
      then have "Suc j < length (c # cs)" "a = slot_at q (u + of_nat (Suc j))" "length bs = 8" by (simp_all add: add.assoc)
      then show ?thesis by blast
    qed auto
  qed
qed simp

lemma serve_frame:
  assumes laws: "guest_memory_laws g" and bytes: "\<And>k n. \<exists>bs. entropy env k n = Some bs \<and> length bs = n"
    and q: "ring_fits q" and w: "gm_writes g m (serve_writes env q k u cs) = Some m'"
    and bufs: "\<And>d. d \<in> set (concat cs) \<Longrightarrow> apart (dc_addr d) (unat (dc_len d)) a n"
    and slots: "\<And>j. j < length cs \<Longrightarrow> apart (slot_at q (u + of_nat j)) 8 a n" and idx: "apart (q_used_ring q + 2) 2 a n"
  shows "gm_read g m' a n = gm_read g m a n"
proof (rule writes_frame [OF laws w])
  fix b bs
  assume "(b, bs) \<in> set (serve_writes env q k u cs)"
  from serve_writes_set [OF bytes this] show "apart b (length bs) a n"
    by (elim disjE bexE exE conjE) (simp_all only: bufs slots idx)
qed

text \<open>A place outside of the used ring is apart from all that completing writes, and a buffer clear of it from all slots.\<close>

lemma ring_apart:
  assumes "ring_fits q" "apart a n (q_used_ring q) (6 + 8 * unat (q_size q))"
  shows "apart (slot_at q u) 8 a n" "apart a n (slot_at q u) 8" "apart (q_used_ring q + 2) 2 a n"
  using assms(2) ring_places(3) [OF assms(1), of u] unfolding apart_def ring_places(1, 2) [OF assms(1)] by linarith+

lemma completion_frame:
  assumes "guest_memory_laws g" "ring_fits q" "gm_writes g m (completion q u h l) = Some m'"
    and "apart a n (q_used_ring q) (6 + 8 * unat (q_size q))"
  shows "gm_read g m' a n = gm_read g m a n"
  by (rule writes_frame [OF assms(1, 3)]) (use ring_apart [OF assms(2, 4)] in \<open>auto simp: completion_def\<close>)

lemma fill_read:
  assumes laws: "guest_memory_laws g" and bytes: "\<And>k n. \<exists>bs. entropy env k n = Some bs \<and> length bs = n"
  shows "gm_writes g m (fills env k ds) = Some m' \<Longrightarrow> i < length ds \<Longrightarrow>
    (\<And>i'. i < i' \<Longrightarrow> i' < length ds \<Longrightarrow> buffers_apart (ds ! i') (ds ! i)) \<Longrightarrow>
    gm_read g m' (dc_addr (ds ! i)) (unat (dc_len (ds ! i))) = entropy env (k + i) (unat (dc_len (ds ! i)))"
proof (induction ds arbitrary: m k i)
  case (Cons d ds)
  obtain bs where bs: "entropy env k (unat (dc_len d)) = Some bs" "length bs = unat (dc_len d)" using bytes by blast
  then obtain m1 where m1: "gm_write g m (dc_addr d) bs = Some m1" "gm_writes g m1 (fills env (k + 1) ds) = Some m'"
    using Cons.prems(1) by (auto split: option.splits)
  show ?case
  proof (cases i)
    case 0
    have "gm_read g m' (dc_addr d) (unat (dc_len d)) = gm_read g m1 (dc_addr d) (unat (dc_len d))"
    proof (rule writes_frame [OF laws m1(2)])
      fix b cs
      assume "(b, cs) \<in> set (fills env (k + 1) ds)"
      then obtain e where e: "e \<in> set ds" "b = dc_addr e" "length cs = unat (dc_len e)" using fills_set [OF bytes] by blast
      then obtain l where "l < length ds" "ds ! l = e" by (auto simp: in_set_conv_nth)
      then have "buffers_apart e d" using Cons.prems(3) [of "Suc l"] 0 by simp
      then show "apart b (length cs) (dc_addr d) (unat (dc_len d))" using e by (simp add: buffers_apart_def)
    qed
    then show ?thesis using write_read(1) [OF laws m1(1)] bs 0 by simp
  next
    case (Suc l)
    then show ?thesis using Cons.IH [OF m1(2), of l] Cons.prems(2) Cons.prems(3) [of "Suc _"] by simp
  qed
qed simp

lemma slot_address:
  assumes "ring_fits q"
  shows "slot_at q (u + of_nat j) = q_used_ring q + of_nat (4 + 8 * ((unat u + j) mod unat (q_size q)))"
proof -
  let ?q = "q\<lparr>q_next_used := u + of_nat j\<rparr>"
  have "unat (u + of_nat j) = (unat u + j) mod 65536" by (simp add: unat_word_ariths unat_of_nat mod_simps)
  then have "unat (u + of_nat j) mod unat (q_size q) = (unat u + j) mod unat (q_size q)"
    using assms by (simp add: ring_fits_def mod_mod_cancel)
  then have "unat (used_slot ?q) = 4 + 8 * ((unat u + j) mod unat (q_size q))" by (simp add: unat_used_slot)
  then have "used_slot ?q = of_nat (4 + 8 * ((unat u + j) mod unat (q_size q)))" by (metis of_nat_unat ucast_id)
  then show ?thesis by (simp add: slot_at_def)
qed

lemma serve_cases:
  assumes "gm_writes g m (serve_writes env q k u (c # cs)) = Some m'"
  obtains m1 m2 where "gm_writes g m (fills env k c) = Some m1"
    "gm_writes g m1 (completion q u (dc_index (hd c)) (sum_list (map dc_len c))) = Some m2"
    "gm_writes g m2 (serve_writes env q (k + length c) (u + 1) cs) = Some m'"
  using assms by (auto simp: gm_writes_append split: option.splits)

text \<open>A buffer that no later one overlaps holds the bytes drawn for it.\<close>

lemma serve_buffers:
  assumes laws: "guest_memory_laws g" and bytes: "\<And>k n. \<exists>bs. entropy env k n = Some bs \<and> length bs = n" and q: "ring_fits q"
  shows "gm_writes g m (serve_writes env q k u cs) = Some m' \<Longrightarrow> (\<And>d. d \<in> set (concat cs) \<Longrightarrow> clear_of_ring q d) \<Longrightarrow>
    i < length (concat cs) \<Longrightarrow>
    (\<And>i'. i < i' \<Longrightarrow> i' < length (concat cs) \<Longrightarrow> buffers_apart (concat cs ! i') (concat cs ! i)) \<Longrightarrow>
    gm_read g m' (dc_addr (concat cs ! i)) (unat (dc_len (concat cs ! i)))
      = entropy env (k + i) (unat (dc_len (concat cs ! i)))"
proof (induction cs arbitrary: m k u i)
  case (Cons c cs)
  obtain m1 m2 where m1: "gm_writes g m (fills env k c) = Some m1"
    and m2: "gm_writes g m1 (completion q u (dc_index (hd c)) (sum_list (map dc_len c))) = Some m2"
    and rest: "gm_writes g m2 (serve_writes env q (k + length c) (u + 1) cs) = Some m'"
    by (rule serve_cases [OF Cons.prems(1)])
  show ?case
  proof (cases "i < length c")
    case True
    let ?d = "c ! i" and ?a = "dc_addr (c ! i)" and ?n = "unat (dc_len (c ! i))"
    have d: "concat (c # cs) ! i = ?d" using True by (simp add: nth_append)
    have later: "buffers_apart (c ! i') ?d" if "i < i'" "i' < length c" for i'
      using Cons.prems(4) [of i'] that d by (simp add: nth_append)
    have clear: "apart ?a ?n (q_used_ring q) (6 + 8 * unat (q_size q))"
      using Cons.prems(2) [of ?d] True by (simp add: clear_of_ring_def)
    have beyond: "apart (dc_addr e) (unat (dc_len e)) ?a ?n" if e: "e \<in> set (concat cs)" for e
    proof -
      obtain l where "l < length (concat cs)" "concat cs ! l = e" using e by (auto simp only: in_set_conv_nth)
      then show ?thesis
        using Cons.prems(4) [of "length c + l"] True d by (simp add: nth_append buffers_apart_def)
    qed
    have "gm_read g m' ?a ?n = gm_read g m2 ?a ?n"
      by (rule serve_frame [OF laws bytes q rest beyond]) (use ring_apart [OF q clear] in blast)+
    also have "\<dots> = gm_read g m1 ?a ?n" by (rule completion_frame [OF laws q m2 clear])
    also have "\<dots> = entropy env (k + i) ?n" by (rule fill_read [OF laws bytes m1 True later])
    finally show ?thesis unfolding d .
  next
    case False
    let ?i = "i - length c"
    have nth: "concat (c # cs) ! i = concat cs ! ?i" using False by (simp add: nth_append)
    have "?i < length (concat cs)" using Cons.prems(3) False by simp
    moreover have "buffers_apart (concat cs ! i') (concat cs ! ?i)" if "?i < i'" "i' < length (concat cs)" for i'
      using Cons.prems(4) [of "length c + i'"] that False nth by (simp add: nth_append)
    ultimately have "gm_read g m' (dc_addr (concat cs ! ?i)) (unat (dc_len (concat cs ! ?i)))
        = entropy env (k + length c + ?i) (unat (dc_len (concat cs ! ?i)))"
      using Cons.IH [OF rest] Cons.prems(2) by simp
    then show ?thesis unfolding nth using False by simp
  qed
qed simp

text \<open>A slot of the used ring that no later request takes names its request and how much was written.\<close>

definition used_element :: "descriptor_chain list \<Rightarrow> u8 list" where
  "used_element c = le_bytes 4 (unat (dc_index (hd c))) @ le_bytes 4 (unat (sum_list (map dc_len c)))"

lemma completion_read:
  assumes "guest_memory_laws g" "ring_fits q"
    "gm_writes g m (completion q u (dc_index (hd c)) (sum_list (map dc_len c))) = Some m'"
  shows "gm_read g m' (slot_at q u) 8 = Some (used_element c)"
proof -
  obtain m1 where m1: "gm_write g m (slot_at q u) (used_element c) = Some m1"
    "gm_write g m1 (q_used_ring q + 2) (le_bytes 2 (unat (u + 1))) = Some m'"
    using assms(3) by (auto simp: completion_def used_element_def split: option.splits)
  have "apart (q_used_ring q + 2) 2 (slot_at q u) 8"
    unfolding apart_def ring_places(1, 2) [OF assms(2)] by linarith
  then have "gm_read g m' (slot_at q u) 8 = gm_read g m1 (slot_at q u) 8"
    using write_read(3) [OF assms(1) m1(2)] by simp
  then show ?thesis using write_read(1) [OF assms(1) m1(1)] by (simp add: used_element_def)
qed

lemma serve_slots:
  assumes laws: "guest_memory_laws g" and bytes: "\<And>k n. \<exists>bs. entropy env k n = Some bs \<and> length bs = n" and q: "ring_fits q"
  shows "gm_writes g m (serve_writes env q k u cs) = Some m' \<Longrightarrow> (\<And>d. d \<in> set (concat cs) \<Longrightarrow> clear_of_ring q d) \<Longrightarrow>
    j < length cs \<Longrightarrow> length cs \<le> j + unat (q_size q) \<Longrightarrow>
    gm_read g m' (slot_at q (u + of_nat j)) 8 = Some (used_element (cs ! j))"
proof (induction cs arbitrary: m k u j)
  case (Cons c cs)
  obtain m1 m2 where m2: "gm_writes g m1 (completion q u (dc_index (hd c)) (sum_list (map dc_len c))) = Some m2"
    and rest: "gm_writes g m2 (serve_writes env q (k + length c) (u + 1) cs) = Some m'"
    by (rule serve_cases [OF Cons.prems(1)])
  show ?case
  proof (cases j)
    case 0
    have "gm_read g m' (slot_at q u) 8 = gm_read g m2 (slot_at q u) 8"
    proof (rule serve_frame [OF laws bytes q rest])
      show "apart (dc_addr d) (unat (dc_len d)) (slot_at q u) 8" if "d \<in> set (concat cs)" for d
        using Cons.prems(2) [of d] that ring_apart(2) [OF q] by (simp add: clear_of_ring_def)
      show "apart (slot_at q (u + 1 + of_nat l)) 8 (slot_at q u) 8" if "l < length cs" for l
      proof -
        have "slot_no q (u + of_nat (Suc l)) \<noteq> slot_no q u"
          by (rule slots_differ [OF q]) (use that Cons.prems(4) 0 in simp_all)
        then have "slot_no q (u + 1 + of_nat l) \<noteq> slot_no q u" by (simp add: add.assoc)
        then show ?thesis unfolding apart_def ring_places(1) [OF q] by linarith
      qed
      show "apart (q_used_ring q + 2) 2 (slot_at q u) 8"
        unfolding apart_def ring_places(1, 2) [OF q] by linarith
    qed
    then show ?thesis using completion_read [OF laws q m2] 0 by simp
  next
    case (Suc l)
    then show ?thesis using Cons.IH [OF rest, of l] Cons.prems(2-4) by (simp add: add.assoc)
  qed
qed simp

section \<open>Properties\<close>

lemma request_clear:
  assumes "good_request g m (advanced q j)" "d \<in> set (request_chain g m q j)"
  shows "clear_of_ring q d"
  using assms by (auto simp: good_request_def request_chain_def clear_of_ring_def good_buffer_def list_all_iff advanced_def
      split: option.splits)

text \<open>
  C11. The entropy device serves what it is asked, as long as it can draw entropy and the buffers of all
  available requests lie in memory, apart from the rings. The requests may be chains of any shape. Handling the event ends, and then
  every available request has been taken and completed. The buffers hold the entropy drawn for
  them, one draw for each in order; of buffers that overlap the last one counts. For every request
  the used ring names its head and the number of bytes written to it, unless so many requests were
  available that its slot was taken again. Nothing else in memory changed. Both ring indices moved by the number of requests, the
  used index is published, the event counter is reset, and the guest is interrupted exactly
  when something was completed.
\<close>

theorem rng_serves_requests:
  assumes "guest_memory_laws g" "mapping_laws g" "\<And>k n. \<exists>bs. entropy env k n = Some bs \<and> length bs = n"
    "rng_queues (mm_device t) = Some ((q, e) # dqs)" "rng_active (mm_device t)" "\<not> rng_frozen (mm_device t)"
    "sound_queue g m q" "avail_idx g m q = Inr (q_next_avail q + of_nat n)" "n < 65536"
    "\<And>j. j < n \<Longrightarrow> good_request g m (advanced q j)"
  shows "let bufs = concat (map (request_chain g m q) [0..<n]) in
    \<exists>m' t' q'. handle_req_event True True env g k m t = Some (Inr (m', t'))
    \<and> (\<forall>i < length bufs. (\<forall>i'. i < i' \<and> i' < length bufs \<longrightarrow> buffers_apart (bufs ! i') (bufs ! i)) \<longrightarrow>
         gm_read g m' (dc_addr (bufs ! i)) (unat (dc_len (bufs ! i))) = entropy env (k + i) (unat (dc_len (bufs ! i))))
    \<and> (\<forall>j < n. n \<le> j + unat (q_size q) \<longrightarrow>
         gm_read g m' (q_used_ring q + of_nat (4 + 8 * ((unat (q_next_used q) + j) mod unat (q_size q)))) 8
           = Some (used_element (request_chain g m q j)))
    \<and> (\<forall>a l. (\<forall>d \<in> set bufs. apart (dc_addr d) (unat (dc_len d)) a l)
           \<and> apart a l (q_used_ring q) (6 + 8 * unat (q_size q)) \<longrightarrow> gm_read g m' a l = gm_read g m a l)
    \<and> rng_queues (mm_device t') = Some ((q', e) # dqs) \<and> same_rings q q'
    \<and> q_next_avail q' = q_next_avail q + of_nat n \<and> q_next_used q' = q_next_used q + of_nat n
    \<and> (0 < n \<longrightarrow> load_u16 g m' (q_used_ring q + 2) = Inr (q_next_used q'))
    \<and> queue_evts t' = (queue_evts t)[e := 0]
    \<and> interrupt_status t' = (if n = 0 then interrupt_status t else interrupt_status t OR 1)"
proof -
  let ?chains = "map (request_chain g m q) [0..<n]"
  define bufs where "bufs = concat ?chains"
  obtain k' m' q' where loop: "rng_loop env g k m q False = Some (Inr (k', m', q', 0 < n))" "same_rings q q'"
    "q_next_avail q' = q_next_avail q + of_nat n" "q_next_used q' = q_next_used q + of_nat n"
    "if n = 0 then m' = m else load_u16 g m' (q_used_ring q + 2) = Inr (q_next_used q')"
    and w: "gm_writes g m (serve_writes env q k (q_next_used q) ?chains) = Some m'"
    using drained [OF assms(1-3) assms(7-10), of k False] by auto
  have fits: "ring_fits q" by (rule sound_ring_fits [OF assms(1, 7)])
  have clear: "clear_of_ring q d" if "d \<in> set bufs" for d
    using that request_clear [OF assms(10)] by (auto simp: bufs_def)
  have "gm_read g m' a l = gm_read g m a l"
    if "\<forall>d \<in> set bufs. apart (dc_addr d) (unat (dc_len d)) a l" "apart a l (q_used_ring q) (6 + 8 * unat (q_size q))" for a l
    by (rule serve_frame [OF assms(1, 3) fits w]) (use that ring_apart [OF fits that(2)] in \<open>auto simp: bufs_def\<close>)
  moreover have "gm_read g m' (dc_addr (bufs ! i)) (unat (dc_len (bufs ! i))) = entropy env (k + i) (unat (dc_len (bufs ! i)))"
    if "i < length bufs" "\<forall>i'. i < i' \<and> i' < length bufs \<longrightarrow> buffers_apart (bufs ! i') (bufs ! i)" for i
    using serve_buffers [OF assms(1, 3) fits w, of i] that clear unfolding bufs_def by blast
  moreover have "gm_read g m' (q_used_ring q + of_nat (4 + 8 * ((unat (q_next_used q) + j) mod unat (q_size q)))) 8
      = Some (used_element (request_chain g m q j))" if "j < n" "n \<le> j + unat (q_size q)" for j
    using serve_slots [OF assms(1, 3) fits w, of j] that clear unfolding bufs_def slot_address [OF fits] by simp
  moreover have "handle_req_event True True env g k m t = Some (Inr (m', (if 0 < n then signal_used_queue else id)
      (t\<lparr>queue_evts := (queue_evts t)[e := 0], mm_device := (mm_device t)\<lparr>rng_queues := Some ((q', e) # dqs)\<rparr>\<rparr>)))"
    using assms(4-6) loop(1) by (simp add: handle_req_event_def rng_process_req_def Let_def)
  ultimately show ?thesis
    using loop(2-5) unfolding Let_def bufs_def [symmetric]
    by (intro exI [of _ m'] exI [of _ "(if 0 < n then signal_used_queue else id) (t\<lparr>queue_evts := (queue_evts t)[e := 0],
        mm_device := (mm_device t)\<lparr>rng_queues := Some ((q', e) # dqs)\<rparr>\<rparr>)"] exI [of _ q'] conjI)
      (auto simp: signal_used_queue_def try_signal_def VIRTIO_MMIO_INT_VRING_def Let_def)
qed

text \<open>
  C39. A request whose first buffer lies outside of the guest's memory is not refused: handling the event
  never ends. The device takes the request, gives it back, completes it nevertheless and
  finds the same request again.
\<close>

theorem rng_bad_buffer_never_returns:
  assumes "guest_memory_laws g" "mapping_laws g" "rng_env_laws env" "stuck_head env g c m q"
    "rng_queues (mm_device t) = Some ((q, e) # dqs)" "rng_active (mm_device t)" "\<not> rng_frozen (mm_device t)"
  shows "handle_req_event True True env g k m t = None"
proof -
  have "stuck_loop env g k m q False" using assms(1-4) by (auto simp: stuck_loop_def)
  then have "rng_loop env g k m q False = None"
    using rng_loop_returns [of env g k m q False] by (cases "rng_loop env g k m q False") auto
  then show ?thesis using assms(5-7) by (simp add: handle_req_event_def rng_process_req_def)
qed

section \<open>An instance\<close>

lemma ex_gm_mapping: "mapping_laws ex_gm"
proof -
  have "unat (a + of_nat k) = unat a + k" if "unat a + k < 256" for a :: u64 and k
  proof -
    have "unat (of_nat k :: u64) = k" using that by (simp only: unat_of_nat) simp
    then show ?thesis using that by (simp add: unat_add_no_overflow)
  qed
  then show ?thesis by (auto simp: mapping_laws_def ex_gm_def split: if_splits)
qed

text \<open>One request of eight bytes, at address 200 or just behind the end of memory.\<close>

definition rng_mem :: "nat \<Rightarrow> u8" where
  "rng_mem i = (if i = 0 then 200 else if i = 8 then 8 else if i = 12 then 2 else if i = 66 then 1 else 0)"

definition rng_bad_mem :: "nat \<Rightarrow> u8" where
  "rng_bad_mem i = (if i = 1 then 1 else if i = 8 then 8 else if i = 12 then 2 else if i = 66 then 1 else 0)"

definition rng_host :: "'m rng_env" where
  "rng_host = \<lparr>entropy = (\<lambda>k n. Some (replicate n 7)), torn_write = (\<lambda>m a bs. m)\<rparr>"

definition rng_setup :: queue_setup where "rng_setup = (2, 0, 64, 128)"

definition rng_queue :: queue where
  "rng_queue = set_event_idx False (configured rng_setup (queue_new 256))"

definition rng_running :: rng where
  "rng_running = rng_new\<lparr>rng_acked_features := AVAIL_FEATURES, rng_activate_evt := 1,
     rng_queues := Some [(rng_queue, 0)], rng_active := True\<rparr>"

definition rng_port :: "(rng, unit device_snapshot_state) virtio_ops" where
  "rng_port = rng_ops True"

definition rng_booted :: "rng mmio" where
  "rng_booted = (mmio_new rng_port rng_new)\<lparr>mm_device := rng_running, acked_features_select := 1,
     device_status := 15, mm_queues := None\<rparr>"

lemmas rng_instance = rng_booted_def rng_running_def rng_queue_def rng_setup_def rng_port_def rng_host_def
  rng_new_def mmio_new_def Let_def

lemma rng_queue_sound: "sound_queue ex_gm rng_mem rng_queue" "sound_queue ex_gm rng_bad_mem rng_queue"
  by (simp_all add: sound_queue_def rng_queue_def rng_setup_def configured_def set_event_idx_def queue_new_def
      valid_layout_def is_power_of_two_def area_ok_def ex_gm_def outside_def apart_def)

text \<open>The request of the example gets eight bytes, and its slot says so.\<close>

theorem rng_serves_requests_witness:
  "\<exists>m' t'. handle_req_event True True rng_host ex_gm 0 rng_mem rng_booted = Some (Inr (m', t'))
     \<and> interrupt_status t' = 1 \<and> load_u16 ex_gm m' 130 = Inr 1
     \<and> gm_read ex_gm m' 200 8 = Some [7, 7, 7, 7, 7, 7, 7, 7]
     \<and> gm_read ex_gm m' 132 8 = Some [0, 0, 0, 0, 8, 0, 0, 0]"
proof -
  let ?c = "\<lparr>dc_desc_table = 0, dc_queue_size = 2, dc_ttl = 2, dc_index = 0, dc_addr = 200, dc_len = 8,
    dc_flags = 2, dc_next = 0\<rparr>"
  have idx: "avail_idx ex_gm rng_mem rng_queue = Inr (q_next_avail rng_queue + of_nat 1)" by code_simp
  have good: "good_request ex_gm rng_mem (advanced rng_queue j)" if "j < 1" for j
  proof -
    have "good_request ex_gm rng_mem (advanced rng_queue 0)" by code_simp
    then show ?thesis using that by simp
  qed
  have chain: "request_chain ex_gm rng_mem rng_queue 0 = [?c]" by code_simp
  then have bufs: "concat (map (request_chain ex_gm rng_mem rng_queue) [0..<1]) = [?c]" by simp
  have element: "used_element [?c] = [0, 0, 0, 0, 8, 0, 0, 0]" by code_simp
  have bytes: "\<exists>bs. entropy (rng_host :: (nat \<Rightarrow> u8) rng_env) k n = Some bs \<and> length bs = n" for k n
    by (simp add: rng_host_def)
  have q: "q_used_ring rng_queue = 128" "q_next_used rng_queue = 0" "q_size rng_queue = 2" "interrupt_status rng_booted = 0"
    by (simp_all add: rng_instance configured_def set_event_idx_def queue_new_def)
  have dev: "rng_queues (mm_device rng_booted) = Some [(rng_queue, 0)]" "rng_active (mm_device rng_booted)"
    "\<not> rng_frozen (mm_device rng_booted)"
    by (simp_all add: rng_booted_def rng_running_def rng_new_def)
  have eight: "replicate 8 (7 :: u8) = [7, 7, 7, 7, 7, 7, 7, 7]" by code_simp
  show ?thesis
    using rng_serves_requests [OF ex_gm_laws ex_gm_mapping bytes dev rng_queue_sound(1) idx _ good, of 0]
    unfolding bufs Let_def by (auto simp: q chain element rng_host_def eight)
qed

theorem rng_bad_buffer_never_returns_witness:
  "handle_req_event True True rng_host ex_gm 0 rng_bad_mem rng_booted = None"
proof -
  let ?c = "\<lparr>dc_desc_table = 0, dc_queue_size = 2, dc_ttl = 2, dc_index = 0, dc_addr = 256, dc_len = 8,
    dc_flags = 2, dc_next = 0\<rparr>"
  have "next_head ex_gm rng_bad_mem rng_queue = Some ?c" by code_simp
  moreover have "avail_idx ex_gm rng_bad_mem rng_queue \<noteq> Inr (q_next_avail rng_queue)" by code_simp
  ultimately have stuck: "stuck_head rng_host ex_gm ?c rng_bad_mem rng_queue"
    using rng_queue_sound(2) by (simp add: stuck_head_def ex_gm_def rng_host_def)
  have env: "rng_env_laws (rng_host :: (nat \<Rightarrow> u8) rng_env)" by (simp add: rng_env_laws_def rng_host_def)
  have "rng_queues (mm_device rng_booted) = Some [(rng_queue, 0)]" "rng_active (mm_device rng_booted)"
    "\<not> rng_frozen (mm_device rng_booted)"
    by (simp_all add: rng_booted_def rng_running_def rng_new_def)
  then show ?thesis by (rule rng_bad_buffer_never_returns [OF ex_gm_laws ex_gm_mapping env stuck])
qed

lemma rng_port_device: "virtio_device rng_port" "snapshot_device rng_port rng_alike" "fresh_device rng_port rng_new"
  by (simp_all add: rng_port_def rng.virtio_device_axioms rng_snapshots.snapshot_device_axioms)
    (simp add: fresh_device_def rng_ops_def rng_new_def)

lemma write_all_steps: "write_all ops ws t = Some t' \<Longrightarrow> (mmio_step ops)\<^sup>*\<^sup>* t t'"
proof (induction ops ws t rule: write_all.induct)
  case (2 ops offset v ws t)
  then obtain u where u: "put_register ops offset v t = Some u" "write_all ops ws u = Some t'"
    by (auto simp: bind_eq_Some_conv)
  then have "mmio_step ops t u" by (auto simp: put_register_def intro: mmio_step.guest_write)
  then show ?case using "2.IH" [OF u] by (rule converse_rtranclp_into_rtranclp)
qed simp

lemma rng_boots: "write_all rng_port (init_writes AVAIL_FEATURES [rng_setup]) (mmio_new rng_port rng_new) = Some rng_booted"
  by code_simp

theorem driver_initialisation_witness:
  "\<exists>t. write_all rng_port (init_writes AVAIL_FEATURES [rng_setup]) (mmio_new rng_port rng_new) = Some t
     \<and> rng_queues (mm_device t) = Some [(rng_queue, 0)] \<and> device_status t = 15"
proof -
  have active: "\<not> vo_is_activated rng_port rng_new"
    and size: "length [rng_setup] = length (vo_queue_config rng_port rng_new)" "length [rng_setup] < 2 ^ 32"
    by (simp_all add: rng_instance rng_ops_def QUEUE_CONFIG_def NUM_QUEUES_def)
  have idx: "(vo_acked_features rng_port rng_new OR (AVAIL_FEATURES AND vo_avail_features rng_port rng_new))
      AND event_idx_bit = 0" by code_simp
  have config: "vo_queue_config rng_port rng_new = [256]"
    by (simp add: rng_port_def rng_ops_def QUEUE_CONFIG_def NUM_QUEUES_def)
  have "vo_activate rng_port [(rng_queue, 0)] d = Some (d\<lparr>rng_activate_evt := rng_activate_evt d + 1,
      rng_queues := Some [(rng_queue, 0)], rng_active := True\<rparr>)" for d
    by (simp add: rng_port_def rng_ops_def rng_activate_def NUM_QUEUES_def)
  then show ?thesis
    using driver_initialisation [OF rng_port_device(1) active size, of AVAIL_FEATURES]
    unfolding idx config by (auto simp: rng_queue_def)
qed

theorem transport_lifecycle_witness:
  "mm_queues rng_booted = None \<and> rng_acked_features (mm_device rng_booted) AND NOT AVAIL_FEATURES = 0"
proof -
  have "vo_avail_features rng_port (mm_device rng_booted) = AVAIL_FEATURES" "device_status rng_booted = 15"
    "vo_acked_features rng_port (mm_device rng_booted) = rng_acked_features (mm_device rng_booted)"
    by (simp_all add: rng_instance rng_ops_def)
  then show ?thesis
    using transport_lifecycle [OF rng_port_device(1, 3) write_all_steps [OF rng_boots]] by (simp add: DRIVER_OK_def)
qed

definition rng_paused :: "rng mmio" where
  "rng_paused = rng_booted\<lparr>mm_device := snd (rng_freeze (mm_device rng_booted))\<rparr>"

definition rng_saved :: "unit device_snapshot_state mmio_snapshot" where
  "rng_saved =
     \<lparr>ms_version = 1, ms_device_type = 4, ms_avail_features = AVAIL_FEATURES, ms_acked_features = AVAIL_FEATURES,
      ms_features_select = 0, ms_acked_features_select = 1, ms_queue_select = 0, ms_device_status = 15,
      ms_config_generation = 0, ms_shm_region_select = 0, ms_interrupt_status = 0, ms_irq_line = None,
      ms_queues = None, ms_device = \<lparr>ds_queues = Some [capture_state rng_queue], ds_state = Rng_Snapshot\<rparr>\<rparr>"

lemma rng_pauses: "(mmio_step rng_port)\<^sup>*\<^sup>* (mmio_new rng_port rng_new) rng_paused"
proof -
  have "keeps_lifecycle rng_port (mm_device rng_booted) (snd (rng_freeze (mm_device rng_booted)))"
    by (simp add: keeps_lifecycle_def rng_freeze_def rng_port_def rng_ops_def)
  then have "mmio_step rng_port rng_booted rng_paused"
    unfolding rng_paused_def by (rule mmio_step.device_work)
  then show ?thesis by (rule rtranclp.rtrancl_into_rtrancl [OF write_all_steps [OF rng_boots]])
qed


text \<open>
  A driver may clear status bits while it announces that it is ready: the device is then active while
  features are still accepted, which the queues it was given do not reflect.
\<close>

lemma late_features:
  "map_option (\<lambda>t. (rng_active (mm_device t), rng_acked_features (mm_device t)))
     (write_all rng_port ([(0x70, 1), (0x70, 3), (0x70, 11)] @ queue_writes 0 rng_setup @ [(0x70, 6), (0x24, 1), (0x20, 1)])
       (mmio_new rng_port rng_new)) = Some (True, AVAIL_FEATURES)"
  by code_simp

end
