(* ===== verification/Spec2Isabelle.thy ===== *)
theory Spec2Isabelle
  imports Egress File_Policy Enforcement Agentctl Journal Persistence Virtqueue Bus Multikey Preimage_Log Serial Replay Rng
begin

text \<open>
  A verification library for pvisor, a supervisor that runs coding agents in sandboxes and virtual
  machines, decides what they may reach, records what they did and replays it. Paths below are
  relative to \<open>src/crates/\<close>.

  \<^bold>\<open>The parts and how they interact.\<close> A session declares a network policy and a file policy. They
  are compiled once and then asked about every request: the network policy by the proxy and the
  packet network, through a control machine that records one decision and one effect per request,
  the file policy by the overlay file system. An executor states before a run what it will
  enforce, and after it what it did. While agents run they talk to the supervisor over the AgentCtl
  channel, which also brings them to rest for a checkpoint. Operations and events of the run go into
  a hash-chained journal, whose causal graph stays acyclic, and files are replaced durably. The
  overlay keeps a log of what each path looked like when the run first observed it. A finished session
  is replayed under a second journal of receipts, which forbids executing a tool twice. The
  virtual machine gives the guest devices on a bus: a serial port, and paravirtual devices that
  are configured through registers of a common transport and then share queues with the guest's
  memory, among them an entropy device and a shared file system with its inode table.

  \<^bold>\<open>Theories, sources and results.\<close>

  \<^item> \<open>Prelude\<close>: words with the checked and saturating operations of Rust, result types, strings of
    the standard library, ordered maps as association lists, and the locale \<open>state_machine\<close>, from
    which every component with a step relation gets its reachability invariant.
  \<^item> \<open>Net_Addr\<close>: addresses of \<open>std::net\<close> as the policies use them, with their classification. The
    normalised host name of an address literal is a literal of the same address.
  \<^item> \<open>Control\<close> (\<open>pvisor-core/src/policy.rs\<close>, \<open>execution.rs\<close>): the control machine. A reachable machine
    holds at most one decision and one matching effect. The locale \<open>control_controller\<close> is the
    contract of a controller; the network policy is an instance.
  \<^item> \<open>Net_Policy\<close> (\<open>policy.rs\<close>, \<open>gateway.rs\<close>, \<open>session.rs\<close>): rules, guards and their compilation. A
    scoped policy is the intersection of its layers, an explicit denial is a declared one, and an
    allowlist lets a name resolve into a private network only by the entry that opts in to it.
  \<^item> \<open>Egress\<close> (\<open>network.rs\<close>, \<open>session.rs\<close>): the compiled session policy, injected controllers, which
    never widen it, and one-time grants, which are narrow, keep all denials and take effect
    exactly where the destination is covered. Of \<open>ipnet\<close> they rely on \<open>networks_have_prefix\<close>.
  \<^item> \<open>File_Policy\<close> (\<open>file_access.rs\<close>, \<open>audit.rs\<close>): rules, layers, translation and session binding. A path is
    denied exactly when a deny rule matches it or an ancestor, and decisions only get stricter
    further down the tree.
  \<^item> \<open>Enforcement\<close> (\<open>execution.rs\<close>): claims before and after a run. Both are instances of the locale
    \<open>claim_map\<close>.
  \<^item> \<open>Agentctl\<close> (\<open>protocol.rs\<close>, \<open>pvisor/src/runtime/agentctl.rs\<close>): sessions, directives and checkpoints.
    A capture needs fresh reports of all participants, an answered checkpoint completes, a stale
    guard has no effect, and shutdown is final.
  \<^item> \<open>Operation_Event\<close> (\<open>operation.rs\<close>, \<open>event.rs\<close>): validation of operations, outcomes,
    observations and events. An observation is accepted exactly when it accounts for its plan.
  \<^item> \<open>Causality\<close> (\<open>pvisor-journal/src/journal.rs\<close>): the two cycle checks, each shown to decide
    acyclicity, and to agree.
  \<^item> \<open>Journal\<close> (\<open>journal.rs\<close>, \<open>api.rs\<close>, \<open>trace.rs\<close>): opening, repair, append and snapshots over a file that
    may keep any prefix of a failed write. The bytes reopen to the state that wrote them, a retry
    after a failed write has the effect of one append, and receipts are stable, through
    a reopening too when a failed write has poisoned the handle.
  \<^item> \<open>Persistence\<close> (\<open>persistence.rs\<close>): atomic replacement and durable directory trees.
  \<^item> \<open>Replay\<close> (\<open>pvisor-replay/src/journal.rs\<close>, \<open>error.rs\<close>, and the execution loop of \<open>engine.rs\<close> with the
    generic adapter): a state directory opens again only if each executed call has its finish, and the
    report of a failed run agrees with that.
  \<^item> \<open>Preimage_Log\<close> (\<open>pvisor-overlay-core/src/preimage_log.rs\<close>): frames, recovery, refresh and
    consumption. The first observation of a path wins and a durable one survives a crash.
  \<^item> \<open>Virtqueue\<close> (\<open>pvisor-vm/src/devices/virtio/queue.rs\<close>): descriptor chains, rings and notification
    suppression over a guest that writes anything.
  \<^item> \<open>Mmio\<close> (\<open>pvisor-vm/src/devices/virtio/mmio.rs\<close>, \<open>device.rs\<close>): the registers of the transport,
    feature negotiation, the status machine, activation and reset, capture and restoration. The
    device trait is the locale \<open>virtio_device\<close>. Queues are owned by the transport exactly until the driver is
    ready, and no feature is granted that is not offered; a failed transport stays failed.
  \<^item> \<open>Mmio_Init\<close> (the same sources): a conforming driver's sequence of writes hands the device the
    queues it described, and a snapshot of a reachable transport restores onto a fresh one
    exactly when it is \<open>restorable\<close>. Devices with snapshots are
    the locale \<open>snapshot_device\<close>, which extends \<open>virtio_device\<close>.
  \<^item> \<open>Rng\<close> (\<open>pvisor-vm/src/devices/virtio/rng\<close>): the entropy device, which interprets both locales. When
    all requests have their buffers in memory and entropy can be drawn, its handler ends with the
    entropy in the buffers and all requests in the used ring; it does not end on a request with a
    buffer outside of memory.
  \<^item> \<open>Bus\<close> (\<open>pvisor-vm/src/devices/bus.rs\<close>): routing under any insertions. Ranges that end
    inside the address space stay disjoint and are routed throughout; a range that wraps is not checked against others.
  \<^item> \<open>Serial\<close> (\<open>pvisor-vm/src/devices/legacy/serial_16550.rs\<close>): the serial port, composed with the bus
    in all its modes.
  \<^item> \<open>Multikey\<close> (\<open>pvisor-vm/src/devices/virtio/fs/multikey.rs\<close>): the map with two keys, a refinement of
    the locale \<open>two_key_map\<close>.

  \<^bold>\<open>How code is modelled.\<close> Structs are records, enums datatypes, machine integers words that wrap
  as in a release build, \<open>BTreeMap\<close> an association list in key order. An error is the left value of a
  sum, a panic a value of its own. Answers of the operating system (the outcome of a write, the
  time, readiness of a descriptor) are arguments. Code outside the repository is a parameter:
  \<open>ipnet\<close>, \<open>globset\<close>, \<open>serde_json\<close>, \<open>sha2\<close> and \<open>vm-memory\<close>. What the code relies on is a named
  predicate, as \<open>journal_laws\<close>, \<open>codec_laws\<close>, \<open>networks_have_prefix\<close> and \<open>guest_memory_laws\<close>, each satisfied by an instance in the
  theory that states it; \<open>mapping_laws\<close> adds that guest memory is mapped once and for all.

  \<^bold>\<open>Termination and bounds.\<close> No definition takes fuel, and all recursions but one are total: the
  loop of the entropy device is a partial function whose value \<open>None\<close> is a loop without end, and both
  that it returns and when it does not are theorems. The searches of
  \<open>Causality\<close> end because the set of visited nodes grows, the scans of \<open>Journal\<close> and \<open>Preimage_Log\<close>
  because they consume bytes, a descriptor chain because its time to live falls. The
  results on popping from a virtqueue are for queues of at most 16384 entries, above which the
  16-bit offset of a ring slot would wrap; the devices ask for at most 1024.

  \<^bold>\<open>Not modelled.\<close> Threads, sockets, mounts, namespaces, hypervisor calls and terminal I/O, and
  with them the executors, the daemon, the container shim, the guest agent and the command line,
  whose code is calls into the operating system. The user-space network stack and the HTTP and TLS
  services, built on third-party crates. The FUSE file system and the stage and apply operations
  of the overlay, directory walks over a live file system. Conversions between the JSON
  dialects of model providers and the session formats of third-party agents. The other virtio
  device back ends, and of the transport the hooks that rebind a shared file system and the locks. The Windows port, a second copy of the virtual machine
  monitor. Serialised forms enter only as parameters with a round-trip law.
  Failed reads of the preimage log, and the files a failed replay copies into its report, are left out.
\<close>

end
